(* ===== verification/Kiwi_Prelude.thy ===== *)
theory Kiwi_Prelude
  imports Main "HOL-Library.Word"
begin

text \<open>
  Prelude of the Kiwi development: the machine types of the Rust sources, the error values of
  \<^verbatim>\<open>src/storage/src/error.rs\<close>, the two result types of the model (a pure result and a
  state-passing one), little- and big-endian integers, byte slices, and the generic list lemmas
  the component theories share.

  Conventions. A byte is an \<open>8 word\<close>, \<open>&[u8]\<close>, \<open>Vec<u8>\<close>, \<open>Bytes\<close> and
  \<open>BytesMut\<close> are lists of bytes; \<open>u64\<close> is a \<open>64 word\<close>, whose arithmetic wraps
  as the release profile of \<^verbatim>\<open>Cargo.toml\<close> (\<open>overflow-checks = false\<close>) does;
  \<open>i64\<close> is an \<open>int\<close> with \<open>wrap_i64\<close> written where the source computes.
  \<open>usize\<close> lengths and offsets are \<open>nat\<close>. \<open>Err e\<close> is \<open>Inl e\<close> and \<open>Ok x\<close> is
  \<open>Inr x\<close>; a Rust panic (a slice index out of range, a failed assertion) is the error value
  \<open>Panic\<close>, so that no panic is hidden by HOL's total functions.
\<close>

named_theorems byte_simps \<open>lengths and slices of encoded fields\<close>
named_theorems result_simps \<open>evaluation of the result combinators\<close>

type_synonym byte = "8 word"
type_synonym bytes = "byte list"
type_synonym u16 = "16 word"
type_synonym u32 = "32 word"
type_synonym u64 = "64 word"
type_synonym i64 = int

section \<open>Errors and results\<close>

text \<open>
  \<open>Error\<close> of \<^verbatim>\<open>src/storage/src/error.rs\<close>. The \<open>snafu\<close> source locations are
  dropped; a message built by \<open>format!\<close> keeps its constant part. \<open>Panic\<close> is not a
  constructor of the Rust type: it stands for unwinding.
\<close>

datatype error =
    Io
  | Rocks string
  | Mpsc
  | Encoding string
  | KeyNotFound bytes
  | InvalidFormat string
  | Transaction string
  | Batch string
  | Compaction string
  | Config string
  | System string
  | Unknown string
  | OptionNone string
  | OptionNotDynamicallyModifiable string
  | InvalidArgument string
  | RedisErr string
  | VectorFlatQueryTimeout
  | VectorFlatQueryCancelled
  | VectorFlatScanBudgetExceeded
  | LogIndex string
  | Panic string

type_synonym 'a result = "error + 'a"

definition rbind :: "'a result \<Rightarrow> ('a \<Rightarrow> 'b result) \<Rightarrow> 'b result" where
  "rbind r f = (case r of Inl e \<Rightarrow> Inl e | Inr x \<Rightarrow> f x)"

definition ensure :: "bool \<Rightarrow> error \<Rightarrow> unit result" where
  "ensure b e = (if b then Inr () else Inl e)"

text \<open>Operations on a state: the state is returned on the error path too.\<close>

definition obind ::
  "('s \<Rightarrow> 'a result \<times> 's) \<Rightarrow> ('a \<Rightarrow> 's \<Rightarrow> 'b result \<times> 's) \<Rightarrow> 's \<Rightarrow> 'b result \<times> 's" where
  "obind m f = (\<lambda>s. case m s of (Inl e, s') \<Rightarrow> (Inl e, s') | (Inr x, s') \<Rightarrow> f x s')"

definition olift :: "'a result \<Rightarrow> 's \<Rightarrow> 'a result \<times> 's" where
  "olift r = (\<lambda>s. (r, s))"

definition oreturn :: "'a \<Rightarrow> 's \<Rightarrow> 'a result \<times> 's" where
  "oreturn x = (\<lambda>s. (Inr x, s))"

section \<open>Slices, reads and writes of byte buffers\<close>

text \<open>\<open>&xs[a..b]\<close> and \<open>dst[a..b].copy_from_slice(src)\<close>; both panic out of range, the second
  also when the lengths differ.\<close>

definition slice :: "bytes \<Rightarrow> nat \<Rightarrow> nat \<Rightarrow> bytes result" where
  "slice xs a b =
     (if a \<le> b \<and> b \<le> length xs then Inr (take (b - a) (drop a xs))
      else Inl (Panic ''slice index out of range''))"

definition copy_range :: "bytes \<Rightarrow> nat \<Rightarrow> nat \<Rightarrow> bytes \<Rightarrow> bytes result" where
  "copy_range dst a b src =
     (if a \<le> b \<and> b \<le> length dst then
        (if length src = b - a then Inr (take a dst @ src @ drop b dst)
         else Inl (Panic ''source slice length does not match destination''))
      else Inl (Panic ''slice index out of range''))"

text \<open>\<open>usize\<close> arithmetic of the release profile, which wraps at \<open>2 ^ 64\<close>.\<close>

definition usize_add :: "nat \<Rightarrow> nat \<Rightarrow> nat" where
  "usize_add a b = (a + b) mod 2 ^ 64"

definition usize_sub :: "nat \<Rightarrow> nat \<Rightarrow> nat" where
  "usize_sub a b = (if b \<le> a then a - b else a + 2 ^ 64 - b)"

section \<open>Fixed-width integers as bytes\<close>

primrec le_nat :: "nat \<Rightarrow> nat \<Rightarrow> bytes" where
  "le_nat 0 x = []"
| "le_nat (Suc n) x = word_of_nat (x mod 256) # le_nat n (x div 256)"

primrec nat_le :: "bytes \<Rightarrow> nat" where
  "nat_le [] = 0"
| "nat_le (b # bs) = unat b + 256 * nat_le bs"

definition u64_le :: "u64 \<Rightarrow> bytes" where
  "u64_le w = le_nat 8 (unat w)"

definition u64_of_le :: "bytes \<Rightarrow> u64" where
  "u64_of_le bs = word_of_nat (nat_le bs)"

definition u32_le :: "u32 \<Rightarrow> bytes" where
  "u32_le w = le_nat 4 (unat w)"

definition u32_of_le :: "bytes \<Rightarrow> u32" where
  "u32_of_le bs = word_of_nat (nat_le bs)"

definition u64_be :: "u64 \<Rightarrow> bytes" where
  "u64_be w = rev (u64_le w)"

definition u64_of_be :: "bytes \<Rightarrow> u64" where
  "u64_of_be bs = u64_of_le (rev bs)"

definition u32_be :: "u32 \<Rightarrow> bytes" where
  "u32_be w = rev (u32_le w)"

definition u32_of_be :: "bytes \<Rightarrow> u32" where
  "u32_of_be bs = u32_of_le (rev bs)"

text \<open>\<open>Buf::get_u8\<close>, \<open>get_u64_le\<close>, \<open>advance\<close> on a cursor, which is the list of the
  bytes not yet read; each panics when the cursor is too short.\<close>

definition get_u8 :: "bytes \<Rightarrow> (byte \<times> bytes) result" where
  "get_u8 r = (case r of [] \<Rightarrow> Inl (Panic ''advance out of bounds'') | b # r' \<Rightarrow> Inr (b, r'))"

definition get_u64_le :: "bytes \<Rightarrow> (u64 \<times> bytes) result" where
  "get_u64_le r =
     (if 8 \<le> length r then Inr (u64_of_le (take 8 r), drop 8 r)
      else Inl (Panic ''advance out of bounds''))"

definition get_u64 :: "bytes \<Rightarrow> (u64 \<times> bytes) result" where
  "get_u64 r =
     (if 8 \<le> length r then Inr (u64_of_be (take 8 r), drop 8 r)
      else Inl (Panic ''advance out of bounds''))"

definition get_u32 :: "bytes \<Rightarrow> (u32 \<times> bytes) result" where
  "get_u32 r =
     (if 4 \<le> length r then Inr (u32_of_be (take 4 r), drop 4 r)
      else Inl (Panic ''advance out of bounds''))"

definition advance :: "nat \<Rightarrow> bytes \<Rightarrow> bytes result" where
  "advance n r = (if n \<le> length r then Inr (drop n r) else Inl (Panic ''advance out of bounds''))"

text \<open>\<open>x as i64\<close> for a \<open>u64\<close>, and the wrap-around of release-mode \<open>i64\<close> arithmetic.\<close>

definition u64_as_i64 :: "u64 \<Rightarrow> i64" where
  "u64_as_i64 w = sint w"

definition i64_as_u64 :: "i64 \<Rightarrow> u64" where
  "i64_as_u64 i = word_of_int i"

definition wrap_i64 :: "int \<Rightarrow> i64" where
  "wrap_i64 i = (i + 2 ^ 63) mod 2 ^ 64 - 2 ^ 63"

definition checked_add_u64 :: "u64 \<Rightarrow> u64 \<Rightarrow> u64 option" where
  "checked_add_u64 a b = (if unat a + unat b < 2 ^ 64 then Some (a + b) else None)"

definition checked_mul_u64 :: "u64 \<Rightarrow> u64 \<Rightarrow> u64 option" where
  "checked_mul_u64 a b = (if unat a * unat b < 2 ^ 64 then Some (a * b) else None)"

definition saturating_add_u64 :: "u64 \<Rightarrow> u64 \<Rightarrow> u64" where
  "saturating_add_u64 a b = (if unat a + unat b < 2 ^ 64 then a + b else - 1)"

section \<open>Orderings\<close>

text \<open>\<open>std::cmp::Ordering\<close>, \<open>Ord::cmp\<close> on byte slices and on unsigned integers.\<close>

datatype ordering = Less | Equal | Greater

primrec reverse_ordering :: "ordering \<Rightarrow> ordering" where
  "reverse_ordering Less = Greater"
| "reverse_ordering Equal = Equal"
| "reverse_ordering Greater = Less"

definition cmp_of :: "'a::linorder \<Rightarrow> 'a \<Rightarrow> ordering" where
  "cmp_of a b = (if a < b then Less else if a = b then Equal else Greater)"

text \<open>\<open>match x { Equal => {} other => return other }\<close> followed by the rest of the body.\<close>

definition then_cmp :: "ordering \<Rightarrow> ordering \<Rightarrow> ordering" where
  "then_cmp x y = (if x = Equal then y else x)"

fun bytes_cmp :: "bytes \<Rightarrow> bytes \<Rightarrow> ordering" where
  "bytes_cmp [] [] = Equal"
| "bytes_cmp [] (b # bs) = Less"
| "bytes_cmp (a # as) [] = Greater"
| "bytes_cmp (a # as) (b # bs) = then_cmp (cmp_of a b) (bytes_cmp as bs)"

section \<open>Lemmas on results\<close>

lemma rbind_simps [simp, result_simps]:
  "rbind (Inl e) f = Inl e"
  "rbind (Inr x) f = f x"
  by (simp_all add: rbind_def)

lemma rbind_eq_Inr: "rbind r f = Inr y \<longleftrightarrow> (\<exists>x. r = Inr x \<and> f x = Inr y)"
  by (cases r) simp_all

lemma rbind_cong [fundef_cong]:
  "r = r' \<Longrightarrow> (\<And>x. r' = Inr x \<Longrightarrow> f x = g x) \<Longrightarrow> rbind r f = rbind r' g"
  by (cases r') simp_all

lemma ensure_simps [simp, result_simps]:
  "ensure True e = Inr ()"
  "ensure False e = Inl e"
  by (simp_all add: ensure_def)

lemma ensure_eq_Inr [simp]: "ensure b e = Inr u \<longleftrightarrow> b"
  by (simp add: ensure_def)

lemma obind_olift_Inr [simp, result_simps]: "obind (olift (Inr x)) f s = f x s"
  by (simp add: obind_def olift_def)

lemma obind_olift_Inl [simp, result_simps]: "obind (olift (Inl e)) f s = (Inl e, s)"
  by (simp add: obind_def olift_def)

lemma obind_oreturn [simp, result_simps]: "obind (oreturn x) f s = f x s"
  by (simp add: obind_def oreturn_def)

lemma obind_Inr: "m s = (Inr x, s') \<Longrightarrow> obind m f s = f x s'"
  by (simp add: obind_def)

lemma obind_Inl: "m s = (Inl e, s') \<Longrightarrow> obind m f s = (Inl e, s')"
  by (simp add: obind_def)

section \<open>Lemmas on slices\<close>

lemma slice_Inr: "a \<le> b \<Longrightarrow> b \<le> length xs \<Longrightarrow> slice xs a b = Inr (take (b - a) (drop a xs))"
  by (simp add: slice_def)

lemma slice_append:
  "a = length xs \<Longrightarrow> b = a + length ys \<Longrightarrow> slice (xs @ ys @ zs) a b = Inr ys"
  by (simp add: slice_def)

lemma copy_range_field:
  assumes "a = length xs" and "b = a + length ys" and "length src = length ys"
  shows "copy_range (xs @ ys @ zs) a b src = Inr (xs @ src @ zs)"
  using assms by (simp add: copy_range_def)

lemma usize_sub_le [simp]: "b \<le> a \<Longrightarrow> usize_sub a b = a - b"
  by (simp add: usize_sub_def)

lemma usize_add_small: "a + b < 2 ^ 64 \<Longrightarrow> usize_add a b = a + b"
  by (simp add: usize_add_def)

section \<open>Lemmas on fixed-width integers\<close>

lemma length_le_nat [simp, byte_simps]: "length (le_nat n x) = n"
  by (induction n arbitrary: x) simp_all

lemma nat_le_le_nat: "nat_le (le_nat n x) = x mod 256 ^ n"
proof (induction n arbitrary: x)
  case 0
  then show ?case by simp
next
  case (Suc n)
  have u: "unat (word_of_nat (x mod 256) :: byte) = x mod 256"
    by (simp add: unat_of_nat)
  have "nat_le (le_nat (Suc n) x) = x mod 256 + 256 * (x div 256 mod 256 ^ n)"
    by (simp add: Suc.IH u)
  also have "\<dots> = x mod 256 ^ Suc n"
    by (simp add: mod_mult2_eq)
  finally show ?case .
qed

lemma nat_le_bound: "nat_le bs < 256 ^ length bs"
proof (induction bs)
  case Nil
  then show ?case by simp
next
  case (Cons b bs)
  have "unat b < 256" using unsigned_less [of b] by simp
  then show ?case using Cons.IH by simp
qed

lemma le_nat_nat_le: "le_nat (length bs) (nat_le bs) = bs"
proof (induction bs)
  case Nil
  then show ?case by simp
next
  case (Cons b bs)
  have "unat b < 256" using unsigned_less [of b] by simp
  then show ?case using Cons.IH by simp
qed

lemma length_u64_le [simp, byte_simps]: "length (u64_le w) = 8"
  by (simp add: u64_le_def)

lemma length_u32_le [simp, byte_simps]: "length (u32_le w) = 4"
  by (simp add: u32_le_def)

lemma length_u64_be [simp, byte_simps]: "length (u64_be w) = 8"
  by (simp add: u64_be_def)

lemma length_u32_be [simp, byte_simps]: "length (u32_be w) = 4"
  by (simp add: u32_be_def)

lemma u64_of_le_u64_le [simp]: "u64_of_le (u64_le w) = w"
proof -
  have "nat_le (le_nat 8 (unat w)) = unat w mod 256 ^ 8" by (rule nat_le_le_nat)
  also have "\<dots> = unat w" using unsigned_less [where 'a = nat, of w] by simp
  finally show ?thesis by (simp add: u64_of_le_def u64_le_def)
qed

lemma u32_of_le_u32_le [simp]: "u32_of_le (u32_le w) = w"
proof -
  have "nat_le (le_nat 4 (unat w)) = unat w mod 256 ^ 4" by (rule nat_le_le_nat)
  also have "\<dots> = unat w" using unsigned_less [where 'a = nat, of w] by simp
  finally show ?thesis by (simp add: u32_of_le_def u32_le_def)
qed

lemma u64_le_u64_of_le: "length bs = 8 \<Longrightarrow> u64_le (u64_of_le bs) = bs"
proof -
  assume len: "length bs = 8"
  have "nat_le bs < 256 ^ 8" using nat_le_bound [of bs] len by simp
  then have "unat (word_of_nat (nat_le bs) :: u64) = nat_le bs"
    by (simp add: unat_of_nat)
  then show ?thesis
    using le_nat_nat_le [of bs] len by (simp add: u64_le_def u64_of_le_def)
qed

lemma u64_le_inject [simp]: "u64_le v = u64_le w \<longleftrightarrow> v = w"
  by (metis u64_of_le_u64_le)

lemma u64_of_be_u64_be [simp]: "u64_of_be (u64_be w) = w"
  by (simp add: u64_of_be_def u64_be_def)

lemma u32_of_be_u32_be [simp]: "u32_of_be (u32_be w) = w"
  by (simp add: u32_of_be_def u32_be_def)

lemma u64_be_inject [simp]: "u64_be v = u64_be w \<longleftrightarrow> v = w"
  by (metis u64_of_be_u64_be)

lemma u32_be_inject [simp]: "u32_be v = u32_be w \<longleftrightarrow> v = w"
  by (metis u32_of_be_u32_be)

lemma get_u8_Cons [simp]: "get_u8 (b # r) = Inr (b, r)"
  by (simp add: get_u8_def)

lemma get_u64_le_append [simp]: "get_u64_le (u64_le w @ r) = Inr (w, r)"
  by (simp add: get_u64_le_def)

lemma get_u64_le_last [simp]: "get_u64_le (u64_le w) = Inr (w, [])"
  by (simp add: get_u64_le_def)

lemma get_u64_append [simp]: "get_u64 (u64_be w @ r) = Inr (w, r)"
  by (simp add: get_u64_def)

lemma get_u32_append [simp]: "get_u32 (u32_be w @ r) = Inr (w, r)"
  by (simp add: get_u32_def)

lemma advance_append [simp]: "n = length a \<Longrightarrow> advance n (a @ r) = Inr r"
  by (simp add: advance_def)

text \<open>Splitting a buffer into its fields; used where a parser reads an arbitrary buffer.\<close>

lemma take_drop_split: "k \<le> length xs \<Longrightarrow> \<exists>a r. xs = a @ r \<and> length a = k"
  by (metis append_take_drop_id length_take min.absorb2)

section \<open>Lemmas on machine arithmetic\<close>

lemma wrap_i64_id: "- (2 ^ 63) \<le> i \<Longrightarrow> i < 2 ^ 63 \<Longrightarrow> wrap_i64 i = i"
  by (simp add: wrap_i64_def)

lemma wrap_i64_range: "- (2 ^ 63) \<le> wrap_i64 i \<and> wrap_i64 i < 2 ^ 63"
proof -
  have "0 \<le> (i + 2 ^ 63) mod 2 ^ 64" by simp
  moreover have "(i + 2 ^ 63) mod 2 ^ 64 < 2 ^ 64" by simp
  ultimately show ?thesis by (simp add: wrap_i64_def)
qed

lemma u64_as_i64_small: "unat w < 2 ^ 63 \<Longrightarrow> u64_as_i64 w = int (unat w)"
proof -
  assume "unat w < 2 ^ 63"
  then have "uint w < 2 ^ 63"
    by (metis of_nat_less_iff of_nat_numeral of_nat_power uint_nat)
  then have "signed_take_bit 63 (uint w) = uint w"
    by (intro signed_take_bit_int_eq_self) (auto intro: order_trans [of _ 0])
  then show ?thesis by (simp add: u64_as_i64_def sint_uint)
qed

lemma unat_of_nat_u64: "n < 2 ^ 64 \<Longrightarrow> unat (word_of_nat n :: u64) = n"
  by (simp add: unat_of_nat)

lemma word_of_nat_u64_inj:
  "a < 2 ^ 64 \<Longrightarrow> b < 2 ^ 64 \<Longrightarrow> (word_of_nat a :: u64) = word_of_nat b \<longleftrightarrow> a = b"
  by (metis unat_of_nat_u64)

section \<open>Lemmas on orderings\<close>

lemma then_cmp_simps [simp]:
  "then_cmp Less y = Less" "then_cmp Equal y = y" "then_cmp Greater y = Greater"
  "then_cmp x Equal = x"
  by (simp_all add: then_cmp_def)

lemma then_cmp_eq_Equal [simp]: "then_cmp x y = Equal \<longleftrightarrow> x = Equal \<and> y = Equal"
  by (simp add: then_cmp_def)

lemma then_cmp_assoc: "then_cmp (then_cmp x y) z = then_cmp x (then_cmp y z)"
  by (simp add: then_cmp_def)

lemma cmp_of_refl [simp]: "cmp_of a a = Equal"
  by (simp add: cmp_of_def)

lemma cmp_of_eq_Equal [simp]: "cmp_of a b = Equal \<longleftrightarrow> a = b"
  by (simp add: cmp_of_def)

lemma cmp_of_flip: "cmp_of b a = reverse_ordering (cmp_of a b)"
  by (auto simp: cmp_of_def)

lemma reverse_then_cmp:
  "reverse_ordering (then_cmp x y) = then_cmp (reverse_ordering x) (reverse_ordering y)"
  by (cases x) simp_all

lemma bytes_cmp_refl [simp]: "bytes_cmp xs xs = Equal"
  by (induction xs) simp_all

lemma bytes_cmp_eq_Equal [simp]: "bytes_cmp xs ys = Equal \<longleftrightarrow> xs = ys"
  by (induction xs ys rule: bytes_cmp.induct) auto

lemma bytes_cmp_flip: "bytes_cmp ys xs = reverse_ordering (bytes_cmp xs ys)"
proof (induction xs ys rule: bytes_cmp.induct)
  case (4 a as b bs)
  then show ?case using cmp_of_flip [of b a] by (simp add: reverse_then_cmp)
qed simp_all

lemma bytes_cmp_same_prefix [simp]: "bytes_cmp (xs @ ys) (xs @ zs) = bytes_cmp ys zs"
  by (induction xs) simp_all

text \<open>Two buffers of equal length decide the comparison of whatever follows them.\<close>

lemma bytes_cmp_append_same_length:
  "length xs = length xs' \<Longrightarrow>
     bytes_cmp (xs @ ys) (xs' @ ys') = then_cmp (bytes_cmp xs xs') (bytes_cmp ys ys')"
  by (induction xs xs' rule: list_induct2) (simp_all add: then_cmp_assoc)

lemma cmp_of_trans:
  "cmp_of a b \<noteq> Greater \<Longrightarrow> cmp_of b c \<noteq> Greater \<Longrightarrow>
     cmp_of a c \<noteq> Greater \<and> (cmp_of a c = Equal \<longrightarrow> cmp_of a b = Equal \<and> cmp_of b c = Equal)"
  by (auto simp: cmp_of_def split: if_splits)

lemma bytes_cmp_trans:
  "bytes_cmp xs ys \<noteq> Greater \<Longrightarrow> bytes_cmp ys zs \<noteq> Greater \<Longrightarrow> bytes_cmp xs zs \<noteq> Greater"
proof (induction xs ys arbitrary: zs rule: bytes_cmp.induct)
  case (4 a as b bs)
  show ?case
  proof (cases zs)
    case Nil
    with 4 show ?thesis by simp
  next
    case (Cons c cs)
    with 4 show ?thesis
      by (auto simp: then_cmp_def cmp_of_def split: if_splits)
  qed
qed (auto split: list.splits, (case_tac zs, auto)+)

end
