(* ===== verification/Storage_Define.thy ===== *)
theory Storage_Define
  imports Kiwi_Prelude
begin

text \<open>
  The user-key escaping of \<^verbatim>\<open>src/storage/src/storage_define.rs\<close>: \<open>encode_user_key\<close>
  copies the runs between zero bytes, writes \<open>00 01\<close> for each zero byte and ends with the
  delimiter \<open>00 00\<close>; \<open>decode_user_key\<close> is the byte-driven automaton that undoes it;
  \<open>seek_userkey_delim\<close> finds the end of an encoded key inside a longer key. The reference
  definition is \<open>escape\<close>. The lemmas show that the run-copying loop computes \<open>escape\<close>,
  that decoding inverts it and accepts nothing else, that the encoding is prefix free, and that it
  preserves the lexicographic order of user keys.
\<close>

abbreviation PREFIX_RESERVE_LENGTH :: nat where "PREFIX_RESERVE_LENGTH \<equiv> 8"
abbreviation VERSION_LENGTH :: nat where "VERSION_LENGTH \<equiv> 8"
abbreviation SUFFIX_RESERVE_LENGTH :: nat where "SUFFIX_RESERVE_LENGTH \<equiv> 16"
abbreviation TYPE_LENGTH :: nat where "TYPE_LENGTH \<equiv> 1"
abbreviation TIMESTAMP_LENGTH :: nat where "TIMESTAMP_LENGTH \<equiv> 8"
abbreviation ENCODED_KEY_DELIM_SIZE :: nat where "ENCODED_KEY_DELIM_SIZE \<equiv> 2"
abbreviation STRING_VALUE_SUFFIXLENGTH :: nat where "STRING_VALUE_SUFFIXLENGTH \<equiv> 32"
abbreviation BASE_META_VALUE_COUNT_LENGTH :: nat where "BASE_META_VALUE_COUNT_LENGTH \<equiv> 8"
abbreviation BASE_META_VALUE_LENGTH :: nat where "BASE_META_VALUE_LENGTH \<equiv> 49"

section \<open>Definitions\<close>

text \<open>The loop of \<open>encode_user_key\<close>: \<open>i\<close> is the position of the next byte, \<open>start_pos\<close> the
  start of the run not yet copied.\<close>

fun encode_user_key_loop :: "bytes \<Rightarrow> nat \<Rightarrow> bytes \<Rightarrow> nat \<Rightarrow> bytes \<Rightarrow> nat \<times> bytes" where
  "encode_user_key_loop user_key i [] start_pos dst = (start_pos, dst)"
| "encode_user_key_loop user_key i (b # bs) start_pos dst =
     (if b = 0 then
        (let dst1 = (if start_pos < i then dst @ take (i - start_pos) (drop start_pos user_key)
                     else dst)
         in encode_user_key_loop user_key (Suc i) bs (Suc i) (dst1 @ [0, 1]))
      else encode_user_key_loop user_key (Suc i) bs start_pos dst)"

definition encode_user_key :: "bytes \<Rightarrow> bytes \<Rightarrow> bytes result" where
  "encode_user_key user_key dst =
     (let (start_pos, dst1) = encode_user_key_loop user_key 0 user_key 0 dst;
          dst2 = (if start_pos < length user_key then dst1 @ drop start_pos user_key else dst1)
      in Inr (dst2 @ [0, 0]))"

text \<open>The loop of \<open>decode_user_key\<close>; it returns \<open>delim_found\<close> and the decoded bytes.\<close>

fun decode_user_key_loop :: "bytes \<Rightarrow> bool \<Rightarrow> bytes \<Rightarrow> (bool \<times> bytes) result" where
  "decode_user_key_loop [] zero_ahead user_key = Inr (False, user_key)"
| "decode_user_key_loop (b # bs) zero_ahead user_key =
     (if b = 0 then
        (if zero_ahead then Inr (True, user_key) else decode_user_key_loop bs True user_key)
      else if b = 1 then
        (if zero_ahead then decode_user_key_loop bs False (user_key @ [0])
         else decode_user_key_loop bs zero_ahead (user_key @ [b]))
      else if zero_ahead then Inl (InvalidFormat ''Invalid encoding sequence'')
      else decode_user_key_loop bs False (user_key @ [b]))"

definition decode_user_key :: "bytes \<Rightarrow> bytes \<Rightarrow> bytes result" where
  "decode_user_key encoded_key_part user_key =
     rbind (ensure (ENCODED_KEY_DELIM_SIZE \<le> length encoded_key_part)
              (InvalidFormat ''Encoded key part too short'')) (\<lambda>_.
     rbind (decode_user_key_loop encoded_key_part False user_key) (\<lambda>(delim_found, user_key').
     rbind (ensure delim_found
              (InvalidFormat ''Encoded key delimiter not found or key ends unexpectedly'')) (\<lambda>_.
     Inr user_key')))"

fun seek_userkey_delim_loop :: "bytes \<Rightarrow> nat \<Rightarrow> bool \<Rightarrow> nat option" where
  "seek_userkey_delim_loop [] i zero_ahead = None"
| "seek_userkey_delim_loop (b # bs) i zero_ahead =
     (if b = 0 \<and> zero_ahead then Some (i + 1)
      else seek_userkey_delim_loop bs (Suc i) (b = 0))"

definition seek_userkey_delim :: "bytes \<Rightarrow> nat" where
  "seek_userkey_delim data =
     (case seek_userkey_delim_loop data 0 False of Some n \<Rightarrow> n | None \<Rightarrow> length data)"

text \<open>Reference definition of the encoding.\<close>

fun escape :: "bytes \<Rightarrow> bytes" where
  "escape [] = []"
| "escape (b # bs) = (if b = 0 then 0 # 1 # escape bs else b # escape bs)"

definition encoded_user_key :: "bytes \<Rightarrow> bytes" where
  "encoded_user_key k = escape k @ [0, 0]"

section \<open>The run-copying loop computes the reference encoding\<close>

lemma escape_append [simp]: "escape (xs @ ys) = escape xs @ escape ys"
  by (induction xs) simp_all

lemma escape_no_zero: "0 \<notin> set xs \<Longrightarrow> escape xs = xs"
  by (induction xs) auto

lemma encode_user_key_loop_escape:
  assumes "user_key = pre @ run @ rest" and "i = length pre + length run"
    and "start_pos = length pre" and "0 \<notin> set run"
  shows "\<exists>run' pre'. encode_user_key_loop user_key i rest start_pos (dst @ escape pre)
      = (length pre', dst @ escape pre') \<and> user_key = pre' @ run' \<and> 0 \<notin> set run'"
  using assms
proof (induction rest arbitrary: pre run i start_pos)
  case Nil
  then show ?case by auto
next
  case (Cons b rest)
  show ?case
  proof (cases "b = 0")
    case True
    have run: "(if start_pos < i then (dst @ escape pre) @ take (i - start_pos) (drop start_pos user_key)
                else dst @ escape pre) @ [0, 1] = dst @ escape (pre @ run @ [0])"
      using Cons.prems True by (auto simp: escape_no_zero)
    have "\<exists>run' pre'. encode_user_key_loop user_key (Suc i) rest (Suc i)
        (dst @ escape (pre @ run @ [0])) = (length pre', dst @ escape pre')
        \<and> user_key = pre' @ run' \<and> 0 \<notin> set run'"
      using Cons.prems True by (intro Cons.IH [where run = "[]"]) auto
    with True run show ?thesis by simp
  next
    case False
    then have "\<exists>run' pre'. encode_user_key_loop user_key (Suc i) rest start_pos (dst @ escape pre)
        = (length pre', dst @ escape pre') \<and> user_key = pre' @ run' \<and> 0 \<notin> set run'"
      using Cons.prems by (intro Cons.IH [where run = "run @ [b]"]) auto
    with False show ?thesis by simp
  qed
qed

lemma encode_user_key_eq: "encode_user_key user_key dst = Inr (dst @ encoded_user_key user_key)"
proof -
  obtain run' pre' where loop: "encode_user_key_loop user_key 0 user_key 0 dst
      = (length pre', dst @ escape pre')" and uk: "user_key = pre' @ run'" and "0 \<notin> set run'"
    using encode_user_key_loop_escape [of user_key "[]" "[]" user_key 0 0 dst] by auto
  then have "escape user_key = escape pre' @ run'" by (simp add: escape_no_zero)
  with loop uk show ?thesis
    by (auto simp: encode_user_key_def encoded_user_key_def Let_def)
qed

section \<open>Decoding\<close>

lemma decode_loop_escape:
  "decode_user_key_loop (escape k @ 0 # 0 # rest) False uk = Inr (True, uk @ k)"
  by (induction k arbitrary: uk) auto

lemma decode_user_key_encoded [simp]:
  "decode_user_key (encoded_user_key k @ rest) uk = Inr (uk @ k)"
  by (simp add: decode_user_key_def encoded_user_key_def decode_loop_escape)

lemma decode_user_key_encoded_exact [simp]: "decode_user_key (encoded_user_key k) uk = Inr (uk @ k)"
  using decode_user_key_encoded [of k "[]"] by simp

lemma decode_loop_sound:
  "decode_user_key_loop bs za uk = Inr (True, k) \<Longrightarrow>
     \<exists>k' rest. k = uk @ k' \<and> (if za then 0 # bs else bs) = escape k' @ 0 # 0 # rest"
proof (induction bs za uk rule: decode_user_key_loop.induct)
  case (1 za uk)
  then show ?case by simp
next
  case (2 b bs za uk)
  consider (delim) "b = 0" "za" | (zero) "b = 0" "\<not> za" | (esc) "b = 1" "za"
    | (plain) "b \<noteq> 0" "\<not> za" using 2 by (auto split: if_splits)
  then show ?case
  proof cases
    case delim
    with 2 show ?thesis by - (rule exI [of _ "[]"], rule exI [of _ bs], auto)
  next
    case zero
    with 2 show ?thesis by (auto split: if_splits)
  next
    case esc
    with 2 obtain k' rest where "k = (uk @ [0]) @ k'" "bs = escape k' @ 0 # 0 # rest"
      by (auto split: if_splits)
    with esc show ?thesis by - (rule exI [of _ "0 # k'"], rule exI [of _ rest], auto)
  next
    case plain
    with 2 obtain k' rest where "k = (uk @ [b]) @ k'" "bs = escape k' @ 0 # 0 # rest"
      by (auto split: if_splits)
    with plain show ?thesis by - (rule exI [of _ "b # k'"], rule exI [of _ rest], auto)
  qed
qed

lemma decode_user_key_sound:
  assumes "decode_user_key p uk = Inr k"
  shows "\<exists>k' rest. k = uk @ k' \<and> p = encoded_user_key k' @ rest"
proof -
  from assms have "decode_user_key_loop p False uk = Inr (True, k)"
    by (auto simp: decode_user_key_def rbind_eq_Inr)
  from decode_loop_sound [OF this] show ?thesis
    by (auto simp: encoded_user_key_def)
qed

section \<open>Finding the delimiter, prefix freeness\<close>

lemma length_encoded_user_key: "length (encoded_user_key k) = length (escape k) + 2"
  by (simp add: encoded_user_key_def)

lemma encoded_user_key_ge_2 [simp]: "2 \<le> length (encoded_user_key k)"
  by (simp add: encoded_user_key_def)

lemma encoded_user_key_not_short [simp]:
  "\<not> length (encoded_user_key k) < 2" "\<not> length (encoded_user_key k) + n < 2"
  by (simp_all add: encoded_user_key_def)

lemma seek_loop_escape:
  "seek_userkey_delim_loop (escape k @ 0 # 0 # rest) i False = Some (i + length (escape k) + 2)"
  by (induction k arbitrary: i) auto

lemma seek_encoded [simp]:
  "seek_userkey_delim (encoded_user_key k @ rest) = length (encoded_user_key k)"
  by (simp add: seek_userkey_delim_def encoded_user_key_def seek_loop_escape)

lemma seek_encoded_exact [simp]: "seek_userkey_delim (encoded_user_key k) = length (encoded_user_key k)"
  using seek_encoded [of k "[]"] by simp

lemma encoded_user_key_prefix_free:
  assumes "encoded_user_key k @ r = encoded_user_key k' @ r'"
  shows "k = k' \<and> r = r'"
proof -
  have "Inr ([] @ k) = (Inr ([] @ k') :: bytes result)"
    using decode_user_key_encoded [of k r "[]"] decode_user_key_encoded [of k' r' "[]"] assms
    by metis
  with assms show ?thesis by simp
qed

lemma encoded_append_eq_iff [simp]:
  "encoded_user_key k @ r = encoded_user_key k' @ r' \<longleftrightarrow> k = k' \<and> r = r'"
  using encoded_user_key_prefix_free by blast

lemma encoded_user_key_inject [simp]: "encoded_user_key k = encoded_user_key k' \<longleftrightarrow> k = k'"
  using encoded_user_key_prefix_free [of k "[]" k' "[]"] by auto

section \<open>Order preservation\<close>

lemma byte_zero_less: "b \<noteq> (0 :: byte) \<Longrightarrow> 0 < b"
  using word_gt_0 by blast

lemma bytes_cmp_escape:
  "bytes_cmp (escape a @ 0 # 0 # r) (escape b @ 0 # 0 # r')
     = then_cmp (bytes_cmp a b) (bytes_cmp r r')"
proof (induction a b rule: bytes_cmp.induct)
  case (2 b bs)
  then show ?case using byte_zero_less [of b] by (auto simp: cmp_of_def)
next
  case (3 a as)
  then show ?case using byte_zero_less [of a] by (auto simp: cmp_of_def)
next
  case (4 a as b bs)
  then show ?case
    using byte_zero_less [of a] byte_zero_less [of b] by (auto simp: cmp_of_def then_cmp_assoc)
qed simp

lemma bytes_cmp_encoded:
  "bytes_cmp (encoded_user_key a @ r) (encoded_user_key b @ r')
     = then_cmp (bytes_cmp a b) (bytes_cmp r r')"
  by (simp add: encoded_user_key_def bytes_cmp_escape)

end
