(* ===== verification/Format_Values.thy ===== *)
theory Format_Values
  imports Storage_Define
begin

text \<open>
  The encoded values of the storage layer: \<open>DataType\<close>, \<open>InternalValue\<close> and
  \<open>ParsedInternalValue\<close> (\<^verbatim>\<open>format_base_value.rs\<close>), the hash/set/zset meta value
  (\<^verbatim>\<open>format_base_meta_value.rs\<close>), the element value (\<^verbatim>\<open>format_base_data_value.rs\<close>), the
  string value (\<^verbatim>\<open>format_strings_value.rs\<close>) and the list meta value
  (\<^verbatim>\<open>format_list_meta_value.rs\<close>), all under \<^verbatim>\<open>src/storage/src\<close>.

  A parsed value keeps the raw buffer and the decoded fields side by side, and every setter writes
  both. The invariants \<open>coherent_base\<close> and \<open>coherent_list\<close> say that the two agree. The
  interface shared by the two meta values is the locale \<open>meta_codec\<close>. \<open>Utc::now()\<close> is the
  argument \<open>now\<close>.
\<close>

section \<open>Data types\<close>

datatype data_type = TString | THash | TSet | TList | TZSet | TNone | TAll | TVectorSet

abbreviation LISTS_META_VALUE_LENGTH :: nat where "LISTS_META_VALUE_LENGTH \<equiv> 65"
abbreviation LISTS_META_VALUE_SUFFIX_LENGTH :: nat where "LISTS_META_VALUE_SUFFIX_LENGTH \<equiv> 56"

primrec data_type_u8 :: "data_type \<Rightarrow> byte" where
  "data_type_u8 TString = 0"
| "data_type_u8 THash = 1"
| "data_type_u8 TSet = 2"
| "data_type_u8 TList = 3"
| "data_type_u8 TZSet = 4"
| "data_type_u8 TNone = 5"
| "data_type_u8 TAll = 6"
| "data_type_u8 TVectorSet = 7"

definition data_type_try_from :: "byte \<Rightarrow> data_type result" where
  "data_type_try_from b =
     (if b = 0 then Inr TString else if b = 1 then Inr THash else if b = 2 then Inr TSet
      else if b = 3 then Inr TList else if b = 4 then Inr TZSet else if b = 5 then Inr TNone
      else if b = 6 then Inr TAll else if b = 7 then Inr TVectorSet
      else Inl (InvalidFormat ''Invalid data type byte''))"

primrec min_meta_raw_len :: "data_type \<Rightarrow> nat result" where
  "min_meta_raw_len TString = Inr (TYPE_LENGTH + STRING_VALUE_SUFFIXLENGTH)"
| "min_meta_raw_len THash = Inr BASE_META_VALUE_LENGTH"
| "min_meta_raw_len TSet = Inr BASE_META_VALUE_LENGTH"
| "min_meta_raw_len TZSet = Inr BASE_META_VALUE_LENGTH"
| "min_meta_raw_len TVectorSet = Inr BASE_META_VALUE_LENGTH"
| "min_meta_raw_len TList = Inr LISTS_META_VALUE_LENGTH"
| "min_meta_raw_len TNone = Inl (InvalidFormat ''data type should not be used as meta value'')"
| "min_meta_raw_len TAll = Inl (InvalidFormat ''data type should not be used as meta value'')"

primrec data_type_to_string :: "data_type \<Rightarrow> string" where
  "data_type_to_string TString = ''string''"
| "data_type_to_string THash = ''hash''"
| "data_type_to_string TSet = ''set''"
| "data_type_to_string TList = ''list''"
| "data_type_to_string TZSet = ''zset''"
| "data_type_to_string TNone = ''none''"
| "data_type_to_string TAll = ''all''"
| "data_type_to_string TVectorSet = ''vectorset''"

text \<open>\<open>DATA_TYPE_TAG\<close>: the characters \<open>k h s l z n a v\<close> as bytes.\<close>

primrec data_type_to_tag :: "data_type \<Rightarrow> byte" where
  "data_type_to_tag TString = 107"
| "data_type_to_tag THash = 104"
| "data_type_to_tag TSet = 115"
| "data_type_to_tag TList = 108"
| "data_type_to_tag TZSet = 122"
| "data_type_to_tag TNone = 110"
| "data_type_to_tag TAll = 97"
| "data_type_to_tag TVectorSet = 118"

section \<open>Internal values\<close>

record internal_value =
  iv_data_type :: data_type
  iv_user_value :: bytes
  iv_version :: u64
  iv_etime :: u64
  iv_ctime :: u64
  iv_reserve :: bytes

definition internal_value_new :: "u64 \<Rightarrow> data_type \<Rightarrow> bytes \<Rightarrow> internal_value" where
  "internal_value_new now dt user_value =
     \<lparr>iv_data_type = dt, iv_user_value = user_value, iv_version = 0, iv_etime = 0,
      iv_ctime = now, iv_reserve = replicate SUFFIX_RESERVE_LENGTH 0\<rparr>"

definition iv_set_relative_etime :: "u64 \<Rightarrow> u64 \<Rightarrow> internal_value \<Rightarrow> internal_value result" where
  "iv_set_relative_etime now ttl v =
     (case checked_add_u64 now ttl of
        None \<Rightarrow> Inl (InvalidFormat ''Timestamp overflow when calculating relative etime'')
      | Some t \<Rightarrow> Inr (v\<lparr>iv_etime := t\<rparr>))"

record parsed_internal_value =
  pv_value :: bytes
  pv_data_type :: data_type
  pv_user_value_range :: "nat \<times> nat"
  pv_reserve_range :: "nat \<times> nat"
  pv_version :: u64
  pv_ctime :: u64
  pv_etime :: u64

definition pv_user_value :: "'a parsed_internal_value_scheme \<Rightarrow> bytes result" where
  "pv_user_value p = slice (pv_value p) (fst (pv_user_value_range p)) (snd (pv_user_value_range p))"

definition pv_is_permanent_survival :: "'a parsed_internal_value_scheme \<Rightarrow> bool" where
  "pv_is_permanent_survival p \<longleftrightarrow> pv_etime p = 0"

definition pv_is_stale :: "u64 \<Rightarrow> 'a parsed_internal_value_scheme \<Rightarrow> bool" where
  "pv_is_stale now p = (if pv_etime p = 0 then False else pv_etime p < now)"

text \<open>\<open>update_version\<close>, which the meta values share.\<close>

definition next_version :: "u64 \<Rightarrow> u64 \<Rightarrow> u64" where
  "next_version now version = (if now \<le> version then version + 1 else now)"

section \<open>Hash, set, zset and vector-set meta values\<close>

definition base_meta_value_new :: "u64 \<Rightarrow> bytes \<Rightarrow> internal_value" where
  "base_meta_value_new now user_value = internal_value_new now TNone user_value"

definition base_meta_update_version :: "u64 \<Rightarrow> internal_value \<Rightarrow> internal_value" where
  "base_meta_update_version now v = v\<lparr>iv_version := next_version now (iv_version v)\<rparr>"

definition base_meta_value_encode :: "internal_value \<Rightarrow> bytes" where
  "base_meta_value_encode v =
     [data_type_u8 (iv_data_type v)] @ iv_user_value v @ u64_le (iv_version v) @ iv_reserve v
       @ u64_le (iv_ctime v) @ u64_le (iv_etime v)"

record parsed_base_meta_value = parsed_internal_value +
  meta_count :: u64

definition parsed_base_meta_value_new :: "bytes \<Rightarrow> parsed_base_meta_value result" where
  "parsed_base_meta_value_new v =
     rbind (ensure (BASE_META_VALUE_LENGTH \<le> length v) (InvalidFormat ''invalid meta value length'')) (\<lambda>_.
     rbind (get_u8 v) (\<lambda>(b, r).
     rbind (data_type_try_from b) (\<lambda>dt.
     let pos = length v - length r; count_range = (pos, pos + BASE_META_VALUE_COUNT_LENGTH) in
     rbind (get_u64_le r) (\<lambda>(count, r).
     rbind (get_u64_le r) (\<lambda>(version, r).
     let pos = length v - length r; reserve_range = (pos, pos + SUFFIX_RESERVE_LENGTH) in
     rbind (advance SUFFIX_RESERVE_LENGTH r) (\<lambda>r.
     rbind (get_u64_le r) (\<lambda>(ctime, r).
     rbind (get_u64_le r) (\<lambda>(etime, r).
     Inr \<lparr>pv_value = v, pv_data_type = dt, pv_user_value_range = count_range,
          pv_reserve_range = reserve_range, pv_version = version, pv_ctime = ctime,
          pv_etime = etime, meta_count = count\<rparr>))))))))"

definition base_meta_set_version_to_value ::
  "parsed_base_meta_value \<Rightarrow> parsed_base_meta_value result" where
  "base_meta_set_version_to_value m =
     (let suffix_start = TYPE_LENGTH + BASE_META_VALUE_COUNT_LENGTH in
      rbind (copy_range (pv_value m) suffix_start (suffix_start + VERSION_LENGTH) (u64_le (pv_version m)))
        (\<lambda>v. Inr (m\<lparr>pv_value := v\<rparr>)))"

definition base_meta_set_ctime_to_value ::
  "parsed_base_meta_value \<Rightarrow> parsed_base_meta_value result" where
  "base_meta_set_ctime_to_value m =
     (let suffix_start = usize_sub (length (pv_value m)) (2 * TIMESTAMP_LENGTH) in
      rbind (copy_range (pv_value m) suffix_start (usize_add suffix_start TIMESTAMP_LENGTH)
               (u64_le (pv_ctime m)))
        (\<lambda>v. Inr (m\<lparr>pv_value := v\<rparr>)))"

definition base_meta_set_etime_to_value ::
  "parsed_base_meta_value \<Rightarrow> parsed_base_meta_value result" where
  "base_meta_set_etime_to_value m =
     (let suffix_start = usize_sub (length (pv_value m)) TIMESTAMP_LENGTH in
      rbind (copy_range (pv_value m) suffix_start (usize_add suffix_start TIMESTAMP_LENGTH)
               (u64_le (pv_etime m)))
        (\<lambda>v. Inr (m\<lparr>pv_value := v\<rparr>)))"

definition base_meta_set_count_to_value ::
  "parsed_base_meta_value \<Rightarrow> parsed_base_meta_value result" where
  "base_meta_set_count_to_value m =
     (let suffix_start = TYPE_LENGTH in
      rbind (copy_range (pv_value m) suffix_start (suffix_start + BASE_META_VALUE_COUNT_LENGTH)
               (u64_le (meta_count m)))
        (\<lambda>v. Inr (m\<lparr>pv_value := v\<rparr>)))"

definition base_meta_is_valid :: "u64 \<Rightarrow> parsed_base_meta_value \<Rightarrow> bool" where
  "base_meta_is_valid now m \<longleftrightarrow> \<not> pv_is_stale now m \<and> meta_count m \<noteq> 0"

definition base_meta_set_count :: "u64 \<Rightarrow> parsed_base_meta_value \<Rightarrow> parsed_base_meta_value result" where
  "base_meta_set_count c m = base_meta_set_count_to_value (m\<lparr>meta_count := c\<rparr>)"

definition base_meta_set_etime :: "u64 \<Rightarrow> parsed_base_meta_value \<Rightarrow> parsed_base_meta_value result" where
  "base_meta_set_etime t m = base_meta_set_etime_to_value (m\<lparr>pv_etime := t\<rparr>)"

definition base_meta_set_ctime :: "u64 \<Rightarrow> parsed_base_meta_value \<Rightarrow> parsed_base_meta_value result" where
  "base_meta_set_ctime t m = base_meta_set_ctime_to_value (m\<lparr>pv_ctime := t\<rparr>)"

definition base_meta_check_modify_count :: "u64 \<Rightarrow> parsed_base_meta_value \<Rightarrow> bool" where
  "base_meta_check_modify_count delta m \<longleftrightarrow> checked_add_u64 (meta_count m) delta \<noteq> None"

definition base_meta_modify_count :: "u64 \<Rightarrow> parsed_base_meta_value \<Rightarrow> parsed_base_meta_value result" where
  "base_meta_modify_count delta m =
     (let c = saturating_add_u64 (meta_count m) delta in
      rbind (copy_range (pv_value m) TYPE_LENGTH (TYPE_LENGTH + BASE_META_VALUE_COUNT_LENGTH) (u64_le c))
        (\<lambda>v. Inr (m\<lparr>meta_count := c, pv_value := v\<rparr>)))"

definition base_meta_parsed_update_version ::
  "u64 \<Rightarrow> parsed_base_meta_value \<Rightarrow> (u64 \<times> parsed_base_meta_value) result" where
  "base_meta_parsed_update_version now m =
     rbind (base_meta_set_version_to_value (m\<lparr>pv_version := next_version now (pv_version m)\<rparr>))
       (\<lambda>m'. Inr (pv_version m', m'))"

definition base_meta_initial_meta_value ::
  "u64 \<Rightarrow> parsed_base_meta_value \<Rightarrow> (u64 \<times> parsed_base_meta_value) result" where
  "base_meta_initial_meta_value now m =
     rbind (base_meta_set_count 0 m) (\<lambda>m.
     rbind (base_meta_set_etime 0 m) (\<lambda>m.
     rbind (base_meta_set_ctime 0 m) (\<lambda>m.
     base_meta_parsed_update_version now m)))"

section \<open>Element values\<close>

abbreviation BASEDATAVALUESUFFIXLENGTH :: nat where "BASEDATAVALUESUFFIXLENGTH \<equiv> 24"

definition base_data_value_new :: "u64 \<Rightarrow> bytes \<Rightarrow> internal_value" where
  "base_data_value_new now user_value = internal_value_new now TNone user_value"

definition base_data_value_encode :: "internal_value \<Rightarrow> bytes" where
  "base_data_value_encode v =
     iv_user_value v @ replicate SUFFIX_RESERVE_LENGTH 0 @ u64_le (iv_ctime v)"

definition parsed_base_data_value_new :: "bytes \<Rightarrow> parsed_internal_value result" where
  "parsed_base_data_value_new v =
     rbind (ensure (BASEDATAVALUESUFFIXLENGTH \<le> length v)
              (InvalidFormat ''invalid base data value length'')) (\<lambda>_.
     let user_value_len = length v - BASEDATAVALUESUFFIXLENGTH;
         reserve_end = user_value_len + SUFFIX_RESERVE_LENGTH;
         time_reader = drop reserve_end v in
     rbind (ensure (TIMESTAMP_LENGTH \<le> length time_reader)
              (InvalidFormat ''invalid base data value length'')) (\<lambda>_.
     rbind (get_u64_le time_reader) (\<lambda>(ctime, _).
     Inr \<lparr>pv_value = v, pv_data_type = TNone, pv_user_value_range = (0, user_value_len),
          pv_reserve_range = (user_value_len, reserve_end), pv_version = 0, pv_ctime = ctime,
          pv_etime = 0\<rparr>)))"

definition base_data_set_ctime :: "u64 \<Rightarrow> parsed_internal_value \<Rightarrow> parsed_internal_value result" where
  "base_data_set_ctime t m =
     (let m = m\<lparr>pv_ctime := t\<rparr>; suffix_start = usize_sub (length (pv_value m)) TIMESTAMP_LENGTH in
      rbind (copy_range (pv_value m) suffix_start (usize_add suffix_start TIMESTAMP_LENGTH)
               (u64_le (pv_ctime m)))
        (\<lambda>v. Inr (m\<lparr>pv_value := v\<rparr>)))"

definition base_data_strip_suffix :: "parsed_internal_value \<Rightarrow> parsed_internal_value" where
  "base_data_strip_suffix m =
     (if pv_value m \<noteq> [] \<and> BASEDATAVALUESUFFIXLENGTH \<le> length (pv_value m)
      then m\<lparr>pv_value := take (length (pv_value m) - BASEDATAVALUESUFFIXLENGTH) (pv_value m)\<rparr>
      else m)"

section \<open>String values\<close>

definition string_value_new :: "u64 \<Rightarrow> bytes \<Rightarrow> internal_value" where
  "string_value_new now user_value = internal_value_new now TString user_value"

definition string_value_encode :: "internal_value \<Rightarrow> bytes" where
  "string_value_encode v =
     [data_type_u8 TString] @ iv_user_value v @ replicate SUFFIX_RESERVE_LENGTH 0
       @ u64_le (iv_ctime v) @ u64_le (iv_etime v)"

definition parsed_strings_value_new :: "bytes \<Rightarrow> parsed_internal_value result" where
  "parsed_strings_value_new v =
     rbind (ensure (STRING_VALUE_SUFFIXLENGTH \<le> length v)
              (InvalidFormat ''invalid string value length'')) (\<lambda>_.
     rbind (get_u8 v) (\<lambda>(b, _).
     rbind (data_type_try_from b) (\<lambda>dt.
     let user_value_len = usize_sub (usize_sub (length v) TYPE_LENGTH) STRING_VALUE_SUFFIXLENGTH;
         user_value_start = TYPE_LENGTH;
         user_value_end = usize_add user_value_start user_value_len;
         reserve_start = user_value_end;
         reserve_end = usize_add reserve_start SUFFIX_RESERVE_LENGTH in
     rbind (slice v reserve_end (length v)) (\<lambda>time_reader.
     rbind (ensure (2 * TIMESTAMP_LENGTH \<le> length time_reader)
              (InvalidFormat ''invalid string value length'')) (\<lambda>_.
     rbind (get_u64_le time_reader) (\<lambda>(ctime, r).
     rbind (get_u64_le r) (\<lambda>(etime, _).
     Inr \<lparr>pv_value = v, pv_data_type = dt, pv_user_value_range = (user_value_start, user_value_end),
          pv_reserve_range = (reserve_start, reserve_end), pv_version = 0, pv_ctime = ctime,
          pv_etime = etime\<rparr>)))))))"

definition strings_strip_suffix :: "parsed_internal_value \<Rightarrow> parsed_internal_value result" where
  "strings_strip_suffix m =
     rbind (advance TYPE_LENGTH (pv_value m)) (\<lambda>v.
     let len = length v in
     Inr (m\<lparr>pv_value := (if STRING_VALUE_SUFFIXLENGTH \<le> len
                          then take (len - STRING_VALUE_SUFFIXLENGTH) v else v)\<rparr>))"

definition strings_set_ctime :: "u64 \<Rightarrow> parsed_internal_value \<Rightarrow> parsed_internal_value result" where
  "strings_set_ctime t m =
     (let m = m\<lparr>pv_ctime := t\<rparr>;
          suffix_start = usize_add (usize_sub (length (pv_value m)) STRING_VALUE_SUFFIXLENGTH)
                           SUFFIX_RESERVE_LENGTH in
      rbind (copy_range (pv_value m) suffix_start (usize_add suffix_start TIMESTAMP_LENGTH)
               (u64_le (pv_ctime m)))
        (\<lambda>v. Inr (m\<lparr>pv_value := v\<rparr>)))"

definition strings_set_etime :: "u64 \<Rightarrow> parsed_internal_value \<Rightarrow> parsed_internal_value result" where
  "strings_set_etime t m =
     (let m = m\<lparr>pv_etime := t\<rparr>;
          suffix_start = usize_add (usize_add (usize_sub (length (pv_value m)) STRING_VALUE_SUFFIXLENGTH)
                           SUFFIX_RESERVE_LENGTH) TIMESTAMP_LENGTH in
      rbind (copy_range (pv_value m) suffix_start (usize_add suffix_start TIMESTAMP_LENGTH)
               (u64_le (pv_etime m)))
        (\<lambda>v. Inr (m\<lparr>pv_value := v\<rparr>)))"

section \<open>List meta values\<close>

abbreviation INITIAL_LEFT_INDEX :: u64 where "INITIAL_LEFT_INDEX \<equiv> 9223372036854775807"
abbreviation INITIAL_RIGHT_INDEX :: u64 where "INITIAL_RIGHT_INDEX \<equiv> 9223372036854775808"
abbreviation LIST_VALUE_INDEX_LENGTH :: nat where "LIST_VALUE_INDEX_LENGTH \<equiv> 8"

record lists_meta_value = internal_value +
  lm_left_index :: u64
  lm_right_index :: u64

definition lists_meta_value_new :: "u64 \<Rightarrow> bytes \<Rightarrow> lists_meta_value" where
  "lists_meta_value_new now list_size =
     internal_value.extend (internal_value_new now TList list_size)
       \<lparr>lm_left_index = INITIAL_LEFT_INDEX, lm_right_index = INITIAL_RIGHT_INDEX\<rparr>"

definition lists_meta_value_update_version :: "u64 \<Rightarrow> lists_meta_value \<Rightarrow> u64 \<times> lists_meta_value" where
  "lists_meta_value_update_version now v =
     (let v' = v\<lparr>iv_version := next_version now (iv_version v)\<rparr> in (iv_version v', v'))"

definition lists_meta_value_modify_left_index :: "u64 \<Rightarrow> lists_meta_value \<Rightarrow> lists_meta_value" where
  "lists_meta_value_modify_left_index i v = v\<lparr>lm_left_index := lm_left_index v - i\<rparr>"

definition lists_meta_value_modify_right_index :: "u64 \<Rightarrow> lists_meta_value \<Rightarrow> lists_meta_value" where
  "lists_meta_value_modify_right_index i v = v\<lparr>lm_right_index := lm_right_index v + i\<rparr>"

definition lists_meta_value_encode :: "lists_meta_value \<Rightarrow> bytes" where
  "lists_meta_value_encode v =
     [data_type_u8 (iv_data_type v)] @ iv_user_value v @ u64_le (iv_version v)
       @ u64_le (lm_left_index v) @ u64_le (lm_right_index v) @ iv_reserve v
       @ u64_le (iv_ctime v) @ u64_le (iv_etime v)"

record parsed_lists_meta_value = parsed_internal_value +
  list_count :: u64
  left_index :: u64
  right_index :: u64

definition parsed_lists_meta_value_new :: "bytes \<Rightarrow> parsed_lists_meta_value result" where
  "parsed_lists_meta_value_new v =
     rbind (ensure (LISTS_META_VALUE_LENGTH \<le> length v)
              (InvalidFormat ''invalid lists meta value length'')) (\<lambda>_.
     rbind (get_u8 v) (\<lambda>(b, r).
     rbind (data_type_try_from b) (\<lambda>dt.
     let pos = length v - length r; count_range = (pos, pos + BASE_META_VALUE_COUNT_LENGTH) in
     rbind (get_u64_le r) (\<lambda>(count, r).
     rbind (get_u64_le r) (\<lambda>(version, r).
     rbind (get_u64_le r) (\<lambda>(left, r).
     rbind (get_u64_le r) (\<lambda>(right, r).
     let pos = length v - length r; reserve_range = (pos, pos + SUFFIX_RESERVE_LENGTH) in
     rbind (advance SUFFIX_RESERVE_LENGTH r) (\<lambda>r.
     rbind (get_u64_le r) (\<lambda>(ctime, r).
     rbind (get_u64_le r) (\<lambda>(etime, r).
     Inr \<lparr>pv_value = v, pv_data_type = dt, pv_user_value_range = count_range,
          pv_reserve_range = reserve_range, pv_version = version, pv_ctime = ctime,
          pv_etime = etime, list_count = count, left_index = left, right_index = right\<rparr>))))))))))"

definition list_set_data_type_to_value ::
  "data_type \<Rightarrow> parsed_lists_meta_value \<Rightarrow> parsed_lists_meta_value" where
  "list_set_data_type_to_value dt m =
     (if pv_value m \<noteq> [] then m\<lparr>pv_value := (pv_value m)[0 := data_type_u8 dt], pv_data_type := dt\<rparr>
      else m)"

definition list_set_version_to_value ::
  "parsed_lists_meta_value \<Rightarrow> parsed_lists_meta_value result" where
  "list_set_version_to_value m =
     (let suffix_start = TYPE_LENGTH + BASE_META_VALUE_COUNT_LENGTH in
      rbind (copy_range (pv_value m) suffix_start (suffix_start + VERSION_LENGTH) (u64_le (pv_version m)))
        (\<lambda>v. Inr (m\<lparr>pv_value := v\<rparr>)))"

definition list_set_ctime_to_value ::
  "parsed_lists_meta_value \<Rightarrow> parsed_lists_meta_value result" where
  "list_set_ctime_to_value m =
     (let suffix_start = usize_sub (length (pv_value m)) (2 * TIMESTAMP_LENGTH) in
      rbind (copy_range (pv_value m) suffix_start (usize_add suffix_start TIMESTAMP_LENGTH)
               (u64_le (pv_ctime m)))
        (\<lambda>v. Inr (m\<lparr>pv_value := v\<rparr>)))"

definition list_set_etime_to_value ::
  "parsed_lists_meta_value \<Rightarrow> parsed_lists_meta_value result" where
  "list_set_etime_to_value m =
     (let suffix_start = usize_sub (length (pv_value m)) TIMESTAMP_LENGTH in
      rbind (copy_range (pv_value m) suffix_start (usize_add suffix_start TIMESTAMP_LENGTH)
               (u64_le (pv_etime m)))
        (\<lambda>v. Inr (m\<lparr>pv_value := v\<rparr>)))"

definition list_set_count_to_value ::
  "parsed_lists_meta_value \<Rightarrow> parsed_lists_meta_value result" where
  "list_set_count_to_value m =
     (let suffix_start = TYPE_LENGTH in
      rbind (copy_range (pv_value m) suffix_start (suffix_start + BASE_META_VALUE_COUNT_LENGTH)
               (u64_le (list_count m)))
        (\<lambda>v. Inr (m\<lparr>pv_value := v\<rparr>)))"

definition list_set_index_to_value ::
  "parsed_lists_meta_value \<Rightarrow> parsed_lists_meta_value result" where
  "list_set_index_to_value m =
     (let suffix_start = TYPE_LENGTH + BASE_META_VALUE_COUNT_LENGTH + VERSION_LENGTH in
      rbind (copy_range (pv_value m) suffix_start (suffix_start + LIST_VALUE_INDEX_LENGTH)
               (u64_le (left_index m))) (\<lambda>v.
      rbind (copy_range v (suffix_start + LIST_VALUE_INDEX_LENGTH)
               (suffix_start + 2 * LIST_VALUE_INDEX_LENGTH) (u64_le (right_index m))) (\<lambda>v.
      Inr (m\<lparr>pv_value := v\<rparr>))))"

definition list_is_valid :: "u64 \<Rightarrow> parsed_lists_meta_value \<Rightarrow> bool" where
  "list_is_valid now m \<longleftrightarrow> \<not> pv_is_stale now m \<and> list_count m \<noteq> 0"

definition list_set_count :: "u64 \<Rightarrow> parsed_lists_meta_value \<Rightarrow> parsed_lists_meta_value result" where
  "list_set_count c m = list_set_count_to_value (m\<lparr>list_count := c\<rparr>)"

definition list_modify_count :: "u64 \<Rightarrow> parsed_lists_meta_value \<Rightarrow> parsed_lists_meta_value result" where
  "list_modify_count delta m = list_set_count_to_value (m\<lparr>list_count := list_count m + delta\<rparr>)"

definition list_set_etime :: "u64 \<Rightarrow> parsed_lists_meta_value \<Rightarrow> parsed_lists_meta_value result" where
  "list_set_etime t m = list_set_etime_to_value (m\<lparr>pv_etime := t\<rparr>)"

definition list_set_ctime :: "u64 \<Rightarrow> parsed_lists_meta_value \<Rightarrow> parsed_lists_meta_value result" where
  "list_set_ctime t m = list_set_ctime_to_value (m\<lparr>pv_ctime := t\<rparr>)"

definition list_update_version ::
  "u64 \<Rightarrow> parsed_lists_meta_value \<Rightarrow> (u64 \<times> parsed_lists_meta_value) result" where
  "list_update_version now m =
     rbind (list_set_version_to_value (m\<lparr>pv_version := next_version now (pv_version m)\<rparr>))
       (\<lambda>m'. Inr (pv_version m', m'))"

definition list_set_left_index :: "u64 \<Rightarrow> parsed_lists_meta_value \<Rightarrow> parsed_lists_meta_value result" where
  "list_set_left_index i m = list_set_index_to_value (m\<lparr>left_index := i\<rparr>)"

definition list_modify_left_index :: "u64 \<Rightarrow> parsed_lists_meta_value \<Rightarrow> parsed_lists_meta_value result" where
  "list_modify_left_index i m = list_set_index_to_value (m\<lparr>left_index := left_index m - i\<rparr>)"

definition list_set_right_index :: "u64 \<Rightarrow> parsed_lists_meta_value \<Rightarrow> parsed_lists_meta_value result" where
  "list_set_right_index i m = list_set_index_to_value (m\<lparr>right_index := i\<rparr>)"

definition list_modify_right_index :: "u64 \<Rightarrow> parsed_lists_meta_value \<Rightarrow> parsed_lists_meta_value result" where
  "list_modify_right_index i m = list_set_index_to_value (m\<lparr>right_index := right_index m + i\<rparr>)"

definition list_initial_meta_value ::
  "u64 \<Rightarrow> parsed_lists_meta_value \<Rightarrow> (u64 \<times> parsed_lists_meta_value) result" where
  "list_initial_meta_value now m =
     rbind (list_set_count 0 m) (\<lambda>m.
     rbind (list_set_left_index INITIAL_LEFT_INDEX m) (\<lambda>m.
     rbind (list_set_right_index INITIAL_RIGHT_INDEX m) (\<lambda>m.
     rbind (list_set_etime 0 m) (\<lambda>m.
     rbind (list_set_ctime 0 m) (\<lambda>m.
     list_update_version now (list_set_data_type_to_value TList m))))))"

definition list_strip_suffix :: "parsed_lists_meta_value \<Rightarrow> parsed_lists_meta_value" where
  "list_strip_suffix m =
     (if pv_value m \<noteq> [] \<and> LISTS_META_VALUE_SUFFIX_LENGTH \<le> length (pv_value m)
      then m\<lparr>pv_value := take (length (pv_value m) - LISTS_META_VALUE_SUFFIX_LENGTH) (pv_value m)\<rparr>
      else m)"

section \<open>Coherent meta values\<close>

text \<open>The canonical buffers, and the parsed value whose fields agree with its buffer.\<close>

definition base_meta_bytes ::
  "data_type \<Rightarrow> u64 \<Rightarrow> u64 \<Rightarrow> bytes \<Rightarrow> u64 \<Rightarrow> u64 \<Rightarrow> bytes" where
  "base_meta_bytes dt count version reserve ctime etime =
     [data_type_u8 dt] @ u64_le count @ u64_le version @ reserve @ u64_le ctime @ u64_le etime"

definition mk_base_meta ::
  "data_type \<Rightarrow> u64 \<Rightarrow> u64 \<Rightarrow> bytes \<Rightarrow> u64 \<Rightarrow> u64 \<Rightarrow> parsed_base_meta_value" where
  "mk_base_meta dt count version reserve ctime etime =
     \<lparr>pv_value = base_meta_bytes dt count version reserve ctime etime, pv_data_type = dt,
      pv_user_value_range = (1, 9), pv_reserve_range = (17, 33), pv_version = version,
      pv_ctime = ctime, pv_etime = etime, meta_count = count\<rparr>"

definition coherent_base :: "parsed_base_meta_value \<Rightarrow> bool" where
  "coherent_base m \<longleftrightarrow> (\<exists>dt count version reserve ctime etime.
     length reserve = SUFFIX_RESERVE_LENGTH \<and> m = mk_base_meta dt count version reserve ctime etime)"

definition list_meta_bytes ::
  "data_type \<Rightarrow> u64 \<Rightarrow> u64 \<Rightarrow> u64 \<Rightarrow> u64 \<Rightarrow> bytes \<Rightarrow> u64 \<Rightarrow> u64 \<Rightarrow> bytes" where
  "list_meta_bytes dt count version left right reserve ctime etime =
     [data_type_u8 dt] @ u64_le count @ u64_le version @ u64_le left @ u64_le right @ reserve
       @ u64_le ctime @ u64_le etime"

definition mk_list_meta ::
  "data_type \<Rightarrow> u64 \<Rightarrow> u64 \<Rightarrow> u64 \<Rightarrow> u64 \<Rightarrow> bytes \<Rightarrow> u64 \<Rightarrow> u64 \<Rightarrow> parsed_lists_meta_value" where
  "mk_list_meta dt count version left right reserve ctime etime =
     \<lparr>pv_value = list_meta_bytes dt count version left right reserve ctime etime, pv_data_type = dt,
      pv_user_value_range = (1, 9), pv_reserve_range = (33, 49), pv_version = version,
      pv_ctime = ctime, pv_etime = etime, list_count = count, left_index = left,
      right_index = right\<rparr>"

definition coherent_list :: "parsed_lists_meta_value \<Rightarrow> bool" where
  "coherent_list m \<longleftrightarrow> (\<exists>dt count version left right reserve ctime etime.
     length reserve = SUFFIX_RESERVE_LENGTH
     \<and> m = mk_list_meta dt count version left right reserve ctime etime)"

text \<open>The calls a client makes on a meta value it has parsed: every public operation that changes
  one, \<open>strip_suffix\<close> apart, which cuts the buffer below the length of a meta value.\<close>

datatype meta_call = SetCount u64 | ModifyCount u64 | SetEtime u64 | SetCtime u64 | UpdateVersion u64
  | InitialMetaValue u64

datatype list_call = Meta meta_call | SetLeftIndex u64 | ModifyLeftIndex u64 | SetRightIndex u64
  | ModifyRightIndex u64

fun base_meta_call :: "meta_call \<Rightarrow> parsed_base_meta_value \<Rightarrow> parsed_base_meta_value result" where
  "base_meta_call (SetCount c) m = base_meta_set_count c m"
| "base_meta_call (ModifyCount d) m = base_meta_modify_count d m"
| "base_meta_call (SetEtime t) m = base_meta_set_etime t m"
| "base_meta_call (SetCtime t) m = base_meta_set_ctime t m"
| "base_meta_call (UpdateVersion now) m =
     rbind (base_meta_parsed_update_version now m) (\<lambda>(_, m'). Inr m')"
| "base_meta_call (InitialMetaValue now) m =
     rbind (base_meta_initial_meta_value now m) (\<lambda>(_, m'). Inr m')"

fun list_meta_call :: "list_call \<Rightarrow> parsed_lists_meta_value \<Rightarrow> parsed_lists_meta_value result" where
  "list_meta_call (Meta (SetCount c)) m = list_set_count c m"
| "list_meta_call (Meta (ModifyCount d)) m = list_modify_count d m"
| "list_meta_call (Meta (SetEtime t)) m = list_set_etime t m"
| "list_meta_call (Meta (SetCtime t)) m = list_set_ctime t m"
| "list_meta_call (Meta (UpdateVersion now)) m =
     rbind (list_update_version now m) (\<lambda>(_, m'). Inr m')"
| "list_meta_call (Meta (InitialMetaValue now)) m =
     rbind (list_initial_meta_value now m) (\<lambda>(_, m'). Inr m')"
| "list_meta_call (SetLeftIndex i) m = list_set_left_index i m"
| "list_meta_call (ModifyLeftIndex i) m = list_modify_left_index i m"
| "list_meta_call (SetRightIndex i) m = list_set_right_index i m"
| "list_meta_call (ModifyRightIndex i) m = list_modify_right_index i m"

text \<open>What each call means for the fields (count, version, creation time, expiry) and, for a list,
  its two index ends. The count of a hash, set or zset saturates and that of a list wraps.\<close>

type_synonym meta_fields = "u64 \<times> u64 \<times> u64 \<times> u64"

fun meta_effect :: "(u64 \<Rightarrow> u64 \<Rightarrow> u64) \<Rightarrow> meta_call \<Rightarrow> meta_fields \<Rightarrow> meta_fields" where
  "meta_effect add (SetCount n) (c, v, ct, et) = (n, v, ct, et)"
| "meta_effect add (ModifyCount d) (c, v, ct, et) = (add c d, v, ct, et)"
| "meta_effect add (SetEtime t) (c, v, ct, et) = (c, v, ct, t)"
| "meta_effect add (SetCtime t) (c, v, ct, et) = (c, v, t, et)"
| "meta_effect add (UpdateVersion now) (c, v, ct, et) = (c, if v < now then now else v + 1, ct, et)"
| "meta_effect add (InitialMetaValue now) (c, v, ct, et) = (0, if v < now then now else v + 1, 0, 0)"

fun list_effect :: "list_call \<Rightarrow> meta_fields \<times> u64 \<times> u64 \<Rightarrow> meta_fields \<times> u64 \<times> u64" where
  "list_effect (Meta (InitialMetaValue now)) (f, l, r) =
     (meta_effect (+) (InitialMetaValue now) f, INITIAL_LEFT_INDEX, INITIAL_RIGHT_INDEX)"
| "list_effect (Meta c) (f, l, r) = (meta_effect (+) c f, l, r)"
| "list_effect (SetLeftIndex i) (f, l, r) = (f, i, r)"
| "list_effect (ModifyLeftIndex i) (f, l, r) = (f, l - i, r)"
| "list_effect (SetRightIndex i) (f, l, r) = (f, l, i)"
| "list_effect (ModifyRightIndex i) (f, l, r) = (f, l, r + i)"

definition base_fields :: "parsed_base_meta_value \<Rightarrow> meta_fields" where
  "base_fields m = (meta_count m, pv_version m, pv_ctime m, pv_etime m)"

definition list_fields :: "parsed_lists_meta_value \<Rightarrow> meta_fields \<times> u64 \<times> u64" where
  "list_fields m =
     ((list_count m, pv_version m, pv_ctime m, pv_etime m), left_index m, right_index m)"

fun run_calls :: "('c \<Rightarrow> 'm \<Rightarrow> 'm result) \<Rightarrow> 'c list \<Rightarrow> 'm \<Rightarrow> 'm result" where
  "run_calls call [] m = Inr m"
| "run_calls call (c # cs) m = rbind (call c m) (run_calls call cs)"

section \<open>Lemmas on data types and versions\<close>

lemma data_type_try_from_u8 [simp]: "data_type_try_from (data_type_u8 dt) = Inr dt"
  by (cases dt) (simp_all add: data_type_try_from_def)

lemma data_type_try_from_Inr: "data_type_try_from b = Inr dt \<longleftrightarrow> b = data_type_u8 dt"
  by (cases dt) (auto simp: data_type_try_from_def split: if_splits)

lemma data_type_u8_inject [simp]: "data_type_u8 a = data_type_u8 b \<longleftrightarrow> a = b"
  by (metis data_type_try_from_u8 sum.inject(2))

lemma next_version_neq: "next_version now v \<noteq> v"
  by (auto simp: next_version_def)

lemma next_version_grows: "v \<noteq> - 1 \<Longrightarrow> v < next_version now v"
proof -
  assume "v \<noteq> - 1"
  then have "unat v \<noteq> unat (- 1 :: u64)" by (simp add: word_unat_eq_iff)
  moreover have "unat (- 1 :: u64) = 2 ^ 64 - 1"
    by (simp add: unsigned_minus_1_eq_mask mask_eq_exp_minus_1)
  ultimately have "unat v + 1 < 2 ^ 64"
    using unsigned_less [where 'a = nat, of v] by simp
  then have "v < v + 1"
    by (simp add: word_less_nat_alt unat_word_ariths)
  then show ?thesis by (auto simp: next_version_def)
qed

section \<open>Lemmas on buffers\<close>

lemma u64_le_split: "8 \<le> length xs \<Longrightarrow> \<exists>w r. xs = u64_le w @ r \<and> length r = length xs - 8"
  by (metis append_take_drop_id length_drop length_take min.absorb2 u64_le_u64_of_le)

lemma length_base_meta_bytes [simp]:
  "length reserve = 16 \<Longrightarrow> length (base_meta_bytes dt c v reserve ct et) = 49"
  by (simp add: base_meta_bytes_def)

lemma length_list_meta_bytes [simp]:
  "length reserve = 16 \<Longrightarrow> length (list_meta_bytes dt c v l r reserve ct et) = 65"
  by (simp add: list_meta_bytes_def)

lemma mk_base_meta_sel [simp]:
  "pv_value (mk_base_meta dt c v res ct et) = base_meta_bytes dt c v res ct et"
  "pv_data_type (mk_base_meta dt c v res ct et) = dt"
  "pv_version (mk_base_meta dt c v res ct et) = v"
  "pv_ctime (mk_base_meta dt c v res ct et) = ct"
  "pv_etime (mk_base_meta dt c v res ct et) = et"
  "meta_count (mk_base_meta dt c v res ct et) = c"
  by (simp_all add: mk_base_meta_def)

lemma mk_list_meta_sel [simp]:
  "pv_value (mk_list_meta dt c v l r res ct et) = list_meta_bytes dt c v l r res ct et"
  "pv_data_type (mk_list_meta dt c v l r res ct et) = dt"
  "pv_version (mk_list_meta dt c v l r res ct et) = v"
  "pv_ctime (mk_list_meta dt c v l r res ct et) = ct"
  "pv_etime (mk_list_meta dt c v l r res ct et) = et"
  "list_count (mk_list_meta dt c v l r res ct et) = c"
  "left_index (mk_list_meta dt c v l r res ct et) = l"
  "right_index (mk_list_meta dt c v l r res ct et) = r"
  by (simp_all add: mk_list_meta_def)

lemma coherent_base_mk [simp, intro]:
  "length res = 16 \<Longrightarrow> coherent_base (mk_base_meta dt c v res ct et)"
  unfolding coherent_base_def by blast

lemma coherent_list_mk [simp, intro]:
  "length res = 16 \<Longrightarrow> coherent_list (mk_list_meta dt c v l r res ct et)"
  unfolding coherent_list_def by blast

lemma coherent_baseE:
  assumes "coherent_base m"
  obtains dt c v res ct et where "length res = 16" and "m = mk_base_meta dt c v res ct et"
  using assms unfolding coherent_base_def by blast

lemma coherent_listE:
  assumes "coherent_list m"
  obtains dt c v l r res ct et where "length res = 16" and "m = mk_list_meta dt c v l r res ct et"
  using assms unfolding coherent_list_def by blast

text \<open>A buffer of the right length and type byte is canonical.\<close>

lemma list_meta_bytes_split:
  assumes "length v = 65"
  shows "\<exists>b count version left right reserve ctime etime. length reserve = 16 \<and>
    v = [b] @ u64_le count @ u64_le version @ u64_le left @ u64_le right @ reserve
      @ u64_le ctime @ u64_le etime"
proof -
  obtain b v1 where 1: "v = b # v1" "length v1 = 64" using assms by (cases v) auto
  then obtain c v2 where 2: "v1 = u64_le c @ v2" "length v2 = 56" using u64_le_split [of v1] by auto
  then obtain ver v3 where 3: "v2 = u64_le ver @ v3" "length v3 = 48" using u64_le_split [of v2] by auto
  then obtain l v4 where 4: "v3 = u64_le l @ v4" "length v4 = 40" using u64_le_split [of v3] by auto
  then obtain r v5 where 5: "v4 = u64_le r @ v5" "length v5 = 32" using u64_le_split [of v4] by auto
  then obtain res v6 where 6: "v5 = res @ v6" "length res = 16" "length v6 = 16"
    using take_drop_split [of 16 v5] by auto
  then obtain ct v7 where 7: "v6 = u64_le ct @ v7" "length v7 = 8" using u64_le_split [of v6] by auto
  then obtain et where 8: "v7 = u64_le et" using u64_le_split [of v7] by auto
  from 1 2 3 4 5 6 7 8 show ?thesis by auto
qed

lemma base_meta_bytes_split:
  assumes "length v = 49"
  shows "\<exists>b count version reserve ctime etime. length reserve = 16 \<and>
    v = [b] @ u64_le count @ u64_le version @ reserve @ u64_le ctime @ u64_le etime"
proof -
  obtain b v1 where 1: "v = b # v1" "length v1 = 48" using assms by (cases v) auto
  then obtain c v2 where 2: "v1 = u64_le c @ v2" "length v2 = 40" using u64_le_split [of v1] by auto
  then obtain ver v3 where 3: "v2 = u64_le ver @ v3" "length v3 = 32" using u64_le_split [of v2] by auto
  then obtain res v6 where 6: "v3 = res @ v6" "length res = 16" "length v6 = 16"
    using take_drop_split [of 16 v3] by auto
  then obtain ct v7 where 7: "v6 = u64_le ct @ v7" "length v7 = 8" using u64_le_split [of v6] by auto
  then obtain et where 8: "v7 = u64_le et" using u64_le_split [of v7] by auto
  from 1 2 3 6 7 8 show ?thesis by auto
qed

section \<open>Parsing canonical buffers\<close>

lemma parsed_lists_meta_value_new_bytes [simp]:
  "length res = 16 \<Longrightarrow>
     parsed_lists_meta_value_new (list_meta_bytes dt c v l r res ct et)
       = Inr (mk_list_meta dt c v l r res ct et)"
  by (simp add: parsed_lists_meta_value_new_def list_meta_bytes_def mk_list_meta_def Let_def)

lemma parsed_lists_meta_value_new_longer:
  assumes "length res = 16"
  shows "\<exists>m. parsed_lists_meta_value_new (list_meta_bytes dt c v l r res ct et @ tail) = Inr m
    \<and> pv_value m = list_meta_bytes dt c v l r res ct et @ tail \<and> pv_etime m = et"
  using assms by (simp add: parsed_lists_meta_value_new_def list_meta_bytes_def Let_def)

lemma parsed_base_meta_value_new_bytes [simp]:
  "length res = 16 \<Longrightarrow>
     parsed_base_meta_value_new (base_meta_bytes dt c v res ct et)
       = Inr (mk_base_meta dt c v res ct et)"
  by (simp add: parsed_base_meta_value_new_def base_meta_bytes_def mk_base_meta_def Let_def)

lemma parsed_lists_meta_value_coherent:
  assumes "parsed_lists_meta_value_new v = Inr m" and "length v = 65"
  shows "coherent_list m \<and> pv_value m = v"
proof -
  obtain b c ver l r res ct et where res: "length res = 16" and
    v: "v = [b] @ u64_le c @ u64_le ver @ u64_le l @ u64_le r @ res @ u64_le ct @ u64_le et"
    using list_meta_bytes_split [OF assms(2)] by auto
  obtain dt where "data_type_try_from b = Inr dt"
    using assms(1) v res by (cases "data_type_try_from b") (simp_all add: parsed_lists_meta_value_new_def)
  then have "v = list_meta_bytes dt c ver l r res ct et"
    using v by (simp add: list_meta_bytes_def data_type_try_from_Inr)
  with assms(1) res show ?thesis by auto
qed

lemma parsed_base_meta_value_coherent:
  assumes "parsed_base_meta_value_new v = Inr m" and "length v = 49"
  shows "coherent_base m \<and> pv_value m = v"
proof -
  obtain b c ver res ct et where res: "length res = 16" and
    v: "v = [b] @ u64_le c @ u64_le ver @ res @ u64_le ct @ u64_le et"
    using base_meta_bytes_split [OF assms(2)] by auto
  obtain dt where "data_type_try_from b = Inr dt"
    using assms(1) v res by (cases "data_type_try_from b") (simp_all add: parsed_base_meta_value_new_def)
  then have "v = base_meta_bytes dt c ver res ct et"
    using v by (simp add: base_meta_bytes_def data_type_try_from_Inr)
  with assms(1) res show ?thesis by auto
qed

section \<open>Setters on coherent values\<close>

lemmas base_meta_setter_defs =
  base_meta_set_count_def base_meta_set_etime_def base_meta_set_ctime_def
  base_meta_set_count_to_value_def base_meta_set_etime_to_value_def
  base_meta_set_ctime_to_value_def base_meta_set_version_to_value_def
  base_meta_parsed_update_version_def

lemmas list_meta_setter_defs =
  list_set_count_def list_set_etime_def list_set_ctime_def list_set_count_to_value_def
  list_set_etime_to_value_def list_set_ctime_to_value_def list_set_version_to_value_def
  list_update_version_def list_modify_count_def list_set_left_index_def list_set_right_index_def
  list_modify_left_index_def list_modify_right_index_def list_set_index_to_value_def

lemma base_meta_setters [simp]:
  assumes "length res = 16"
  shows
    "base_meta_set_count c' (mk_base_meta dt c v res ct et) = Inr (mk_base_meta dt c' v res ct et)"
    "base_meta_set_etime t (mk_base_meta dt c v res ct et) = Inr (mk_base_meta dt c v res ct t)"
    "base_meta_set_ctime t (mk_base_meta dt c v res ct et) = Inr (mk_base_meta dt c v res t et)"
    "base_meta_parsed_update_version now (mk_base_meta dt c v res ct et)
       = Inr (next_version now v, mk_base_meta dt c (next_version now v) res ct et)"
    "base_meta_modify_count d (mk_base_meta dt c v res ct et)
       = Inr (mk_base_meta dt (saturating_add_u64 c d) v res ct et)"
  using assms
  by (simp_all add: base_meta_setter_defs base_meta_modify_count_def mk_base_meta_def
      base_meta_bytes_def copy_range_def usize_add_small Let_def)

lemma list_meta_setters [simp]:
  assumes "length res = 16"
  shows
    "list_set_count c' (mk_list_meta dt c v l r res ct et) = Inr (mk_list_meta dt c' v l r res ct et)"
    "list_modify_count d (mk_list_meta dt c v l r res ct et)
       = Inr (mk_list_meta dt (c + d) v l r res ct et)"
    "list_set_etime t (mk_list_meta dt c v l r res ct et) = Inr (mk_list_meta dt c v l r res ct t)"
    "list_set_ctime t (mk_list_meta dt c v l r res ct et) = Inr (mk_list_meta dt c v l r res t et)"
    "list_update_version now (mk_list_meta dt c v l r res ct et)
       = Inr (next_version now v, mk_list_meta dt c (next_version now v) l r res ct et)"
    "list_set_left_index i (mk_list_meta dt c v l r res ct et) = Inr (mk_list_meta dt c v i r res ct et)"
    "list_modify_left_index i (mk_list_meta dt c v l r res ct et)
       = Inr (mk_list_meta dt c v (l - i) r res ct et)"
    "list_set_right_index i (mk_list_meta dt c v l r res ct et)
       = Inr (mk_list_meta dt c v l i res ct et)"
    "list_modify_right_index i (mk_list_meta dt c v l r res ct et)
       = Inr (mk_list_meta dt c v l (r + i) res ct et)"
  using assms
  by (simp_all add: list_meta_setter_defs mk_list_meta_def list_meta_bytes_def copy_range_def
      usize_add_small Let_def)

lemma list_set_data_type_mk [simp]:
  "list_set_data_type_to_value dt' (mk_list_meta dt c v l r res ct et)
     = mk_list_meta dt' c v l r res ct et"
  by (simp add: list_set_data_type_to_value_def mk_list_meta_def list_meta_bytes_def)

lemma list_initial_meta_value_mk [simp]:
  "length res = 16 \<Longrightarrow>
     list_initial_meta_value now (mk_list_meta dt c v l r res ct et)
       = Inr (next_version now v, mk_list_meta TList 0 (next_version now v)
                INITIAL_LEFT_INDEX INITIAL_RIGHT_INDEX res 0 0)"
  by (simp add: list_initial_meta_value_def)

lemma base_meta_initial_meta_value_mk [simp]:
  "length res = 16 \<Longrightarrow>
     base_meta_initial_meta_value now (mk_base_meta dt c v res ct et)
       = Inr (next_version now v, mk_base_meta dt 0 (next_version now v) res 0 0)"
  by (simp add: base_meta_initial_meta_value_def)

section \<open>The interface of a meta value\<close>

locale meta_codec =
  fixes width :: nat
    and parse :: "bytes \<Rightarrow> 'm result"
    and raw :: "'m \<Rightarrow> bytes"
    and coherent :: "'m \<Rightarrow> bool"
    and fields :: "'m \<Rightarrow> 'f"
    and call :: "'c \<Rightarrow> 'm \<Rightarrow> 'm result"
    and effect :: "'c \<Rightarrow> 'f \<Rightarrow> 'f"
  assumes parse_coherent: "parse v = Inr m \<Longrightarrow> length v = width \<Longrightarrow> coherent m \<and> raw m = v"
    and coherent_parse: "coherent m \<Longrightarrow> parse (raw m) = Inr m \<and> length (raw m) = width"
    and call_coherent: "coherent m \<Longrightarrow>
      \<exists>m'. call c m = Inr m' \<and> coherent m' \<and> fields m' = effect c (fields m)"
begin

lemma run_calls_coherent:
  "coherent m \<Longrightarrow>
     \<exists>m'. run_calls call cs m = Inr m' \<and> coherent m' \<and> fields m' = fold effect cs (fields m)"
proof (induction cs arbitrary: m)
  case Nil
  then show ?case by simp
next
  case (Cons c cs)
  then obtain m1 where m1: "call c m = Inr m1" "coherent m1" "fields m1 = effect c (fields m)"
    using call_coherent by blast
  from Cons.IH [OF m1(2)] show ?case using m1 by simp
qed

lemma run_calls_reparse:
  assumes "parse v = Inr m" and "length v = width"
  shows "\<exists>m'. run_calls call cs m = Inr m' \<and> parse (raw m') = Inr m' \<and> length (raw m') = width
    \<and> fields m' = fold effect cs (fields m)"
proof -
  obtain m' where "run_calls call cs m = Inr m'" "coherent m'"
      "fields m' = fold effect cs (fields m)"
    using assms parse_coherent run_calls_coherent by blast
  with coherent_parse show ?thesis by blast
qed

end

interpretation base_meta_codec:
  meta_codec 49 parsed_base_meta_value_new pv_value coherent_base base_fields base_meta_call
    "meta_effect saturating_add_u64"
proof unfold_locales
  show "coherent_base m \<and> pv_value m = v"
    if "parsed_base_meta_value_new v = Inr m" "length v = 49" for v m
    using parsed_base_meta_value_coherent [OF that] .
  show "parsed_base_meta_value_new (pv_value m) = Inr m \<and> length (pv_value m) = 49"
    if "coherent_base m" for m
    using that by (auto elim!: coherent_baseE)
  show "\<exists>m'. base_meta_call c m = Inr m' \<and> coherent_base m'
      \<and> base_fields m' = meta_effect saturating_add_u64 c (base_fields m)"
    if "coherent_base m" for c m
    using that by (cases c) (auto simp: base_fields_def next_version_def elim!: coherent_baseE)
qed

interpretation list_meta_codec:
  meta_codec 65 parsed_lists_meta_value_new pv_value coherent_list list_fields list_meta_call
    list_effect
proof unfold_locales
  show "coherent_list m \<and> pv_value m = v"
    if "parsed_lists_meta_value_new v = Inr m" "length v = 65" for v m
    using parsed_lists_meta_value_coherent [OF that] .
  show "parsed_lists_meta_value_new (pv_value m) = Inr m \<and> length (pv_value m) = 65"
    if "coherent_list m" for m
    using that by (auto elim!: coherent_listE)
  show "\<exists>m'. list_meta_call c m = Inr m' \<and> coherent_list m'
      \<and> list_fields m' = list_effect c (list_fields m)"
    if "coherent_list m" for c m
    using that by (cases "(c, list_fields m)" rule: list_effect.cases)
      (auto simp: list_fields_def next_version_def elim!: coherent_listE)
qed

section \<open>Element and string values\<close>

lemma parsed_base_data_value_encode:
  "parsed_base_data_value_new (x @ replicate 16 0 @ u64_le ct)
     = Inr \<lparr>pv_value = x @ replicate 16 0 @ u64_le ct, pv_data_type = TNone,
            pv_user_value_range = (0, length x), pv_reserve_range = (length x, length x + 16),
            pv_version = 0, pv_ctime = ct, pv_etime = 0\<rparr>"
  by (simp add: parsed_base_data_value_new_def Let_def)

text \<open>The bytes of an element value, and reading the element back.\<close>

definition element_bytes :: "u64 \<Rightarrow> bytes \<Rightarrow> bytes" where
  "element_bytes ctime x = base_data_value_encode (base_data_value_new ctime x)"

lemma element_bytes_eq: "element_bytes ct x = x @ replicate 16 0 @ u64_le ct"
  by (simp add: element_bytes_def base_data_value_encode_def base_data_value_new_def
      internal_value_new_def)

lemma element_roundtrip [simp]:
  "rbind (parsed_base_data_value_new (element_bytes ct x)) pv_user_value = Inr x"
  by (simp add: element_bytes_eq parsed_base_data_value_encode pv_user_value_def slice_def)

lemma parsed_base_data_value_element:
  "\<exists>p. parsed_base_data_value_new (element_bytes ct x) = Inr p \<and> pv_user_value p = Inr x"
  by (simp add: element_bytes_eq parsed_base_data_value_encode pv_user_value_def slice_def)

lemma parsed_strings_value_encode:
  assumes "length x + 33 < 2 ^ 64"
  shows "parsed_strings_value_new ([data_type_u8 dt] @ x @ replicate 16 0 @ u64_le ct @ u64_le et)
     = Inr \<lparr>pv_value = [data_type_u8 dt] @ x @ replicate 16 0 @ u64_le ct @ u64_le et,
            pv_data_type = dt, pv_user_value_range = (1, 1 + length x),
            pv_reserve_range = (1 + length x, 17 + length x), pv_version = 0, pv_ctime = ct,
            pv_etime = et\<rparr>"
proof -
  have "drop (17 + length x) (b # x @ replicate 16 0 @ r) = r" for b and r :: bytes
    by (simp add: drop_Cons')
  then show ?thesis
    using assms by (simp add: parsed_strings_value_new_def Let_def usize_add_small slice_def)
qed

section \<open>Properties\<close>

text \<open>C9: after parsing a stored meta value of exactly the length its encoder produces (49 bytes for
  a hash, set or zset, 65 for a list; the parsers also accept longer buffers, which are not covered),
  any sequence of calls that change it (\<open>set_count\<close>, \<open>modify_count\<close>, \<open>set_etime\<close>, \<open>set_ctime\<close>,
  \<open>update_version\<close>, \<open>initial_meta_value\<close>, and for a list the four index setters) succeeds, leaves
  a buffer of the same length that parses back to exactly the in-memory value, and changes the
  fields as the calls say: the count saturates for a collection and wraps for a list, a new version
  is the clock or one more than the old one, and \<open>initial_meta_value\<close> resets every field.\<close>

theorem meta_setters_keep_buffer_in_sync:
  assumes "parsed_base_meta_value_new v = Inr m" and "length v = 49"
    and "parsed_lists_meta_value_new w = Inr l" and "length w = 65"
  shows "(\<exists>m'. run_calls base_meta_call cs m = Inr m' \<and> parsed_base_meta_value_new (pv_value m') = Inr m'
        \<and> length (pv_value m') = 49
        \<and> base_fields m' = fold (meta_effect saturating_add_u64) cs (base_fields m))
    \<and> (\<exists>l'. run_calls list_meta_call ds l = Inr l' \<and> parsed_lists_meta_value_new (pv_value l') = Inr l'
        \<and> length (pv_value l') = 65 \<and> list_fields l' = fold list_effect ds (list_fields l))"
  using base_meta_codec.run_calls_reparse [OF assms(1,2)] list_meta_codec.run_calls_reparse [OF assms(3,4)]
  by (rule conjI)

theorem meta_setters_keep_buffer_in_sync_witness:
  "(\<exists>m m'. parsed_base_meta_value_new (base_meta_bytes THash 2 7 (replicate 16 0) 1 0) = Inr m \<and>
      run_calls base_meta_call [ModifyCount 3, UpdateVersion 3, SetEtime 9] m = Inr m' \<and>
      parsed_base_meta_value_new (pv_value m') = Inr m' \<and> base_fields m' = (5, 8, 1, 9))
   \<and> (\<exists>l l'. parsed_lists_meta_value_new (list_meta_bytes TList 2 7 4 6 (replicate 16 0) 1 0) = Inr l \<and>
      run_calls list_meta_call [Meta (SetCount 5), ModifyLeftIndex 1, Meta (SetEtime 9)] l = Inr l' \<and>
      parsed_lists_meta_value_new (pv_value l') = Inr l' \<and> list_fields l' = ((5, 7, 1, 9), 3, 6))"
  using meta_setters_keep_buffer_in_sync
      [where v = "base_meta_bytes THash 2 7 (replicate 16 0) 1 0"
        and w = "list_meta_bytes TList 2 7 4 6 (replicate 16 0) 1 0"
        and cs = "[ModifyCount 3, UpdateVersion 3, SetEtime 9]"
        and ds = "[Meta (SetCount 5), ModifyLeftIndex 1, Meta (SetEtime 9)]"]
  by (simp add: base_fields_def list_fields_def next_version_def saturating_add_u64_def)

text \<open>C10: a string value of fewer than \<open>2 ^ 64 - 33\<close> bytes written by \<open>StringValue::encode\<close> is
  parsed back by \<open>ParsedStringsValue::new\<close> with the same user value and expiry, it is stale exactly
  when its nonzero expiry is before the clock, and after \<open>set_etime\<close> it parses with the new expiry
  and the same user value.\<close>

theorem string_value_roundtrip:
  assumes "length x + 33 < 2 ^ 64"
  shows "\<exists>p. parsed_strings_value_new (string_value_encode ((string_value_new now x)\<lparr>iv_etime := et\<rparr>)) = Inr p
    \<and> pv_user_value p = Inr x \<and> pv_etime p = et \<and> pv_ctime p = now
    \<and> (pv_is_stale t p \<longleftrightarrow> et \<noteq> 0 \<and> et < t)
    \<and> (\<exists>q r. strings_set_etime et' p = Inr q \<and> parsed_strings_value_new (pv_value q) = Inr r
         \<and> pv_etime r = et' \<and> pv_user_value r = Inr x)"
proof -
  let ?v = "\<lambda>et. [data_type_u8 TString] @ x @ replicate 16 0 @ u64_le now @ u64_le et"
  have enc: "string_value_encode ((string_value_new now x)\<lparr>iv_etime := et\<rparr>) = ?v et"
    by (simp add: string_value_encode_def string_value_new_def internal_value_new_def)
  obtain p where p: "parsed_strings_value_new (?v et) = Inr p" "pv_value p = ?v et"
      "pv_user_value p = Inr x" "pv_etime p = et" "pv_ctime p = now"
    using parsed_strings_value_encode [OF assms, of TString now et]
    by (auto simp: pv_user_value_def slice_def)
  have "copy_range (([data_type_u8 TString] @ x @ replicate 16 0 @ u64_le now) @ u64_le et @ [])
      (25 + length x) (33 + length x) (u64_le et')
      = Inr (([data_type_u8 TString] @ x @ replicate 16 0 @ u64_le now) @ u64_le et' @ [])"
    by (rule copy_range_field) auto
  then have "\<exists>q. strings_set_etime et' p = Inr q \<and> pv_value q = ?v et'"
    using assms p(2) by (simp add: strings_set_etime_def Let_def usize_add_small add.commute)
  moreover obtain r where "parsed_strings_value_new (?v et') = Inr r" "pv_etime r = et'"
      "pv_user_value r = Inr x"
    using parsed_strings_value_encode [OF assms, of TString now et']
    by (auto simp: pv_user_value_def slice_def)
  ultimately show ?thesis using enc p by (auto simp: pv_is_stale_def)
qed

theorem string_value_roundtrip_witness:
  "\<exists>p. parsed_strings_value_new (string_value_encode ((string_value_new 9 [1, 2])\<lparr>iv_etime := 5\<rparr>)) = Inr p
    \<and> pv_user_value p = Inr [1, 2] \<and> pv_is_stale 10 p"
  using string_value_roundtrip [where x = "[1, 2]" and now = 9 and et = 5 and t = 10 and et' = 0] by auto

text \<open>C11: the length guard of \<open>ParsedStringsValue::new\<close> omits the type byte. A buffer of exactly
  32 bytes with a valid type byte, one byte short of any encoded string value, is accepted in the
  release profile, and reading its user value then panics on an inverted range.\<close>

theorem strings_value_32_bytes_accepted:
  assumes "length v = 31"
  shows "\<exists>p m. parsed_strings_value_new (data_type_u8 dt # v) = Inr p \<and> pv_user_value p = Inl (Panic m)"
  using assms
  by (simp add: parsed_strings_value_new_def Let_def usize_add_def usize_sub_def slice_def
      get_u64_le_def pv_user_value_def)

theorem strings_value_32_bytes_accepted_witness:
  "\<exists>p m. parsed_strings_value_new (data_type_u8 TString # replicate 31 0) = Inr p
     \<and> pv_user_value p = Inl (Panic m)"
  by (rule strings_value_32_bytes_accepted) simp

text \<open>C12: \<open>ParsedListsMetaValue::new\<close> reads the fields from the front and accepts any bytes behind
  the fixed layout, while \<open>set_etime\<close> addresses the expiry from the end of the buffer. So on a list
  meta value with \<open>k\<close> trailing bytes the expiry the next parse reads consists of the first \<open>k\<close>
  bytes of the old one followed by the first bytes of the new one: it is the new expiry when there
  are no trailing bytes, and with eight or more the call has no effect on it at all.\<close>

theorem list_meta_trailing_bytes_garble_etime:
  assumes "length res = SUFFIX_RESERVE_LENGTH" and "length tail + 65 < 2 ^ 64"
  shows "\<exists>m m' r. parsed_lists_meta_value_new (list_meta_bytes dt c ver l rt res ct et @ tail) = Inr m
    \<and> list_set_etime t m = Inr m' \<and> pv_etime m' = t
    \<and> parsed_lists_meta_value_new (pv_value m') = Inr r
    \<and> u64_le (pv_etime r) = take 8 (take (length tail) (u64_le et) @ u64_le t)
    \<and> (8 \<le> length tail \<longrightarrow> pv_etime r = et)"
proof -
  let ?P = "[data_type_u8 dt] @ u64_le c @ u64_le ver @ u64_le l @ u64_le rt @ res @ u64_le ct"
  let ?w = "?P @ take (length tail) (u64_le et @ tail) @ u64_le t"
  have res: "length res = 16" using assms(1) by simp
  obtain m where m: "parsed_lists_meta_value_new (list_meta_bytes dt c ver l rt res ct et @ tail) = Inr m"
      "pv_value m = list_meta_bytes dt c ver l rt res ct et @ tail"
    using parsed_lists_meta_value_new_longer [OF res] by blast
  have "copy_range (P @ u64_le et @ tail) (length P + length tail) (length P + length tail + 8) (u64_le t)
      = Inr (P @ take (length tail) (u64_le et @ tail) @ u64_le t)" for P
    by (simp add: copy_range_def)
  from this [of ?P] have "copy_range (pv_value m) (57 + length tail) (65 + length tail) (u64_le t) = Inr ?w"
    using res by (simp add: m(2) list_meta_bytes_def add.commute)
  then have set: "list_set_etime t m = Inr (m\<lparr>pv_etime := t, pv_value := ?w\<rparr>)"
    using assms(2) res m(2)
    by (simp add: list_set_etime_def list_set_etime_to_value_def Let_def usize_add_small
        list_meta_bytes_def add.commute)
  have front: "take 8 (take (length tail) (u64_le et @ tail) @ u64_le t)
      = take 8 (take (length tail) (u64_le et) @ u64_le t)"
    by (cases "length tail \<le> 8") (simp_all add: min_def)
  obtain f rest where f: "take (length tail) (u64_le et @ tail) @ u64_le t = u64_le f @ rest"
    using u64_le_split [of "take (length tail) (u64_le et @ tail) @ u64_le t"] by auto
  then have fbytes: "u64_le f = take 8 (take (length tail) (u64_le et) @ u64_le t)"
    using front by (metis append_eq_conv_conj length_u64_le)
  have "?w = list_meta_bytes dt c ver l rt res ct f @ rest"
    using f by (simp add: list_meta_bytes_def)
  then obtain r where r: "parsed_lists_meta_value_new ?w = Inr r" "pv_etime r = f"
    using parsed_lists_meta_value_new_longer [OF res] by metis
  have "8 \<le> length tail \<longrightarrow> f = et"
    using fbytes by auto
  then show ?thesis using m(1) set r fbytes by auto
qed

theorem list_meta_trailing_bytes_garble_etime_witness:
  "\<exists>m m' r. parsed_lists_meta_value_new (list_meta_bytes TList 1 0 4 6 (replicate 16 0) 0 5 @ [0]) = Inr m
    \<and> list_set_etime 7 m = Inr m' \<and> pv_etime m' = 7
    \<and> parsed_lists_meta_value_new (pv_value m') = Inr r
    \<and> u64_le (pv_etime r) = [5, 7, 0, 0, 0, 0, 0, 0]"
proof -
  have "take 8 (take (length [0 :: 8 word]) (u64_le 5) @ u64_le 7) = [5, 7, 0, 0, 0, 0, 0, 0]"
    by code_simp
  then show ?thesis
    using list_meta_trailing_bytes_garble_etime [where res = "replicate 16 0" and tail = "[0]" and dt = TList
        and c = 1 and ver = 0 and l = 4 and rt = 6 and ct = 0 and et = 5 and t = 7] by auto
qed

end
