(* ===== verification/Coding.thy ===== *)
theory Coding
  imports Kiwi_Prelude
begin

text \<open>
  The fixed-width integer codec of \<^verbatim>\<open>src/storage/src/coding.rs\<close>: the \<open>FixedInt\<close> trait with
  its four implementations (\<open>i32\<close>, \<open>u32\<close>, \<open>i64\<close>, \<open>u64\<close>) and the generic
  \<open>encode_fixed\<close> and \<open>decode_fixed\<close>. The trait is the locale \<open>fixed_int\<close>: its law is that
  reading back the bytes of a value gives the value; the round trip through a buffer is proved once
  in the locale and interpreted for the four types.
\<close>

section \<open>Definitions\<close>

definition u32_from_le_bytes :: "bytes \<Rightarrow> u32 result" where
  "u32_from_le_bytes bs =
     (if length bs = 4 then Inr (u32_of_le bs) else Inl (Panic ''slice length mismatch''))"

definition u64_from_le_bytes :: "bytes \<Rightarrow> u64 result" where
  "u64_from_le_bytes bs =
     (if length bs = 8 then Inr (u64_of_le bs) else Inl (Panic ''slice length mismatch''))"

text \<open>\<open>(self as u32).to_le_bytes()\<close> and \<open>u32::from_le_bytes(arr) as Self\<close> for the signed types.\<close>

definition i32_to_le_bytes :: "int \<Rightarrow> bytes" where
  "i32_to_le_bytes v = u32_le (word_of_int v)"

definition i32_from_le_bytes :: "bytes \<Rightarrow> int result" where
  "i32_from_le_bytes bs = rbind (u32_from_le_bytes bs) (\<lambda>w. Inr (sint w))"

definition i64_to_le_bytes :: "i64 \<Rightarrow> bytes" where
  "i64_to_le_bytes v = u64_le (i64_as_u64 v)"

definition i64_from_le_bytes :: "bytes \<Rightarrow> i64 result" where
  "i64_from_le_bytes bs = rbind (u64_from_le_bytes bs) (\<lambda>w. Inr (u64_as_i64 w))"

definition encode_fixed :: "nat \<Rightarrow> ('a \<Rightarrow> bytes) \<Rightarrow> bytes \<Rightarrow> 'a \<Rightarrow> bytes result" where
  "encode_fixed width to_le_bytes buf val =
     rbind (ensure (width \<le> length buf) (Panic ''buffer too small for fixed int'')) (\<lambda>_.
     copy_range buf 0 width (to_le_bytes val))"

definition decode_fixed :: "nat \<Rightarrow> (bytes \<Rightarrow> 'a result) \<Rightarrow> bytes \<Rightarrow> 'a result" where
  "decode_fixed width from_le_bytes buf =
     rbind (ensure (width \<le> length buf) (Panic ''buffer too small for fixed int'')) (\<lambda>_.
     rbind (slice buf 0 width) from_le_bytes)"

section \<open>The trait\<close>

locale fixed_int =
  fixes byte_size :: nat
    and to_le_bytes :: "'a \<Rightarrow> bytes"
    and from_le_bytes :: "bytes \<Rightarrow> 'a result"
    and in_range :: "'a \<Rightarrow> bool"
  assumes length_to_le: "length (to_le_bytes v) = byte_size"
    and from_to_le: "in_range v \<Longrightarrow> from_le_bytes (to_le_bytes v) = Inr v"
begin

lemma encode_fixed_Inr:
  "byte_size \<le> length buf \<Longrightarrow>
     encode_fixed byte_size to_le_bytes buf v = Inr (to_le_bytes v @ drop byte_size buf)"
  by (simp add: encode_fixed_def copy_range_def length_to_le)

lemma decode_fixed_prefix:
  "in_range v \<Longrightarrow> decode_fixed byte_size from_le_bytes (to_le_bytes v @ rest) = Inr v"
  by (simp add: decode_fixed_def slice_def length_to_le from_to_le)

lemma write_read:
  assumes "in_range v" and "byte_size \<le> length buf"
  shows "rbind (encode_fixed byte_size to_le_bytes buf v)
      (\<lambda>b. rbind (decode_fixed byte_size from_le_bytes b) (\<lambda>x. Inr (x, drop byte_size b)))
    = Inr (v, drop byte_size buf)"
  using assms by (simp add: encode_fixed_Inr decode_fixed_prefix length_to_le)

lemma fixed_short:
  "length buf < byte_size \<Longrightarrow> \<exists>m m'. encode_fixed byte_size to_le_bytes buf v = Inl (Panic m)
     \<and> decode_fixed byte_size from_le_bytes buf = Inl (Panic m')"
  by (simp add: encode_fixed_def decode_fixed_def)

end

lemma sint_word_of_int_32: "- (2 ^ 31) \<le> v \<Longrightarrow> v < 2 ^ 31 \<Longrightarrow> sint (word_of_int v :: u32) = v"
  by (simp add: sint_sbintrunc' signed_take_bit_int_eq_self)

lemma u64_as_i64_of_i64 [simp]:
  "- (2 ^ 63) \<le> v \<Longrightarrow> v < 2 ^ 63 \<Longrightarrow> u64_as_i64 (i64_as_u64 v) = v"
  by (simp add: u64_as_i64_def i64_as_u64_def sint_sbintrunc' signed_take_bit_int_eq_self)

interpretation fixed_u32: fixed_int 4 u32_le u32_from_le_bytes "\<lambda>_. True"
  by unfold_locales (simp_all add: u32_from_le_bytes_def)

interpretation fixed_u64: fixed_int 8 u64_le u64_from_le_bytes "\<lambda>_. True"
  by unfold_locales (simp_all add: u64_from_le_bytes_def)

interpretation fixed_i32: fixed_int 4 i32_to_le_bytes i32_from_le_bytes
    "\<lambda>v. - (2 ^ 31) \<le> v \<and> v < 2 ^ 31"
proof unfold_locales
  show "length (i32_to_le_bytes v) = 4" for v
    by (simp add: i32_to_le_bytes_def)
  show "- (2 ^ 31) \<le> v \<and> v < 2 ^ 31 \<Longrightarrow> i32_from_le_bytes (i32_to_le_bytes v) = Inr v" for v
    using sint_word_of_int_32 [of v]
    by (simp add: i32_to_le_bytes_def i32_from_le_bytes_def u32_from_le_bytes_def)
qed

interpretation fixed_i64: fixed_int 8 i64_to_le_bytes i64_from_le_bytes
    "\<lambda>v. - (2 ^ 63) \<le> v \<and> v < 2 ^ 63"
  by unfold_locales
    (simp_all add: i64_to_le_bytes_def i64_from_le_bytes_def u64_from_le_bytes_def)

lemma decode_fixed_u64 [simp]:
  "decode_fixed 8 u64_from_le_bytes (u64_le v @ rest) = Inr v"
  by (rule fixed_u64.decode_fixed_prefix) simp

lemma decode_fixed_u64_exact [simp]: "decode_fixed 8 u64_from_le_bytes (u64_le v) = Inr v"
  using decode_fixed_u64 [of v "[]"] by simp

text \<open>C13: a fixed-width integer written by \<open>encode_fixed\<close> into any buffer that is large enough for it is read
  back unchanged by \<open>decode_fixed\<close>, for \<open>i32\<close> and \<open>u32\<close> from four bytes on and for \<open>i64\<close> and \<open>u64\<close> from eight
  bytes on; the bytes behind it are kept. Into or from a smaller buffer both panic.\<close>

theorem encode_decode_fixed:
  "(8 \<le> length buf \<longrightarrow> - (2 ^ 63) \<le> i \<longrightarrow> i < 2 ^ 63 \<longrightarrow>
      rbind (encode_fixed 8 i64_to_le_bytes buf i) (\<lambda>b. rbind (decode_fixed 8 i64_from_le_bytes b) (\<lambda>x. Inr (x, drop 8 b)))
        = Inr (i, drop 8 buf))
    \<and> (8 \<le> length buf \<longrightarrow>
      rbind (encode_fixed 8 u64_le buf w) (\<lambda>b. rbind (decode_fixed 8 u64_from_le_bytes b) (\<lambda>x. Inr (x, drop 8 b)))
        = Inr (w, drop 8 buf))
    \<and> (4 \<le> length buf \<longrightarrow> - (2 ^ 31) \<le> j \<longrightarrow> j < 2 ^ 31 \<longrightarrow>
      rbind (encode_fixed 4 i32_to_le_bytes buf j) (\<lambda>b. rbind (decode_fixed 4 i32_from_le_bytes b) (\<lambda>x. Inr (x, drop 4 b)))
        = Inr (j, drop 4 buf))
    \<and> (4 \<le> length buf \<longrightarrow>
      rbind (encode_fixed 4 u32_le buf v) (\<lambda>b. rbind (decode_fixed 4 u32_from_le_bytes b) (\<lambda>x. Inr (x, drop 4 b)))
        = Inr (v, drop 4 buf))
    \<and> (length buf < 8 \<longrightarrow> (\<exists>m m'. encode_fixed 8 i64_to_le_bytes buf i = Inl (Panic m)
      \<and> decode_fixed 8 i64_from_le_bytes buf = Inl (Panic m')))
    \<and> (length buf < 8 \<longrightarrow> (\<exists>m m'. encode_fixed 8 u64_le buf w = Inl (Panic m)
      \<and> decode_fixed 8 u64_from_le_bytes buf = Inl (Panic m')))
    \<and> (length buf < 4 \<longrightarrow> (\<exists>m m'. encode_fixed 4 i32_to_le_bytes buf j = Inl (Panic m)
      \<and> decode_fixed 4 i32_from_le_bytes buf = Inl (Panic m')))
    \<and> (length buf < 4 \<longrightarrow> (\<exists>m m'. encode_fixed 4 u32_le buf v = Inl (Panic m)
      \<and> decode_fixed 4 u32_from_le_bytes buf = Inl (Panic m')))"
  using fixed_i64.fixed_short [of buf i] fixed_u64.fixed_short [of buf w]
    fixed_i32.fixed_short [of buf j] fixed_u32.fixed_short [of buf v]
  by (simp add: fixed_i64.write_read fixed_u64.write_read fixed_i32.write_read fixed_u32.write_read)

theorem encode_decode_fixed_witness:
  "rbind (encode_fixed 4 u32_le (replicate 4 0) 305419896) (\<lambda>b. rbind (decode_fixed 4 u32_from_le_bytes b) (\<lambda>x. Inr (x, drop 4 b)))
     = Inr (305419896, [])
   \<and> rbind (encode_fixed 8 i64_to_le_bytes (replicate 9 7) (- 5)) (\<lambda>b. rbind (decode_fixed 8 i64_from_le_bytes b) (\<lambda>x. Inr (x, drop 8 b)))
     = Inr (- 5, [7])"
  using encode_decode_fixed [of "replicate 4 0" 0 0 0 305419896] encode_decode_fixed [of "replicate 9 7" "- 5" 0 0 0]
  by (simp add: numeral_eq_Suc)

end
