(* ===== verification/Format_Keys.thy ===== *)
theory Format_Keys
  imports Storage_Define Coding "HOL-Library.Sublist"
begin

text \<open>
  The encoded keys of the storage layer (\<^verbatim>\<open>src/storage/src\<close>): the meta/string key
  (\<^verbatim>\<open>format_base_key.rs\<close>), the hash/set/zset member key (\<^verbatim>\<open>format_member_data_key.rs\<close>),
  the list element key (\<^verbatim>\<open>format_lists_data_key.rs\<close>), the zset score key
  (\<^verbatim>\<open>format_zset_score_key.rs\<close>) and the vector-set member key
  (\<^verbatim>\<open>format_vector_member_key.rs\<close>), each with its encoder and its parser. The interface a
  client of a key format relies on is the locale \<open>key_codec\<close>: encoding succeeds and parsing gives
  back the encoded fields, from which injectivity and the non-interference of writes follow. A parsed
  key has the fields of the key it was encoded from, so the model uses one record for the two structs.
  An \<open>f64\<close> score is its bit pattern.
\<close>

type_synonym f64 = "64 word"

section \<open>Meta and string keys\<close>

record base_key =
  bk_reserve1 :: bytes
  bk_key :: bytes
  bk_reserve2 :: bytes

definition base_key_new :: "bytes \<Rightarrow> base_key" where
  "base_key_new key =
     \<lparr>bk_reserve1 = replicate PREFIX_RESERVE_LENGTH 0, bk_key = key,
      bk_reserve2 = replicate SUFFIX_RESERVE_LENGTH 0\<rparr>"

definition base_key_encode :: "base_key \<Rightarrow> bytes result" where
  "base_key_encode k =
     rbind (encode_user_key (bk_key k) (bk_reserve1 k)) (\<lambda>dst. Inr (dst @ bk_reserve2 k))"

definition parsed_base_key_new :: "bytes \<Rightarrow> bytes result" where
  "parsed_base_key_new encoded_key =
     (let key_len = length encoded_key; min_len = PREFIX_RESERVE_LENGTH + SUFFIX_RESERVE_LENGTH in
      rbind (ensure (min_len \<le> key_len) (InvalidFormat ''Invalid encoded key length'')) (\<lambda>_.
      rbind (slice encoded_key PREFIX_RESERVE_LENGTH (key_len - SUFFIX_RESERVE_LENGTH)) (\<lambda>middle.
      decode_user_key middle [])))"

section \<open>Hash, set and zset member keys\<close>

record member_data_key =
  md_reserve1 :: bytes
  md_key :: bytes
  md_version :: u64
  md_data :: bytes
  md_reserve2 :: bytes

definition member_data_key_new :: "bytes \<Rightarrow> u64 \<Rightarrow> bytes \<Rightarrow> member_data_key" where
  "member_data_key_new key version data =
     \<lparr>md_reserve1 = replicate PREFIX_RESERVE_LENGTH 0, md_key = key, md_version = version,
      md_data = data, md_reserve2 = replicate SUFFIX_RESERVE_LENGTH 0\<rparr>"

definition member_data_key_encode :: "member_data_key \<Rightarrow> bytes result" where
  "member_data_key_encode k =
     rbind (encode_user_key (md_key k) (md_reserve1 k)) (\<lambda>dst.
     Inr (dst @ u64_le (md_version k) @ md_data k @ md_reserve2 k))"

definition member_data_key_encode_seek_key :: "member_data_key \<Rightarrow> bytes result" where
  "member_data_key_encode_seek_key k =
     rbind (encode_user_key (md_key k) (md_reserve1 k)) (\<lambda>dst.
     Inr (dst @ u64_le (md_version k) @ md_data k))"

definition parsed_member_data_key_new :: "bytes \<Rightarrow> member_data_key result" where
  "parsed_member_data_key_new encoded_key =
     (let min_length = PREFIX_RESERVE_LENGTH + ENCODED_KEY_DELIM_SIZE + 8 + SUFFIX_RESERVE_LENGTH in
      rbind (ensure (min_length \<le> length encoded_key) (InvalidFormat ''member data key too short'')) (\<lambda>_.
      let start_idx = PREFIX_RESERVE_LENGTH; end_idx = length encoded_key - SUFFIX_RESERVE_LENGTH in
      rbind (slice encoded_key 0 PREFIX_RESERVE_LENGTH) (\<lambda>reserve1.
      rbind (slice encoded_key start_idx end_idx) (\<lambda>part.
      let key_end_idx = start_idx + seek_userkey_delim part in
      rbind (slice encoded_key start_idx key_end_idx) (\<lambda>key_part.
      rbind (decode_user_key key_part []) (\<lambda>key_str.
      let version_end_idx = key_end_idx + 8 in
      rbind (ensure (version_end_idx \<le> end_idx)
               (InvalidFormat ''member data key version field out of bounds'')) (\<lambda>_.
      rbind (slice encoded_key key_end_idx version_end_idx) (\<lambda>version_slice.
      rbind (ensure (length version_slice = 8)
               (InvalidFormat ''member data key version field length mismatch'')) (\<lambda>_.
      let version = u64_of_le version_slice in
      rbind (slice encoded_key version_end_idx end_idx) (\<lambda>data.
      rbind (slice encoded_key end_idx (length encoded_key)) (\<lambda>reserve2.
      Inr \<lparr>md_reserve1 = reserve1, md_key = key_str, md_version = version, md_data = data,
           md_reserve2 = reserve2\<rparr>)))))))))))"

section \<open>List element keys\<close>

record lists_data_key =
  ld_reserve1 :: bytes
  ld_key :: bytes
  ld_version :: u64
  ld_index :: u64
  ld_reserve2 :: bytes

definition lists_data_key_with_reserves ::
  "bytes \<Rightarrow> u64 \<Rightarrow> u64 \<Rightarrow> bytes \<Rightarrow> bytes \<Rightarrow> lists_data_key" where
  "lists_data_key_with_reserves key version index reserve1 reserve2 =
     \<lparr>ld_reserve1 = reserve1, ld_key = key, ld_version = version, ld_index = index,
      ld_reserve2 = reserve2\<rparr>"

definition lists_data_key_new :: "bytes \<Rightarrow> u64 \<Rightarrow> u64 \<Rightarrow> lists_data_key" where
  "lists_data_key_new key version index =
     lists_data_key_with_reserves key version index (replicate 8 0) (replicate 16 0)"

text \<open>\<open>encode_fixed(&mut dst[offset..offset + 8], v)\<close>.\<close>

definition encode_fixed_at :: "bytes \<Rightarrow> nat \<Rightarrow> u64 \<Rightarrow> bytes result" where
  "encode_fixed_at dst offset v =
     rbind (slice dst offset (offset + 8)) (\<lambda>window.
     rbind (encode_fixed 8 u64_le window v) (\<lambda>window'.
     copy_range dst offset (offset + 8) window'))"

definition lists_data_key_encode :: "lists_data_key \<Rightarrow> bytes result" where
  "lists_data_key_encode k =
     (let meta_size = length (ld_reserve1 k) + 8 + length (ld_reserve2 k);
          nzero = length (filter (\<lambda>c. c = 0) (ld_key k));
          encoded_size = length (ld_key k) + 8 + ENCODED_KEY_DELIM_SIZE + nzero;
          needed = meta_size + encoded_size;
          dst = replicate needed 0;
          offset = 0 in
      rbind (copy_range dst offset (offset + length (ld_reserve1 k)) (ld_reserve1 k)) (\<lambda>dst.
      let offset = offset + length (ld_reserve1 k) in
      rbind (encode_user_key (ld_key k) []) (\<lambda>encoded_key.
      rbind (copy_range dst offset (offset + length encoded_key) encoded_key) (\<lambda>dst.
      let offset = offset + length encoded_key in
      rbind (encode_fixed_at dst offset (ld_version k)) (\<lambda>dst.
      let offset = offset + 8 in
      rbind (encode_fixed_at dst offset (ld_index k)) (\<lambda>dst.
      let offset = offset + 8 in
      copy_range dst offset (offset + length (ld_reserve2 k)) (ld_reserve2 k)))))))"

text \<open>\<open>windows(2).position(|w| w == b"\x00\x00")\<close>.\<close>

fun windows2_position :: "bytes \<Rightarrow> nat option" where
  "windows2_position (a # b # bs) =
     (if a = 0 \<and> b = 0 then Some 0 else map_option Suc (windows2_position (b # bs)))"
| "windows2_position bs = None"

definition parsed_lists_data_key_decode :: "bytes \<Rightarrow> lists_data_key result" where
  "parsed_lists_data_key_decode key =
     (let min_len = 8 + 16 in
      if length key < min_len then Inl (InvalidFormat ''Key too short for reserve fields'') else
      let encoded_key_start = 8; encoded_key_end = length key - 16 in
      rbind (slice key encoded_key_start encoded_key_end) (\<lambda>encoded_key_slice.
      case windows2_position encoded_key_slice of
        None \<Rightarrow> Inl (InvalidFormat ''Encoded key delimiter not found'')
      | Some p \<Rightarrow>
        (let pos = p + ENCODED_KEY_DELIM_SIZE in
         rbind (slice encoded_key_slice 0 pos) (\<lambda>key_part.
         rbind (decode_user_key key_part []) (\<lambda>key_str.
         let version_offset = encoded_key_start + pos; index_offset = version_offset + 8 in
         if index_offset + 8 > encoded_key_end
         then Inl (InvalidFormat ''Key too short for version/index fields'') else
         rbind (slice key version_offset (version_offset + 8)) (\<lambda>version_raw.
         rbind (decode_fixed 8 u64_from_le_bytes version_raw) (\<lambda>version.
         rbind (slice key index_offset (index_offset + 8)) (\<lambda>index_raw.
         rbind (decode_fixed 8 u64_from_le_bytes index_raw) (\<lambda>index.
         if index_offset + 8 \<noteq> encoded_key_end
         then Inl (InvalidFormat ''Unexpected bytes between index and reserve2'') else
         rbind (slice key 0 8) (\<lambda>reserve1.
         rbind (ensure (length reserve1 = 8) (InvalidFormat ''Failed to read reserve1 field'')) (\<lambda>_.
         rbind (slice key encoded_key_end (length key)) (\<lambda>reserve2.
         rbind (ensure (length reserve2 = 16) (InvalidFormat ''Failed to read reserve2 field'')) (\<lambda>_.
         Inr \<lparr>ld_reserve1 = reserve1, ld_key = key_str, ld_version = version, ld_index = index,
              ld_reserve2 = reserve2\<rparr>)))))))))))))"

section \<open>Zset score keys\<close>

record zsets_score_key =
  zs_reserve1 :: bytes
  zs_key :: bytes
  zs_version :: u64
  zs_score :: f64
  zs_member :: bytes
  zs_reserve2 :: bytes

definition zsets_score_key_new :: "bytes \<Rightarrow> u64 \<Rightarrow> f64 \<Rightarrow> bytes \<Rightarrow> zsets_score_key" where
  "zsets_score_key_new key version score member =
     \<lparr>zs_reserve1 = replicate PREFIX_RESERVE_LENGTH 0, zs_key = key, zs_version = version,
      zs_score = score, zs_member = member, zs_reserve2 = replicate SUFFIX_RESERVE_LENGTH 0\<rparr>"

definition zsets_score_key_encode :: "zsets_score_key \<Rightarrow> bytes result" where
  "zsets_score_key_encode k =
     rbind (encode_user_key (zs_key k) []) (\<lambda>_.
     rbind (encode_user_key (zs_key k) (zs_reserve1 k)) (\<lambda>dst.
     Inr (dst @ u64_le (zs_version k) @ u64_le (zs_score k) @ zs_member k @ zs_reserve2 k)))"

definition zsets_score_key_encode_seek_key :: "zsets_score_key \<Rightarrow> bytes result" where
  "zsets_score_key_encode_seek_key k =
     rbind (encode_user_key (zs_key k) []) (\<lambda>_.
     rbind (encode_user_key (zs_key k) (zs_reserve1 k)) (\<lambda>dst.
     Inr (dst @ u64_le (zs_version k) @ u64_le (zs_score k))))"

definition parsed_zsets_score_key_new :: "bytes \<Rightarrow> zsets_score_key result" where
  "parsed_zsets_score_key_new encoded_key =
     (let min_len = PREFIX_RESERVE_LENGTH + SUFFIX_RESERVE_LENGTH in
      if length encoded_key < min_len then Inl (InvalidFormat ''encoded key too short'') else
      let start_idx = PREFIX_RESERVE_LENGTH; end_idx = length encoded_key - SUFFIX_RESERVE_LENGTH in
      rbind (slice encoded_key 0 PREFIX_RESERVE_LENGTH) (\<lambda>reserve1.
      if length encoded_key < start_idx + 2 + 8 * 2
      then Inl (InvalidFormat ''encoded key too short for key, version and score'') else
      let key_end_idx = start_idx + seek_userkey_delim (drop start_idx encoded_key) in
      rbind (slice encoded_key start_idx key_end_idx) (\<lambda>encoded_key_part.
      rbind (decode_user_key encoded_key_part []) (\<lambda>key_str.
      let version_end_idx = key_end_idx + 8 in
      if version_end_idx > end_idx then Inl (InvalidFormat ''encoded key too short for version'') else
      rbind (slice encoded_key key_end_idx version_end_idx) (\<lambda>version_slice.
      let version = u64_of_le version_slice; score_end_idx = version_end_idx + 8 in
      if score_end_idx > end_idx then Inl (InvalidFormat ''encoded key too short for score'') else
      rbind (slice encoded_key version_end_idx score_end_idx) (\<lambda>score_slice.
      rbind (u64_from_le_bytes score_slice) (\<lambda>score.
      if length encoded_key < score_end_idx + SUFFIX_RESERVE_LENGTH
      then Inl (InvalidFormat ''encoded key too short for member and reserve2'') else
      rbind (slice encoded_key score_end_idx end_idx) (\<lambda>member_str.
      rbind (slice encoded_key end_idx (length encoded_key)) (\<lambda>reserve2.
      Inr \<lparr>zs_reserve1 = reserve1, zs_key = key_str, zs_version = version, zs_score = score,
           zs_member = member_str, zs_reserve2 = reserve2\<rparr>)))))))))"

section \<open>Vector-set member keys\<close>

abbreviation VECTOR_MEMBER_KEY_CODEC_VERSION :: byte where "VECTOR_MEMBER_KEY_CODEC_VERSION \<equiv> 1"
abbreviation VECTOR_MIN_KEY_LENGTH :: nat where "VECTOR_MIN_KEY_LENGTH \<equiv> 21"
abbreviation PREFIX_TRAILER_LENGTH :: nat where "PREFIX_TRAILER_LENGTH \<equiv> 16"

record vector_member_data_key =
  vm_key :: bytes
  vm_storage_incarnation :: u64
  vm_generation_sequence :: u64
  vm_element :: bytes

definition vector_encode_key_prefix :: "bytes \<Rightarrow> bytes result" where
  "vector_encode_key_prefix key =
     (if length key < 2 ^ 32
      then Inr ([VECTOR_MEMBER_KEY_CODEC_VERSION] @ u32_be (word_of_nat (length key)) @ key)
      else Inl (InvalidArgument ''vector member key too long''))"

definition vector_encode_full :: "vector_member_data_key \<Rightarrow> bytes result" where
  "vector_encode_full k =
     rbind (vector_encode_key_prefix (vm_key k)) (\<lambda>output.
     Inr (output @ u64_be (vm_storage_incarnation k) @ u64_be (vm_generation_sequence k) @ vm_element k))"

definition vector_encode_prefix :: "bytes \<Rightarrow> u64 \<Rightarrow> u64 \<Rightarrow> bytes result" where
  "vector_encode_prefix key incarnation generation =
     rbind (vector_encode_key_prefix key) (\<lambda>output.
     Inr (output @ u64_be incarnation @ u64_be generation))"

text \<open>\<open>prefix_upper_bound\<close> pops trailing \<open>0xFF\<close> bytes and increments the last other byte; the loop
  runs on the reversed buffer.\<close>

fun prefix_upper_bound_loop :: "bytes \<Rightarrow> bytes option" where
  "prefix_upper_bound_loop [] = None"
| "prefix_upper_bound_loop (b # rest) =
     (if b = 255 then prefix_upper_bound_loop rest else Some ((b + 1) # rest))"

definition prefix_upper_bound :: "bytes \<Rightarrow> bytes option" where
  "prefix_upper_bound p = map_option rev (prefix_upper_bound_loop (rev p))"

definition parsed_vector_member_data_key_decode :: "bytes \<Rightarrow> vector_member_data_key result" where
  "parsed_vector_member_data_key_decode encoded_key =
     rbind (ensure (VECTOR_MIN_KEY_LENGTH \<le> length encoded_key)
              (InvalidFormat ''vector member key too short'')) (\<lambda>_.
     rbind (get_u8 encoded_key) (\<lambda>(codec_version, r).
     rbind (ensure (codec_version = VECTOR_MEMBER_KEY_CODEC_VERSION)
              (InvalidFormat ''unsupported vector member key codec version'')) (\<lambda>_.
     rbind (get_u32 r) (\<lambda>(key_len_raw, r).
     let key_len = unat key_len_raw in
     rbind (ensure (key_len \<le> length r - PREFIX_TRAILER_LENGTH)
              (InvalidFormat ''vector member key_len exceeds remaining bytes'')) (\<lambda>_.
     rbind (slice r 0 key_len) (\<lambda>key.
     rbind (advance key_len r) (\<lambda>r.
     rbind (get_u64 r) (\<lambda>(incarnation, r).
     rbind (get_u64 r) (\<lambda>(generation, r).
     Inr \<lparr>vm_key = key, vm_storage_incarnation = incarnation, vm_generation_sequence = generation,
          vm_element = r\<rparr>)))))))))"

section \<open>What the encoders write\<close>

definition base_key_bytes :: "bytes \<Rightarrow> bytes" where
  "base_key_bytes key = replicate 8 0 @ encoded_user_key key @ replicate 16 0"

definition lists_data_key_bytes :: "bytes \<Rightarrow> u64 \<Rightarrow> u64 \<Rightarrow> bytes" where
  "lists_data_key_bytes key version index =
     replicate 8 0 @ encoded_user_key key @ u64_le version @ u64_le index @ replicate 16 0"

lemma base_key_encode_new [simp]: "base_key_encode (base_key_new key) = Inr (base_key_bytes key)"
  by (simp add: base_key_encode_def base_key_new_def encode_user_key_eq base_key_bytes_def)

lemma member_data_key_encode_eq:
  "member_data_key_encode k = Inr (md_reserve1 k @ encoded_user_key (md_key k) @ u64_le (md_version k)
     @ md_data k @ md_reserve2 k)"
  by (simp add: member_data_key_encode_def encode_user_key_eq)

lemma member_data_key_encode_seek_key_eq:
  "member_data_key_encode_seek_key k = Inr (md_reserve1 k @ encoded_user_key (md_key k)
     @ u64_le (md_version k) @ md_data k)"
  by (simp add: member_data_key_encode_seek_key_def encode_user_key_eq)

lemma zsets_score_key_encode_eq:
  "zsets_score_key_encode k = Inr (zs_reserve1 k @ encoded_user_key (zs_key k) @ u64_le (zs_version k)
     @ u64_le (zs_score k) @ zs_member k @ zs_reserve2 k)"
  by (simp add: zsets_score_key_encode_def encode_user_key_eq)

lemma length_escape: "length (escape k) = length k + length (filter (\<lambda>c. c = 0) k)"
  by (induction k) auto

lemma encode_fixed_at_field:
  assumes "n = length xs"
  shows "encode_fixed_at (xs @ replicate 8 0 @ zs) n v = Inr (xs @ u64_le v @ zs)"
  using assms by (simp add: encode_fixed_at_def slice_def encode_fixed_def copy_range_def)

text \<open>The buffer the encoder of a list key allocates is exactly filled: no slice it takes is out of
  range, and no byte of it keeps its initial value by accident.\<close>

lemma lists_data_key_encode_eq:
  "lists_data_key_encode k = Inr (ld_reserve1 k @ encoded_user_key (ld_key k) @ u64_le (ld_version k)
     @ u64_le (ld_index k) @ ld_reserve2 k)"
proof -
  let ?r1 = "ld_reserve1 k" and ?r2 = "ld_reserve2 k" and ?e = "encoded_user_key (ld_key k)"
  let ?n = "length ?r1 + 8 + length ?r2 + (length (ld_key k) + 8 + ENCODED_KEY_DELIM_SIZE
     + length (filter (\<lambda>c. c = 0) (ld_key k)))"
  have buf: "replicate ?n (0 :: byte) = replicate (length ?r1) 0 @ replicate (length ?e) 0
      @ replicate 8 0 @ replicate 8 0 @ replicate (length ?r2) 0"
  proof -
    have "?n = length ?r1 + (length ?e + (8 + (8 + length ?r2)))"
      by (simp add: length_encoded_user_key length_escape)
    then show ?thesis by (simp only: replicate_add)
  qed
  have s1: "copy_range (replicate ?n 0) 0 (0 + length ?r1) ?r1
      = Inr (?r1 @ replicate (length ?e) 0 @ replicate 8 0 @ replicate 8 0 @ replicate (length ?r2) 0)"
    unfolding buf using copy_range_field [of 0 "[]" "length ?r1" "replicate (length ?r1) 0" ?r1] by simp
  have s2: "copy_range (?r1 @ replicate (length ?e) 0 @ zs) (0 + length ?r1) (0 + length ?r1 + length ?e) ?e
      = Inr (?r1 @ ?e @ zs)" for zs
    by (rule copy_range_field) simp_all
  have s3: "encode_fixed_at (?r1 @ ?e @ replicate 8 0 @ zs) (0 + length ?r1 + length ?e) v
      = Inr (?r1 @ ?e @ u64_le v @ zs)" for v zs
    using encode_fixed_at_field [of _ "?r1 @ ?e" zs v] by simp
  have s4: "encode_fixed_at (?r1 @ ?e @ u64_le w @ replicate 8 0 @ zs) (0 + length ?r1 + length ?e + 8) v
      = Inr (?r1 @ ?e @ u64_le w @ u64_le v @ zs)" for v w zs
    using encode_fixed_at_field [of _ "?r1 @ ?e @ u64_le w" zs v] by (simp add: ac_simps)
  have s5: "copy_range (?r1 @ ?e @ u64_le w @ u64_le v @ replicate (length ?r2) 0)
      (0 + length ?r1 + length ?e + 8 + 8) (0 + length ?r1 + length ?e + 8 + 8 + length ?r2) ?r2
      = Inr (?r1 @ ?e @ u64_le w @ u64_le v @ ?r2)" for v w
    using copy_range_field [of _ "?r1 @ ?e @ u64_le w @ u64_le v" _ "replicate (length ?r2) 0" ?r2 "[]"]
    by (simp add: ac_simps)
  show ?thesis
    unfolding lists_data_key_encode_def Let_def encode_user_key_eq append_Nil s1 rbind_simps s2 s3 s4 s5 ..
qed

lemma lists_data_key_encode_new [simp]:
  "lists_data_key_encode (lists_data_key_new key version index)
     = Inr (lists_data_key_bytes key version index)"
  by (simp add: lists_data_key_encode_eq lists_data_key_new_def lists_data_key_with_reserves_def
      lists_data_key_bytes_def)

lemma lists_data_key_bytes_inject [simp]:
  "lists_data_key_bytes k v i = lists_data_key_bytes k' v' i' \<longleftrightarrow> k = k' \<and> v = v' \<and> i = i'"
  by (auto simp: lists_data_key_bytes_def)

lemma base_key_bytes_inject [simp]: "base_key_bytes k = base_key_bytes k' \<longleftrightarrow> k = k'"
  by (simp add: base_key_bytes_def)

section \<open>Round trips of the key formats\<close>

text \<open>
  What a client of a key format relies on: every well-formed key has an encoding, and the parser gives
  back all its fields. Distinct keys then have distinct encodings, and a write under one key leaves
  every other key of the column family as it was.
\<close>

locale key_codec =
  fixes encode :: "'k \<Rightarrow> bytes result"
    and parse :: "bytes \<Rightarrow> 'k result"
    and valid :: "'k \<Rightarrow> bool"
  assumes encode_valid: "valid k \<Longrightarrow> \<exists>b. encode k = Inr b"
    and parse_encode: "valid k \<Longrightarrow> encode k = Inr b \<Longrightarrow> parse b = Inr k"
begin

lemma encode_inject:
  assumes "valid k" and "valid k'" and "encode k = encode k'"
  shows "k = k'"
  using assms encode_valid [of k] parse_encode [of k] parse_encode [of k'] by auto

lemma write_frame:
  assumes "valid k" and "valid k'" and "k \<noteq> k'" and "encode k = Inr b" and "encode k' = Inr b'"
  shows "(m(b \<mapsto> x)) b' = m b'"
  using assms encode_inject [of k k'] by auto

lemma rbind_parse_encode: "valid k \<Longrightarrow> rbind (encode k) parse = Inr k"
  using encode_valid [of k] parse_encode [of k] by auto

end

definition member_data_key_valid :: "member_data_key \<Rightarrow> bool" where
  "member_data_key_valid k \<longleftrightarrow> length (md_reserve1 k) = 8 \<and> length (md_reserve2 k) = 16"

definition lists_data_key_valid :: "lists_data_key \<Rightarrow> bool" where
  "lists_data_key_valid k \<longleftrightarrow> length (ld_reserve1 k) = 8 \<and> length (ld_reserve2 k) = 16"

definition zsets_score_key_valid :: "zsets_score_key \<Rightarrow> bool" where
  "zsets_score_key_valid k \<longleftrightarrow> length (zs_reserve1 k) = 8 \<and> length (zs_reserve2 k) = 16"

definition vector_member_data_key_valid :: "vector_member_data_key \<Rightarrow> bool" where
  "vector_member_data_key_valid k \<longleftrightarrow> length (vm_key k) < 2 ^ 32"

lemma parsed_base_key_bytes [simp]: "parsed_base_key_new (base_key_bytes key) = Inr key"
  by (simp add: parsed_base_key_new_def base_key_bytes_def slice_append Let_def)

lemma slice_from_0: "slice (ys @ zs) 0 (length ys) = Inr ys"
  by (simp add: slice_def)

lemma slice_to_end: "a = length xs \<Longrightarrow> b = a + length ys \<Longrightarrow> slice (xs @ ys) a b = Inr ys"
  by (simp add: slice_def)

lemma parsed_member_data_key_encoded:
  assumes "length r1 = 8" and "length r2 = 16"
  shows "parsed_member_data_key_new (r1 @ encoded_user_key k @ u64_le v @ d @ r2)
    = Inr \<lparr>md_reserve1 = r1, md_key = k, md_version = v, md_data = d, md_reserve2 = r2\<rparr>"
  using assms by (simp add: parsed_member_data_key_new_def slice_def Let_def trans_le_add1)

lemma windows2_position_encoded [simp]:
  "windows2_position (encoded_user_key k @ rest) = Some (length (encoded_user_key k) - 2)"
proof -
  have "windows2_position (escape k @ 0 # 0 # rest) = Some (length (escape k))"
  proof (induction k)
    case (Cons b k)
    then show ?case by (cases "escape k @ 0 # 0 # rest") auto
  qed simp
  then show ?thesis by (simp add: encoded_user_key_def)
qed

lemma parsed_lists_data_key_encoded:
  assumes "length r1 = 8" and "length r2 = 16"
  shows "parsed_lists_data_key_decode (r1 @ encoded_user_key k @ u64_le v @ u64_le i @ r2)
    = Inr \<lparr>ld_reserve1 = r1, ld_key = k, ld_version = v, ld_index = i, ld_reserve2 = r2\<rparr>"
proof -
  obtain n where "length (encoded_user_key k) = Suc (Suc n)"
    by (simp add: encoded_user_key_def)
  with assms show ?thesis
    by (simp add: parsed_lists_data_key_decode_def slice_def Let_def)
qed

lemma parsed_zsets_score_key_encoded:
  assumes "length r1 = 8" and "length r2 = 16"
  shows "parsed_zsets_score_key_new (r1 @ encoded_user_key k @ u64_le v @ u64_le s @ m @ r2)
    = Inr \<lparr>zs_reserve1 = r1, zs_key = k, zs_version = v, zs_score = s, zs_member = m, zs_reserve2 = r2\<rparr>"
  using assms by (simp add: parsed_zsets_score_key_new_def slice_def Let_def u64_from_le_bytes_def)

lemma parsed_vector_member_data_key_encoded:
  assumes "length k < 2 ^ 32"
  shows "parsed_vector_member_data_key_decode
      (1 # u32_be (word_of_nat (length k)) @ k @ u64_be i @ u64_be g @ e)
    = Inr \<lparr>vm_key = k, vm_storage_incarnation = i, vm_generation_sequence = g, vm_element = e\<rparr>"
  using assms by (simp add: parsed_vector_member_data_key_decode_def slice_def Let_def unat_of_nat)

interpretation base_key_codec: key_codec
  "\<lambda>key. base_key_encode (base_key_new key)" parsed_base_key_new "\<lambda>_. True"
  by unfold_locales auto

interpretation member_key_codec: key_codec
  member_data_key_encode parsed_member_data_key_new member_data_key_valid
  by unfold_locales
    (auto simp: member_data_key_encode_eq member_data_key_valid_def parsed_member_data_key_encoded)

interpretation lists_key_codec: key_codec
  lists_data_key_encode parsed_lists_data_key_decode lists_data_key_valid
  by unfold_locales
    (auto simp: lists_data_key_encode_eq lists_data_key_valid_def parsed_lists_data_key_encoded)

interpretation zset_score_key_codec: key_codec
  zsets_score_key_encode parsed_zsets_score_key_new zsets_score_key_valid
  by unfold_locales
    (auto simp: zsets_score_key_encode_eq zsets_score_key_valid_def parsed_zsets_score_key_encoded)

interpretation vector_key_codec: key_codec
  vector_encode_full parsed_vector_member_data_key_decode vector_member_data_key_valid
  by unfold_locales
    (auto simp: vector_encode_full_def vector_encode_key_prefix_def vector_member_data_key_valid_def
      parsed_vector_member_data_key_encoded)

section \<open>Iteration bounds\<close>

lemma prefix_upper_bound_loop_snoc:
  "prefix_upper_bound_loop (xs @ [b]) =
     (case prefix_upper_bound_loop xs of
        Some u \<Rightarrow> Some (u @ [b])
      | None \<Rightarrow> if b = 255 then None else Some [b + 1])"
  by (induction xs) auto

lemma prefix_upper_bound_Nil [simp]: "prefix_upper_bound [] = None"
  by (simp add: prefix_upper_bound_def)

lemma prefix_upper_bound_Cons [simp]:
  "prefix_upper_bound (b # p) =
     (case prefix_upper_bound p of
        Some u \<Rightarrow> Some (b # u)
      | None \<Rightarrow> if b = 255 then None else Some [b + 1])"
  by (auto simp: prefix_upper_bound_def prefix_upper_bound_loop_snoc split: option.splits)

lemma byte_less_succ: "b \<noteq> 255 \<Longrightarrow> c < b + 1 \<longleftrightarrow> c \<le> (b :: byte)"
proof -
  assume "b \<noteq> 255"
  then have "unat b \<noteq> 255" by (simp add: word_unat_eq_iff)
  with unsigned_less [where 'a = nat, of b] show ?thesis
    by (simp add: word_less_nat_alt word_le_nat_alt unat_word_ariths less_Suc_eq_le)
qed

lemma byte_le_255: "c \<le> (255 :: byte)"
  using unsigned_less [where 'a = nat, of c] by (simp add: word_le_nat_alt)

lemma prefix_iff_in_range:
  "prefix p x \<longleftrightarrow> bytes_cmp p x \<noteq> Greater
     \<and> (case prefix_upper_bound p of None \<Rightarrow> True | Some u \<Rightarrow> bytes_cmp x u = Less)"
proof (induction p arbitrary: x)
  case Nil
  then show ?case by (cases x) simp_all
next
  case (Cons b p)
  show ?case
  proof (cases x)
    case Nil
    then show ?thesis by simp
  next
    case (Cons c xs)
    then show ?thesis
      using Cons.IH [of xs] byte_less_succ [of b c] byte_le_255 [of c]
      by (cases xs) (auto simp: cmp_of_def then_cmp_def split: option.splits if_splits)
  qed
qed

lemma vector_prefix_iff:
  assumes "length key < 2 ^ 32" and "length key' < 2 ^ 32"
  shows "prefix (u32_be (word_of_nat (length key)) @ key @ u64_be i @ u64_be g)
           (u32_be (word_of_nat (length key')) @ key' @ u64_be i' @ u64_be g' @ e)
         \<longleftrightarrow> key = key' \<and> i = i' \<and> g = g'"
proof
  assume "prefix (u32_be (word_of_nat (length key)) @ key @ u64_be i @ u64_be g)
           (u32_be (word_of_nat (length key')) @ key' @ u64_be i' @ u64_be g' @ e)"
  then obtain z where eq: "u32_be (word_of_nat (length key')) @ key' @ u64_be i' @ u64_be g' @ e
      = u32_be (word_of_nat (length key)) @ key @ u64_be i @ u64_be g @ z"
    by (auto simp: prefix_def)
  then have "unat (word_of_nat (length key') :: u32) = unat (word_of_nat (length key) :: u32)" by simp
  with assms have "length key' = length key" by (simp add: unat_of_nat)
  with eq show "key = key' \<and> i = i' \<and> g = g'" by simp
qed auto

section \<open>Properties of the key formats\<close>

text \<open>C6: parsing an encoded key gives back every field of it: a user key with any bytes (zeros
  included) survives the meta key, and the version, index, score and member survive the data keys of
  lists, hashes, sets and zsets. A vector-set key either round trips or is refused when its user key
  does not fit the \<open>u32\<close> length field.\<close>

theorem key_formats_roundtrip:
  "rbind (base_key_encode (base_key_new key)) parsed_base_key_new = Inr key
   \<and> rbind (member_data_key_encode (member_data_key_new key version data)) parsed_member_data_key_new
      = Inr (member_data_key_new key version data)
   \<and> rbind (lists_data_key_encode (lists_data_key_new key version index)) parsed_lists_data_key_decode
      = Inr (lists_data_key_new key version index)
   \<and> rbind (zsets_score_key_encode (zsets_score_key_new key version score data))
        parsed_zsets_score_key_new = Inr (zsets_score_key_new key version score data)
   \<and> rbind (vector_encode_full vk) parsed_vector_member_data_key_decode
      = (if length (vm_key vk) < 2 ^ 32 then Inr vk
         else Inl (InvalidArgument ''vector member key too long''))"
proof (intro conjI)
  show "rbind (base_key_encode (base_key_new key)) parsed_base_key_new = Inr key"
    by (rule base_key_codec.rbind_parse_encode) simp
  show "rbind (member_data_key_encode (member_data_key_new key version data))
      parsed_member_data_key_new = Inr (member_data_key_new key version data)"
    by (rule member_key_codec.rbind_parse_encode)
      (simp add: member_data_key_valid_def member_data_key_new_def)
  show "rbind (lists_data_key_encode (lists_data_key_new key version index))
      parsed_lists_data_key_decode = Inr (lists_data_key_new key version index)"
    by (rule lists_key_codec.rbind_parse_encode)
      (simp add: lists_data_key_valid_def lists_data_key_new_def lists_data_key_with_reserves_def)
  show "rbind (zsets_score_key_encode (zsets_score_key_new key version score data))
      parsed_zsets_score_key_new = Inr (zsets_score_key_new key version score data)"
    by (rule zset_score_key_codec.rbind_parse_encode)
      (simp add: zsets_score_key_valid_def zsets_score_key_new_def)
  show "rbind (vector_encode_full vk) parsed_vector_member_data_key_decode
      = (if length (vm_key vk) < 2 ^ 32 then Inr vk
         else Inl (InvalidArgument ''vector member key too long''))"
    using vector_key_codec.rbind_parse_encode [of vk]
    by (simp add: vector_member_data_key_valid_def vector_encode_full_def vector_encode_key_prefix_def)
qed

text \<open>C7: the seek key of a hash, set or zset with an empty member is a prefix of a member key exactly
  when the member belongs to the same user key and the same version, so a prefix iteration visits the
  live members of one collection and nothing else.\<close>

theorem member_prefix_iteration_exact:
  assumes "member_data_key_encode_seek_key (member_data_key_new key version []) = Inr p"
    and "member_data_key_encode (member_data_key_new key' version' data) = Inr b"
  shows "prefix p b \<longleftrightarrow> key' = key \<and> version' = version"
  using assms
  by (auto simp: member_data_key_encode_seek_key_eq member_data_key_encode_eq member_data_key_new_def
      prefix_def)

theorem member_prefix_iteration_exact_witness:
  "prefix (replicate 8 0 @ [7, 0, 1, 0, 0] @ u64_le 5)
     (replicate 8 0 @ [7, 0, 1, 0, 0] @ u64_le 5 @ [9] @ replicate 16 0)"
proof -
  have "member_data_key_encode_seek_key (member_data_key_new [7, 0] 5 [])
      = Inr (replicate 8 0 @ [7, 0, 1, 0, 0] @ u64_le 5)"
    by (simp add: member_data_key_encode_seek_key_eq member_data_key_new_def encoded_user_key_def)
  moreover have "member_data_key_encode (member_data_key_new [7, 0] 5 [9])
      = Inr (replicate 8 0 @ [7, 0, 1, 0, 0] @ u64_le 5 @ [9] @ replicate 16 0)"
    by (simp add: member_data_key_encode_eq member_data_key_new_def encoded_user_key_def)
  ultimately show ?thesis using member_prefix_iteration_exact by blast
qed

text \<open>C8: the range scan over one generation of a vector set, from its prefix to the exclusive
  \<open>prefix_upper_bound\<close> of the prefix (unbounded when there is none) in bytewise order, visits exactly
  the members of that user key, storage incarnation and generation.\<close>

theorem vector_range_scan_exact:
  assumes "vector_encode_prefix key incarnation generation = Inr p"
    and "vector_encode_full k = Inr x"
  shows "(bytes_cmp p x \<noteq> Greater
      \<and> (case prefix_upper_bound p of None \<Rightarrow> True | Some u \<Rightarrow> bytes_cmp x u = Less))
    \<longleftrightarrow> vm_key k = key \<and> vm_storage_incarnation k = incarnation
        \<and> vm_generation_sequence k = generation"
proof -
  have "(bytes_cmp p x \<noteq> Greater
      \<and> (case prefix_upper_bound p of None \<Rightarrow> True | Some u \<Rightarrow> bytes_cmp x u = Less)) \<longleftrightarrow> prefix p x"
    by (simp only: prefix_iff_in_range)
  also have "\<dots> \<longleftrightarrow> vm_key k = key \<and> vm_storage_incarnation k = incarnation
      \<and> vm_generation_sequence k = generation"
    using assms vector_prefix_iff [of key "vm_key k" incarnation generation]
    by (auto simp: vector_encode_prefix_def vector_encode_full_def vector_encode_key_prefix_def
        rbind_eq_Inr split: if_splits)
  finally show ?thesis .
qed

theorem vector_range_scan_exact_witness:
  "case prefix_upper_bound ([1] @ u32_be 1 @ [255] @ u64_be 3 @ u64_be 4) of
     None \<Rightarrow> False
   | Some u \<Rightarrow> bytes_cmp ([1] @ u32_be 1 @ [255] @ u64_be 3 @ u64_be 4 @ [255, 255]) u = Less"
proof -
  have "vector_encode_prefix [255] 3 4 = Inr ([1] @ u32_be 1 @ [255] @ u64_be 3 @ u64_be 4)"
    by (simp add: vector_encode_prefix_def vector_encode_key_prefix_def)
  moreover have "vector_encode_full \<lparr>vm_key = [255], vm_storage_incarnation = 3,
      vm_generation_sequence = 4, vm_element = [255, 255]\<rparr>
    = Inr ([1] @ u32_be 1 @ [255] @ u64_be 3 @ u64_be 4 @ [255, 255])"
    by (simp add: vector_encode_full_def vector_encode_key_prefix_def)
  ultimately show ?thesis
    using vector_range_scan_exact by (fastforce split: option.splits)
qed

end
