(* ===== verification/Write_Batch.thy ===== *)
theory Write_Batch
  imports Format_Values Format_Keys
begin

text \<open>
  Atomic write batches: the column families (\<^verbatim>\<open>src/storage/src/redis.rs\<close>), the binlog types
  shared with Raft (\<^verbatim>\<open>src/conf/src/raft_type.rs\<close>), slots
  (\<^verbatim>\<open>src/storage/src/slot_indexer.rs\<close>) and the two implementations of the \<open>Batch\<close> trait
  (\<^verbatim>\<open>src/storage/src/batch.rs\<close>): \<open>RocksBatch\<close> writes to RocksDB, \<open>BinlogBatch\<close> hands a binlog
  to the Raft layer. RocksDB is the parameter \<open>rocks_db\<close>, a record of the functions the code calls;
  CRC16 is the parameter \<open>crc16\<close>, and the propose callback \<open>append_log_fn\<close> is one too. What they
  are relied on for is the hypothesis \<open>rocks_ok\<close>. The failure injection compiled only into tests is
  left out.
\<close>

section \<open>Column families\<close>

datatype column_family =
  MetaCF | HashesDataCF | SetsDataCF | ListsDataCF | ZsetsDataCF | ZsetsScoreCF | VectorDataCF

abbreviation CF_COUNT :: nat where "CF_COUNT \<equiv> 7"

primrec cf_index_to_usize :: "column_family \<Rightarrow> nat" where
  "cf_index_to_usize MetaCF = 0"
| "cf_index_to_usize HashesDataCF = 1"
| "cf_index_to_usize SetsDataCF = 2"
| "cf_index_to_usize ListsDataCF = 3"
| "cf_index_to_usize ZsetsDataCF = 4"
| "cf_index_to_usize ZsetsScoreCF = 5"
| "cf_index_to_usize VectorDataCF = 6"

text \<open>The cast \<open>cf_idx as u32\<close>.\<close>

definition cf_u32 :: "column_family \<Rightarrow> u32" where
  "cf_u32 cf = word_of_nat (cf_index_to_usize cf)"

definition all_cfs :: "column_family list" where
  "all_cfs = [MetaCF, HashesDataCF, SetsDataCF, ListsDataCF, ZsetsDataCF, ZsetsScoreCF, VectorDataCF]"

primrec cf_name :: "column_family \<Rightarrow> string" where
  "cf_name MetaCF = ''default''"
| "cf_name HashesDataCF = ''hash_data_cf''"
| "cf_name SetsDataCF = ''set_data_cf''"
| "cf_name ListsDataCF = ''list_data_cf''"
| "cf_name ZsetsDataCF = ''zset_data_cf''"
| "cf_name ZsetsScoreCF = ''zset_score_cf''"
| "cf_name VectorDataCF = ''vector_data_cf''"

primrec cf_data_type :: "column_family \<Rightarrow> data_type option" where
  "cf_data_type MetaCF = None"
| "cf_data_type HashesDataCF = Some THash"
| "cf_data_type SetsDataCF = Some TSet"
| "cf_data_type ListsDataCF = Some TList"
| "cf_data_type ZsetsDataCF = Some TZSet"
| "cf_data_type ZsetsScoreCF = Some TZSet"
| "cf_data_type VectorDataCF = Some TVectorSet"

definition cf_from_u32 :: "u32 \<Rightarrow> column_family option" where
  "cf_from_u32 v =
     (if v = 0 then Some MetaCF else if v = 1 then Some HashesDataCF
      else if v = 2 then Some SetsDataCF else if v = 3 then Some ListsDataCF
      else if v = 4 then Some ZsetsDataCF else if v = 5 then Some ZsetsScoreCF
      else if v = 6 then Some VectorDataCF else None)"

section \<open>Binlogs\<close>

datatype operate_type = NoOp | Put | Delete

record binlog_entry =
  be_cf_idx :: u32
  be_op_type :: operate_type
  be_key :: bytes
  be_value :: "bytes option"

record binlog =
  bl_db_id :: u32
  bl_slot_idx :: u32
  bl_entries :: "binlog_entry list"

record binlog_response =
  br_success :: bool
  br_message :: "string option"
  br_log_id :: "u64 option"

definition binlog_response_ok :: binlog_response where
  "binlog_response_ok = \<lparr>br_success = True, br_message = None, br_log_id = None\<rparr>"

definition binlog_response_error :: "string \<Rightarrow> binlog_response" where
  "binlog_response_error msg = \<lparr>br_success = False, br_message = Some msg, br_log_id = None\<rparr>"

section \<open>Slots\<close>

abbreviation SLOT_INDEXER_INSTANCE_NUM :: nat where "SLOT_INDEXER_INSTANCE_NUM \<equiv> 3"

record slot_indexer =
  instance_num :: nat

definition slot_indexer_default :: slot_indexer where
  "slot_indexer_default = \<lparr>instance_num = SLOT_INDEXER_INSTANCE_NUM\<rparr>"

definition slot_indexer_new :: "nat \<Rightarrow> slot_indexer result" where
  "slot_indexer_new n =
     rbind (ensure (n > 0) (Panic ''Instance number must be greater than zero.'')) (\<lambda>_.
     Inr \<lparr>instance_num = n\<rparr>)"

definition get_instance_id :: "slot_indexer \<Rightarrow> nat \<Rightarrow> nat" where
  "get_instance_id si slot_id = slot_id mod instance_num si"

definition reshard_slots :: "slot_indexer \<Rightarrow> nat list \<Rightarrow> unit result" where
  "reshard_slots si slots = Inl (System ''reshard_slots not implemented yet'')"

definition key_to_slot_id :: "(bytes \<Rightarrow> u16) \<Rightarrow> bytes \<Rightarrow> nat" where
  "key_to_slot_id crc16 key = unat (crc16 key)"

section \<open>RocksDB\<close>

text \<open>An operation of a \<open>WriteBatch\<close> names its column family by the handle, which is the family's
  name here.\<close>

datatype write_op = WPut string bytes bytes | WDelete string bytes

text \<open>Where an iterator starts and in which direction it goes.\<close>

datatype iter_direction = Forward | Reverse

datatype iter_mode = IterStart | IterFrom bytes iter_direction

record 'db rocks_db =
  rk_get :: "'db \<Rightarrow> string \<Rightarrow> bytes \<Rightarrow> string + bytes option"
  rk_write :: "'db \<Rightarrow> write_op list \<Rightarrow> (string + unit) \<times> 'db"
  rk_cf_handle :: "'db \<Rightarrow> string \<Rightarrow> string option"
  rk_iter :: "'db \<Rightarrow> string \<Rightarrow> iter_mode \<Rightarrow> (string + bytes \<times> bytes) list"

text \<open>\<open>.context(RocksSnafu)\<close>.\<close>

definition rocks_context :: "string + 'a \<Rightarrow> 'a result" where
  "rocks_context r = (case r of Inl m \<Rightarrow> Inl (Rocks m) | Inr x \<Rightarrow> Inr x)"

section \<open>RocksBatch\<close>

record rocks_batch =
  rb_inner :: "write_op list"
  rb_cf_handles :: "string option list"
  rb_count :: u32

definition rocks_batch_new :: "string option list \<Rightarrow> rocks_batch result" where
  "rocks_batch_new cf_handles =
     rbind (ensure (length cf_handles = CF_COUNT) (Panic ''cf_handles length must match COUNT'')) (\<lambda>_.
     Inr \<lparr>rb_inner = [], rb_cf_handles = cf_handles, rb_count = 0\<rparr>)"

definition get_cf_handle :: "string option list \<Rightarrow> column_family \<Rightarrow> string result" where
  "get_cf_handle cf_handles cf_idx =
     (let idx = cf_index_to_usize cf_idx in
      case (if idx < length cf_handles then cf_handles ! idx else None) of
        Some h \<Rightarrow> Inr h
      | None \<Rightarrow> Inl (error.Batch ''Column family handle is None''))"

definition rocks_batch_put ::
  "column_family \<Rightarrow> bytes \<Rightarrow> bytes \<Rightarrow> rocks_batch \<Rightarrow> rocks_batch result" where
  "rocks_batch_put cf_idx key value b =
     rbind (get_cf_handle (rb_cf_handles b) cf_idx) (\<lambda>cf.
     Inr (b\<lparr>rb_inner := rb_inner b @ [WPut cf key value], rb_count := rb_count b + 1\<rparr>))"

definition rocks_batch_delete ::
  "column_family \<Rightarrow> bytes \<Rightarrow> rocks_batch \<Rightarrow> rocks_batch result" where
  "rocks_batch_delete cf_idx key b =
     rbind (get_cf_handle (rb_cf_handles b) cf_idx) (\<lambda>cf.
     Inr (b\<lparr>rb_inner := rb_inner b @ [WDelete cf key], rb_count := rb_count b + 1\<rparr>))"

definition rocks_batch_commit :: "'db rocks_db \<Rightarrow> rocks_batch \<Rightarrow> 'db \<Rightarrow> unit result \<times> 'db" where
  "rocks_batch_commit R b db = (let (r, db') = rk_write R db (rb_inner b) in (rocks_context r, db'))"

definition rocks_batch_clear :: "rocks_batch \<Rightarrow> rocks_batch" where
  "rocks_batch_clear b = b\<lparr>rb_inner := [], rb_count := 0\<rparr>"

section \<open>BinlogBatch\<close>

text \<open>The propose callback; the entries it gets applied are written to the database it is given.\<close>

type_synonym 'db append_log_fn = "binlog \<Rightarrow> 'db \<Rightarrow> (string + binlog_response) \<times> 'db"

record 'db binlog_batch =
  bb_append_log_fn :: "'db append_log_fn"
  bb_entries :: "binlog_entry list"

definition binlog_batch_new :: "'db append_log_fn \<Rightarrow> 'db binlog_batch" where
  "binlog_batch_new f = \<lparr>bb_append_log_fn = f, bb_entries = []\<rparr>"

definition infer_tail_length :: "u32 \<Rightarrow> nat result" where
  "infer_tail_length cf_idx =
     (if cf_idx = cf_u32 MetaCF then Inr SUFFIX_RESERVE_LENGTH
      else if cf_idx = cf_u32 HashesDataCF \<or> cf_idx = cf_u32 SetsDataCF \<or> cf_idx = cf_u32 ZsetsDataCF
      then Inr (VERSION_LENGTH + SUFFIX_RESERVE_LENGTH)
      else if cf_idx = cf_u32 ListsDataCF then Inr (2 * VERSION_LENGTH + SUFFIX_RESERVE_LENGTH)
      else if cf_idx = cf_u32 ZsetsScoreCF then Inr (2 * VERSION_LENGTH + SUFFIX_RESERVE_LENGTH)
      else Inl (InvalidFormat ''Invalid column family index''))"

definition infer_user_key :: "u32 \<Rightarrow> bytes \<Rightarrow> bytes result" where
  "infer_user_key cf_idx encoded_key =
     (if cf_idx = cf_u32 VectorDataCF
      then rbind (parsed_vector_member_data_key_decode encoded_key) (\<lambda>parsed. Inr (vm_key parsed))
      else
      rbind (infer_tail_length cf_idx) (\<lambda>tail_length.
      if length encoded_key < PREFIX_RESERVE_LENGTH + 2 + tail_length
      then Inl (InvalidFormat ''Encoded key is too short for column family'') else
      rbind (slice encoded_key PREFIX_RESERVE_LENGTH (length encoded_key)) (\<lambda>key_part.
      let key_part_end = seek_userkey_delim key_part in
      if key_part_end = length key_part
      then Inl (InvalidFormat ''Encoded key delimiter not found while inferring binlog slot'') else
      let remaining = length key_part - key_part_end;
          has_valid_tail =
            (if cf_idx = cf_u32 MetaCF \<or> cf_idx = cf_u32 ListsDataCF then remaining = tail_length
             else remaining \<ge> tail_length) in
      if \<not> has_valid_tail
      then Inl (InvalidFormat ''Encoded key has invalid physical layout for column family'') else
      rbind (slice key_part 0 key_part_end) (\<lambda>part. decode_user_key part []))))"

definition validate_entry :: "(bytes \<Rightarrow> u16) \<Rightarrow> u32 \<Rightarrow> binlog_entry \<Rightarrow> unit result" where
  "validate_entry crc16 slot_idx entry =
     rbind (case (be_op_type entry, be_value entry) of
              (Put, Some _) \<Rightarrow> Inr ()
            | (Delete, None) \<Rightarrow> Inr ()
            | (Put, None) \<Rightarrow> Inl (InvalidFormat ''Put binlog entry must contain a value'')
            | (Delete, Some _) \<Rightarrow> Inl (InvalidFormat ''Delete binlog entry must not contain a value'')
            | (NoOp, _) \<Rightarrow> Inl (InvalidFormat ''Normal Raft binlog cannot contain NoOp entries'')) (\<lambda>_.
     rbind (infer_user_key (be_cf_idx entry) (be_key entry)) (\<lambda>user_key.
     let actual_slot = word_of_nat (key_to_slot_id crc16 user_key) :: u32 in
     if actual_slot \<noteq> slot_idx
     then Inl (InvalidFormat ''Binlog slot does not match encoded key slot'')
     else Inr ()))"

primrec validate_entries :: "(bytes \<Rightarrow> u16) \<Rightarrow> u32 \<Rightarrow> binlog_entry list \<Rightarrow> unit result" where
  "validate_entries crc16 slot_idx [] = Inr ()"
| "validate_entries crc16 slot_idx (entry # entries) =
     rbind (validate_entry crc16 slot_idx entry) (\<lambda>_. validate_entries crc16 slot_idx entries)"

definition validate_binlog_entries :: "(bytes \<Rightarrow> u16) \<Rightarrow> binlog \<Rightarrow> unit result" where
  "validate_binlog_entries crc16 bl =
     (if bl_entries bl = [] then Inl (InvalidFormat ''Raft binlog must contain at least one entry'')
      else validate_entries crc16 (bl_slot_idx bl) (bl_entries bl))"

primrec infer_slot_idx_loop ::
  "(bytes \<Rightarrow> u16) \<Rightarrow> u32 option \<Rightarrow> binlog_entry list \<Rightarrow> u32 option result" where
  "infer_slot_idx_loop crc16 inferred_slot [] = Inr inferred_slot"
| "infer_slot_idx_loop crc16 inferred_slot (entry # entries) =
     rbind (infer_user_key (be_cf_idx entry) (be_key entry)) (\<lambda>user_key.
     let slot = word_of_nat (key_to_slot_id crc16 user_key) :: u32 in
     case inferred_slot of
       Some existing \<Rightarrow>
         if existing \<noteq> slot
         then Inl (error.Batch ''CROSSSLOT binlog batch contains multiple slots'')
         else infer_slot_idx_loop crc16 inferred_slot entries
     | None \<Rightarrow> infer_slot_idx_loop crc16 (Some slot) entries)"

definition infer_slot_idx :: "(bytes \<Rightarrow> u16) \<Rightarrow> binlog_entry list \<Rightarrow> u32 result" where
  "infer_slot_idx crc16 entries =
     rbind (infer_slot_idx_loop crc16 None entries) (\<lambda>inferred_slot.
     case inferred_slot of
       Some slot \<Rightarrow> Inr slot
     | None \<Rightarrow> Inl (error.Batch ''Cannot infer slot for empty binlog batch''))"

definition binlog_batch_put ::
  "column_family \<Rightarrow> bytes \<Rightarrow> bytes \<Rightarrow> 'db binlog_batch \<Rightarrow> 'db binlog_batch result" where
  "binlog_batch_put cf_idx key value b =
     Inr (b\<lparr>bb_entries := bb_entries b @
       [\<lparr>be_cf_idx = cf_u32 cf_idx, be_op_type = Put, be_key = key, be_value = Some value\<rparr>]\<rparr>)"

definition binlog_batch_delete ::
  "column_family \<Rightarrow> bytes \<Rightarrow> 'db binlog_batch \<Rightarrow> 'db binlog_batch result" where
  "binlog_batch_delete cf_idx key b =
     Inr (b\<lparr>bb_entries := bb_entries b @
       [\<lparr>be_cf_idx = cf_u32 cf_idx, be_op_type = Delete, be_key = key, be_value = None\<rparr>]\<rparr>)"

definition binlog_batch_commit ::
  "(bytes \<Rightarrow> u16) \<Rightarrow> 'db binlog_batch \<Rightarrow> 'db \<Rightarrow> unit result \<times> 'db" where
  "binlog_batch_commit crc16 b db =
     (if bb_entries b = [] then (Inr (), db) else
      case infer_slot_idx crc16 (bb_entries b) of
        Inl e \<Rightarrow> (Inl e, db)
      | Inr slot_idx \<Rightarrow>
        (let bl = \<lparr>bl_db_id = 0, bl_slot_idx = slot_idx, bl_entries = bb_entries b\<rparr> in
         case bb_append_log_fn b bl db of
           (Inl message, db') \<Rightarrow> (Inl (error.Batch message), db')
         | (Inr resp, db') \<Rightarrow>
             if br_success resp then (Inr (), db')
             else (Inl (error.Batch (case br_message resp of Some m \<Rightarrow> m | None \<Rightarrow> ''raft propose failed'')),
                   db')))"

definition binlog_batch_count :: "'db binlog_batch \<Rightarrow> u32" where
  "binlog_batch_count b = word_of_nat (length (bb_entries b))"

definition binlog_batch_clear :: "'db binlog_batch \<Rightarrow> 'db binlog_batch" where
  "binlog_batch_clear b = b\<lparr>bb_entries := []\<rparr>"

section \<open>The trait object\<close>

datatype 'db batch = RocksB rocks_batch | BinlogB "'db binlog_batch"

fun batch_put :: "column_family \<Rightarrow> bytes \<Rightarrow> bytes \<Rightarrow> 'db batch \<Rightarrow> 'db batch result" where
  "batch_put cf k v (RocksB b) = rbind (rocks_batch_put cf k v b) (\<lambda>b'. Inr (RocksB b'))"
| "batch_put cf k v (BinlogB b) = rbind (binlog_batch_put cf k v b) (\<lambda>b'. Inr (BinlogB b'))"

fun batch_delete :: "column_family \<Rightarrow> bytes \<Rightarrow> 'db batch \<Rightarrow> 'db batch result" where
  "batch_delete cf k (RocksB b) = rbind (rocks_batch_delete cf k b) (\<lambda>b'. Inr (RocksB b'))"
| "batch_delete cf k (BinlogB b) = rbind (binlog_batch_delete cf k b) (\<lambda>b'. Inr (BinlogB b'))"

fun batch_commit ::
  "'db rocks_db \<Rightarrow> (bytes \<Rightarrow> u16) \<Rightarrow> 'db batch \<Rightarrow> 'db \<Rightarrow> unit result \<times> 'db" where
  "batch_commit R crc16 (RocksB b) db = rocks_batch_commit R b db"
| "batch_commit R crc16 (BinlogB b) db = binlog_batch_commit crc16 b db"

fun batch_count :: "'db batch \<Rightarrow> u32" where
  "batch_count (RocksB b) = rb_count b"
| "batch_count (BinlogB b) = binlog_batch_count b"

fun batch_clear :: "'db batch \<Rightarrow> 'db batch" where
  "batch_clear (RocksB b) = RocksB (rocks_batch_clear b)"
| "batch_clear (BinlogB b) = BinlogB (binlog_batch_clear b)"

section \<open>What a committed batch does\<close>

text \<open>The contents of a database: what each column family holds under each key.\<close>

type_synonym contents = "string \<Rightarrow> bytes \<Rightarrow> bytes option"

fun apply_op :: "write_op \<Rightarrow> contents \<Rightarrow> contents" where
  "apply_op (WPut cf k v) V = V(cf := (V cf)(k := Some v))"
| "apply_op (WDelete cf k) V = V(cf := (V cf)(k := None))"

definition apply_ops :: "write_op list \<Rightarrow> contents \<Rightarrow> contents" where
  "apply_ops ops V = fold apply_op ops V"

text \<open>
  What the code relies on of RocksDB: the seven column families are open, a read returns what is
  stored, and a write applies the whole batch in order.
\<close>

definition rocks_ok :: "'db rocks_db \<Rightarrow> ('db \<Rightarrow> contents) \<Rightarrow> bool" where
  "rocks_ok R view \<longleftrightarrow>
     (\<forall>db cf k. rk_get R db cf k = Inr (view db cf k))
     \<and> (\<forall>db ops. \<exists>db'. rk_write R db ops = (Inr (), db') \<and> view db' = apply_ops ops (view db))
     \<and> (\<forall>db cf. rk_cf_handle R db (cf_name cf) = Some (cf_name cf))"

text \<open>The database of the witnesses: its contents. Its iterators are empty; it serves the commands that
  read by key.\<close>

definition map_rocks :: "contents rocks_db" where
  "map_rocks =
     \<lparr>rk_get = (\<lambda>V cf k. Inr (V cf k)), rk_write = (\<lambda>V ops. (Inr (), apply_ops ops V)),
      rk_cf_handle = (\<lambda>_ name. Some name), rk_iter = (\<lambda>_ _ _. [])\<rparr>"

lemma rocks_ok_map: "rocks_ok map_rocks (\<lambda>V. V)"
  by (simp add: rocks_ok_def map_rocks_def)

lemma apply_ops_simps [simp]:
  "apply_ops [] V = V"
  "apply_ops (op # ops) V = apply_ops ops (apply_op op V)"
  "apply_ops (ops @ ops') V = apply_ops ops' (apply_ops ops V)"
  by (simp_all add: apply_ops_def)

lemma rocks_okD:
  assumes "rocks_ok R view"
  shows "rk_get R db cf k = Inr (view db cf k)"
    and "\<exists>db'. rk_write R db ops = (Inr (), db') \<and> view db' = apply_ops ops (view db)"
    and "rk_cf_handle R db (cf_name c) = Some (cf_name c)"
  using assms by (simp_all add: rocks_ok_def)

lemma cf_name_inject [simp]: "cf_name a = cf_name b \<longleftrightarrow> a = b"
  by (cases a; cases b) simp_all

lemma cf_from_u32_cf_u32 [simp]: "cf_from_u32 (cf_u32 cf) = Some cf"
  by (cases cf) (simp_all add: cf_from_u32_def cf_u32_def)

section \<open>The interface of a batch\<close>

text \<open>What a client of the \<open>Batch\<close> trait relies on: put and delete append one operation, and a
  commit applies the operations in the order in which they were added, all of them or, when it
  fails, none that the client is told of.\<close>

datatype batch_op = BPut column_family bytes bytes | BDelete column_family bytes

primrec write_op_of :: "batch_op \<Rightarrow> write_op" where
  "write_op_of (BPut cf k v) = WPut (cf_name cf) k v"
| "write_op_of (BDelete cf k) = WDelete (cf_name cf) k"

locale batch_impl =
  fixes put :: "column_family \<Rightarrow> bytes \<Rightarrow> bytes \<Rightarrow> 'b \<Rightarrow> 'b result"
    and delete :: "column_family \<Rightarrow> bytes \<Rightarrow> 'b \<Rightarrow> 'b result"
    and commit :: "'b \<Rightarrow> 'db \<Rightarrow> unit result \<times> 'db"
    and view :: "'db \<Rightarrow> contents"
    and key_ok :: "column_family \<Rightarrow> bytes \<Rightarrow> bool"
    and holds :: "'b \<Rightarrow> write_op list \<Rightarrow> bool"
  assumes put_law: "holds b ops \<Longrightarrow> key_ok cf k \<Longrightarrow>
      \<exists>b'. put cf k v b = Inr b' \<and> holds b' (ops @ [WPut (cf_name cf) k v])"
    and delete_law: "holds b ops \<Longrightarrow> key_ok cf k \<Longrightarrow>
      \<exists>b'. delete cf k b = Inr b' \<and> holds b' (ops @ [WDelete (cf_name cf) k])"
    and commit_law: "holds b ops \<Longrightarrow>
      \<exists>db'. commit b db = (Inr (), db') \<and> view db' = apply_ops ops (view db)"

primrec batch_op_key_ok :: "(column_family \<Rightarrow> bytes \<Rightarrow> bool) \<Rightarrow> batch_op \<Rightarrow> bool" where
  "batch_op_key_ok key_ok (BPut cf k v) = key_ok cf k"
| "batch_op_key_ok key_ok (BDelete cf k) = key_ok cf k"

primrec add_op ::
  "(column_family \<Rightarrow> bytes \<Rightarrow> bytes \<Rightarrow> 'b \<Rightarrow> 'b result) \<Rightarrow> (column_family \<Rightarrow> bytes \<Rightarrow> 'b \<Rightarrow> 'b result)
     \<Rightarrow> batch_op \<Rightarrow> 'b \<Rightarrow> 'b result" where
  "add_op put delete (BPut cf k v) b = put cf k v b"
| "add_op put delete (BDelete cf k) b = delete cf k b"

primrec add_ops ::
  "(column_family \<Rightarrow> bytes \<Rightarrow> bytes \<Rightarrow> 'b \<Rightarrow> 'b result) \<Rightarrow> (column_family \<Rightarrow> bytes \<Rightarrow> 'b \<Rightarrow> 'b result)
     \<Rightarrow> batch_op list \<Rightarrow> 'b \<Rightarrow> 'b result" where
  "add_ops put delete [] b = Inr b"
| "add_ops put delete (op # ops) b = rbind (add_op put delete op b) (add_ops put delete ops)"

context batch_impl
begin

lemma add_op_law:
  assumes "holds b ops" and "batch_op_key_ok key_ok op"
  shows "\<exists>b'. add_op put delete op b = Inr b' \<and> holds b' (ops @ [write_op_of op])"
  using assms put_law delete_law by (cases op) auto

lemma add_ops_law:
  assumes "holds b ops" and "list_all (batch_op_key_ok key_ok) new"
  shows "\<exists>b'. add_ops put delete new b = Inr b' \<and> holds b' (ops @ map write_op_of new)"
  using assms
proof (induction new arbitrary: b ops)
  case (Cons op new)
  then obtain b1 where "add_op put delete op b = Inr b1" "holds b1 (ops @ [write_op_of op])"
    using add_op_law [of b ops op] by auto
  with Cons show ?case by fastforce
qed auto

lemma commit_applies:
  assumes "holds b []" and "list_all (batch_op_key_ok key_ok) ops"
  shows "\<exists>b' db'. add_ops put delete ops b = Inr b' \<and> commit b' db = (Inr (), db')
    \<and> view db' = apply_ops (map write_op_of ops) (view db)"
  using add_ops_law [OF assms] commit_law by fastforce

end

section \<open>The standalone batch\<close>

definition rocks_holds ::
  "'db rocks_db \<Rightarrow> ('db \<Rightarrow> contents) \<Rightarrow> rocks_batch \<Rightarrow> write_op list \<Rightarrow> bool" where
  "rocks_holds R view b ops \<longleftrightarrow> rocks_ok R view \<and> rb_inner b = ops
     \<and> rb_cf_handles b = map (\<lambda>cf. Some (cf_name cf)) all_cfs"

lemma get_cf_handle_all [simp]:
  "get_cf_handle (map (\<lambda>cf. Some (cf_name cf)) all_cfs) cf = Inr (cf_name cf)"
  by (cases cf) (simp_all add: get_cf_handle_def all_cfs_def Let_def)

interpretation rocks_impl: batch_impl rocks_batch_put rocks_batch_delete "rocks_batch_commit R" view
  "\<lambda>_ _. True" "rocks_holds R view" for R :: "'db rocks_db" and view :: "'db \<Rightarrow> contents"
proof unfold_locales
  show "\<exists>b'. rocks_batch_put cf k v b = Inr b' \<and> rocks_holds R view b' (ops @ [WPut (cf_name cf) k v])"
    if "rocks_holds R view b ops" for b ops cf k v
    using that by (simp add: rocks_holds_def rocks_batch_put_def)
  show "\<exists>b'. rocks_batch_delete cf k b = Inr b' \<and> rocks_holds R view b' (ops @ [WDelete (cf_name cf) k])"
    if "rocks_holds R view b ops" for b ops cf k
    using that by (simp add: rocks_holds_def rocks_batch_delete_def)
  show "\<exists>db'. rocks_batch_commit R b db = (Inr (), db') \<and> view db' = apply_ops ops (view db)"
    if "rocks_holds R view b ops" for b ops db
    using that rocks_okD(2) [of R view db ops]
    by (auto simp: rocks_holds_def rocks_batch_commit_def rocks_context_def)
qed

section \<open>The cluster batch\<close>

definition entry_op :: "binlog_entry \<Rightarrow> write_op" where
  "entry_op e =
     (let cf = (case cf_from_u32 (be_cf_idx e) of Some c \<Rightarrow> cf_name c | None \<Rightarrow> []) in
      case be_value e of Some v \<Rightarrow> WPut cf (be_key e) v | None \<Rightarrow> WDelete cf (be_key e))"

text \<open>What is relied on of the propose callback: a valid binlog is accepted and its entries are
  applied in order.\<close>

definition append_ok ::
  "(bytes \<Rightarrow> u16) \<Rightarrow> ('db \<Rightarrow> contents) \<Rightarrow> 'db append_log_fn \<Rightarrow> bool" where
  "append_ok crc16 view f \<longleftrightarrow>
     (\<forall>bl db. bl_db_id bl = 0 \<longrightarrow> validate_binlog_entries crc16 bl = Inr () \<longrightarrow>
        (\<exists>resp db'. f bl db = (Inr resp, db') \<and> br_success resp
           \<and> view db' = apply_ops (map entry_op (bl_entries bl)) (view db)))"

definition slot_of :: "(bytes \<Rightarrow> u16) \<Rightarrow> bytes \<Rightarrow> u32" where
  "slot_of crc16 user_key = word_of_nat (key_to_slot_id crc16 user_key)"

definition slot_key_ok :: "(bytes \<Rightarrow> u16) \<Rightarrow> u32 \<Rightarrow> column_family \<Rightarrow> bytes \<Rightarrow> bool" where
  "slot_key_ok crc16 slot cf k \<longleftrightarrow>
     (\<exists>user_key. infer_user_key (cf_u32 cf) k = Inr user_key \<and> slot_of crc16 user_key = slot)"

definition binlog_holds ::
  "(bytes \<Rightarrow> u16) \<Rightarrow> u32 \<Rightarrow> ('db \<Rightarrow> contents) \<Rightarrow> 'db binlog_batch \<Rightarrow> write_op list \<Rightarrow> bool" where
  "binlog_holds crc16 slot view b ops \<longleftrightarrow> append_ok crc16 view (bb_append_log_fn b)
     \<and> map entry_op (bb_entries b) = ops
     \<and> (\<forall>e \<in> set (bb_entries b). validate_entry crc16 slot e = Inr ())"

lemma append_okD:
  "append_ok crc16 view f \<Longrightarrow> bl_db_id bl = 0 \<Longrightarrow> validate_binlog_entries crc16 bl = Inr () \<Longrightarrow>
     \<exists>resp db'. f bl db = (Inr resp, db') \<and> br_success resp
       \<and> view db' = apply_ops (map entry_op (bl_entries bl)) (view db)"
  unfolding append_ok_def by blast

lemma validate_entries_all:
  "validate_entries crc16 slot es = Inr () \<longleftrightarrow> (\<forall>e \<in> set es. validate_entry crc16 slot e = Inr ())"
  by (induction es) (auto simp: rbind_eq_Inr)

lemma validate_entry_slot:
  assumes "validate_entry crc16 slot e = Inr ()"
  shows "\<exists>user_key. infer_user_key (be_cf_idx e) (be_key e) = Inr user_key
    \<and> word_of_nat (key_to_slot_id crc16 user_key) = slot"
  using assms by (auto simp: validate_entry_def rbind_eq_Inr Let_def split: if_splits)

lemma infer_slot_idx_loop_valid:
  assumes "\<forall>e \<in> set es. validate_entry crc16 slot e = Inr ()"
  shows "infer_slot_idx_loop crc16 (Some slot) es = Inr (Some slot)"
  using assms
proof (induction es)
  case (Cons e es)
  then show ?case using validate_entry_slot [of crc16 slot e] by auto
qed simp

lemma infer_slot_idx_valid:
  assumes "es \<noteq> []" and "\<forall>e \<in> set es. validate_entry crc16 slot e = Inr ()"
  shows "infer_slot_idx crc16 es = Inr slot"
proof -
  obtain e rest where es: "es = e # rest" using assms(1) by (cases es) auto
  then show ?thesis
    using assms(2) validate_entry_slot [of crc16 slot e] infer_slot_idx_loop_valid [of rest crc16 slot]
    by (auto simp: infer_slot_idx_def Let_def)
qed

interpretation binlog_impl: batch_impl binlog_batch_put binlog_batch_delete "binlog_batch_commit crc16"
  view "slot_key_ok crc16 slot" "binlog_holds crc16 slot view"
  for crc16 :: "bytes \<Rightarrow> u16" and slot :: u32 and view :: "'db \<Rightarrow> contents"
proof unfold_locales
  show "\<exists>b'. binlog_batch_put cf k v b = Inr b' \<and> binlog_holds crc16 slot view b' (ops @ [WPut (cf_name cf) k v])"
    if "binlog_holds crc16 slot view b ops" and "slot_key_ok crc16 slot cf k" for b ops cf k v
    using that
    by (auto simp: binlog_holds_def binlog_batch_put_def slot_key_ok_def entry_op_def validate_entry_def
        slot_of_def Let_def)
  show "\<exists>b'. binlog_batch_delete cf k b = Inr b' \<and> binlog_holds crc16 slot view b' (ops @ [WDelete (cf_name cf) k])"
    if "binlog_holds crc16 slot view b ops" and "slot_key_ok crc16 slot cf k" for b ops cf k
    using that
    by (auto simp: binlog_holds_def binlog_batch_delete_def slot_key_ok_def entry_op_def
        validate_entry_def slot_of_def Let_def)
  show "\<exists>db'. binlog_batch_commit crc16 b db = (Inr (), db') \<and> view db' = apply_ops ops (view db)"
    if holds: "binlog_holds crc16 slot view b ops" for b ops db
  proof (cases "bb_entries b = []")
    case True
    then show ?thesis using holds by (auto simp: binlog_batch_commit_def binlog_holds_def)
  next
    case False
    let ?bl = "\<lparr>bl_db_id = 0, bl_slot_idx = slot, bl_entries = bb_entries b\<rparr>"
    have valid: "validate_binlog_entries crc16 ?bl = Inr ()"
      using holds False
      by (simp add: validate_binlog_entries_def validate_entries_all binlog_holds_def)
    have "append_ok crc16 view (bb_append_log_fn b)" using holds by (simp add: binlog_holds_def)
    from append_okD [OF this _ valid, of db] obtain resp db' where
        "bb_append_log_fn b ?bl db = (Inr resp, db')" "br_success resp"
        "view db' = apply_ops (map entry_op (bb_entries b)) (view db)"
      by auto
    moreover have "infer_slot_idx crc16 (bb_entries b) = Inr slot"
      using infer_slot_idx_valid [OF False] holds by (simp add: binlog_holds_def)
    ultimately show ?thesis
      using False holds by (simp add: binlog_batch_commit_def binlog_holds_def Let_def)
  qed
qed

section \<open>Either batch\<close>

definition batch_holds ::
  "'db rocks_db \<Rightarrow> (bytes \<Rightarrow> u16) \<Rightarrow> u32 \<Rightarrow> ('db \<Rightarrow> contents) \<Rightarrow> 'db batch \<Rightarrow> write_op list \<Rightarrow> bool" where
  "batch_holds R crc16 slot view b ops =
     (case b of RocksB rb \<Rightarrow> rocks_holds R view rb ops | BinlogB bb \<Rightarrow> binlog_holds crc16 slot view bb ops)"

interpretation any_batch: batch_impl batch_put batch_delete "batch_commit R crc16" view
  "slot_key_ok crc16 slot" "batch_holds R crc16 slot view"
  for R :: "'db rocks_db" and crc16 :: "bytes \<Rightarrow> u16" and slot :: u32 and view :: "'db \<Rightarrow> contents"
proof unfold_locales
  fix b :: "'db batch" and ops cf k v
  assume b: "batch_holds R crc16 slot view b ops"
  show "\<exists>b'. batch_put cf k v b = Inr b' \<and> batch_holds R crc16 slot view b' (ops @ [WPut (cf_name cf) k v])"
    if k: "slot_key_ok crc16 slot cf k"
  proof (cases b)
    case (RocksB rb)
    with b obtain rb' where "rocks_batch_put cf k v rb = Inr rb'"
        "rocks_holds R view rb' (ops @ [WPut (cf_name cf) k v])"
      using rocks_impl.put_law [of R view rb ops cf k v] by (auto simp: batch_holds_def)
    with RocksB show ?thesis by (simp add: batch_holds_def)
  next
    case (BinlogB bb)
    with b obtain bb' where "binlog_batch_put cf k v bb = Inr bb'"
        "binlog_holds crc16 slot view bb' (ops @ [WPut (cf_name cf) k v])"
      using binlog_impl.put_law [of crc16 slot view bb ops cf k v] k by (auto simp: batch_holds_def)
    with BinlogB show ?thesis by (simp add: batch_holds_def)
  qed
  show "\<exists>b'. batch_delete cf k b = Inr b' \<and> batch_holds R crc16 slot view b' (ops @ [WDelete (cf_name cf) k])"
    if k: "slot_key_ok crc16 slot cf k"
  proof (cases b)
    case (RocksB rb)
    with b obtain rb' where "rocks_batch_delete cf k rb = Inr rb'"
        "rocks_holds R view rb' (ops @ [WDelete (cf_name cf) k])"
      using rocks_impl.delete_law [of R view rb ops cf k] by (auto simp: batch_holds_def)
    with RocksB show ?thesis by (simp add: batch_holds_def)
  next
    case (BinlogB bb)
    with b obtain bb' where "binlog_batch_delete cf k bb = Inr bb'"
        "binlog_holds crc16 slot view bb' (ops @ [WDelete (cf_name cf) k])"
      using binlog_impl.delete_law [of crc16 slot view bb ops cf k] k by (auto simp: batch_holds_def)
    with BinlogB show ?thesis by (simp add: batch_holds_def)
  qed
next
  fix b :: "'db batch" and ops db
  assume b: "batch_holds R crc16 slot view b ops"
  show "\<exists>db'. batch_commit R crc16 b db = (Inr (), db') \<and> view db' = apply_ops ops (view db)"
  proof (cases b)
    case (RocksB rb)
    then show ?thesis using b rocks_impl.commit_law [of R view rb ops db] by (simp add: batch_holds_def)
  next
    case (BinlogB bb)
    then show ?thesis
      using b binlog_impl.commit_law [of crc16 slot view bb ops db] by (simp add: batch_holds_def)
  qed
qed

section \<open>The user key of an encoded key\<close>

lemma cf_u32_inject [simp]: "cf_u32 a = cf_u32 b \<longleftrightarrow> a = b"
  by (metis cf_from_u32_cf_u32 option.inject)

lemma infer_user_key_meta [simp]: "infer_user_key (cf_u32 MetaCF) (base_key_bytes k) = Inr k"
  by (simp add: infer_user_key_def infer_tail_length_def base_key_bytes_def slice_def Let_def)

lemma infer_user_key_list [simp]:
  "infer_user_key (cf_u32 ListsDataCF) (lists_data_key_bytes k v i) = Inr k"
  by (simp add: infer_user_key_def infer_tail_length_def lists_data_key_bytes_def slice_def Let_def)

lemma infer_user_key_member:
  "cf \<in> {HashesDataCF, SetsDataCF, ZsetsDataCF} \<Longrightarrow>
     member_data_key_encode (member_data_key_new k v d) = Inr b \<Longrightarrow> infer_user_key (cf_u32 cf) b = Inr k"
  by (auto simp: infer_user_key_def infer_tail_length_def member_data_key_encode_eq
      member_data_key_new_def slice_def Let_def trans_le_add1)

lemma infer_user_key_score:
  "zsets_score_key_encode (zsets_score_key_new k v s m) = Inr b \<Longrightarrow>
     infer_user_key (cf_u32 ZsetsScoreCF) b = Inr k"
  by (auto simp: infer_user_key_def infer_tail_length_def zsets_score_key_encode_eq
      zsets_score_key_new_def slice_def Let_def trans_le_add1)

lemma infer_user_key_vector:
  "vector_encode_full k = Inr b \<Longrightarrow> infer_user_key (cf_u32 VectorDataCF) b = Inr (vm_key k)"
  using vector_key_codec.parse_encode [of k b]
  by (auto simp: infer_user_key_def vector_member_data_key_valid_def vector_encode_full_def
      vector_encode_key_prefix_def rbind_eq_Inr split: if_splits)

end
