(* ===== verification/Log_Index.thy ===== *)
theory Log_Index
  imports Kiwi_Prelude
begin

text \<open>
  The bookkeeping that ties Raft log indexes to RocksDB sequence numbers
  (\<^verbatim>\<open>src/storage/src/logindex\<close>): the sampled queue of pairs
  (\<^verbatim>\<open>collector.rs\<close>) and the applied/flushed state of the seven column families
  (\<^verbatim>\<open>cf_tracker.rs\<close>). A \<open>RwLock\<close> guards each state, so an operation is one step on the
  record it protects. \<open>partition_point\<close> of the standard library is the length of the longest prefix
  that satisfies the predicate. \<open>LogIndexOfColumnFamilies::init\<close>, which reads table properties from
  SST files, and the event listener are not modelled.
\<close>

section \<open>The collector\<close>

type_synonym log_pair = "i64 \<times> u64"

abbreviation DEFAULT_MAX_GAP :: u64 where "DEFAULT_MAX_GAP \<equiv> 1000"

record collector =
  step_length_mask :: u64
  co_list :: "log_pair list"
  max_gap :: u64

definition collector_new :: "byte \<Rightarrow> collector" where
  "collector_new step_length_bit =
     \<lparr>step_length_mask =
        (if step_length_bit = 0 then 0
         else if step_length_bit \<le> 63 then push_bit (unat step_length_bit) 1 - 1
         else - 1),
      co_list = [], max_gap = DEFAULT_MAX_GAP\<rparr>"

definition partition_point :: "('a \<Rightarrow> bool) \<Rightarrow> 'a list \<Rightarrow> nat" where
  "partition_point P xs = length (takeWhile P xs)"

definition find_applied_log_index :: "collector \<Rightarrow> u64 \<Rightarrow> i64" where
  "find_applied_log_index c seqno =
     (if seqno = 0 then 0 else
      case co_list c of
        [] \<Rightarrow> 0
      | front # _ \<Rightarrow>
        if seqno < snd front then 0 else
        let back = last (co_list c) in
        if snd back \<le> seqno then fst back else
        let idx = partition_point (\<lambda>p. snd p \<le> seqno) (co_list c); i = idx - 1 in
        if i < length (co_list c) then fst (co_list c ! i) else 0)"

definition collector_update :: "i64 \<Rightarrow> u64 \<Rightarrow> collector \<Rightarrow> collector" where
  "collector_update smallest_applied_log_index smallest_flush_seqno c =
     (if smallest_applied_log_index < 0 then c
      else if and (i64_as_u64 smallest_applied_log_index) (step_length_mask c) \<noteq> 0 then c
      else c\<lparr>co_list := co_list c @ [(smallest_applied_log_index, smallest_flush_seqno)]\<rparr>)"

fun purge_loop :: "i64 \<Rightarrow> log_pair list \<Rightarrow> log_pair list" where
  "purge_loop t (a # b # rest) = (if fst b \<le> t then purge_loop t (b # rest) else a # b # rest)"
| "purge_loop t xs = xs"

definition collector_purge :: "i64 \<Rightarrow> collector \<Rightarrow> collector" where
  "collector_purge smallest_applied_log_index c =
     c\<lparr>co_list := purge_loop smallest_applied_log_index (co_list c)\<rparr>"

definition collector_size :: "collector \<Rightarrow> u64" where
  "collector_size c = word_of_nat (length (co_list c))"

definition is_flush_pending :: "collector \<Rightarrow> bool" where
  "is_flush_pending c \<longleftrightarrow> max_gap c \<le> collector_size c"

definition set_max_gap :: "u64 \<Rightarrow> collector \<Rightarrow> collector" where
  "set_max_gap gap c = c\<lparr>max_gap := gap\<rparr>"

section \<open>The column-family tracker\<close>

abbreviation COLUMN_FAMILY_COUNT :: nat where "COLUMN_FAMILY_COUNT \<equiv> 7"

record log_index_pair =
  applied_index :: log_pair
  flushed_index :: log_pair

record cf_tracker =
  last_flush_index :: log_pair
  tr_cf :: "log_index_pair list"

record smallest_index_res =
  smallest_applied_log_index_cf :: int
  smallest_applied_log_index :: i64
  smallest_flushed_log_index_cf :: int
  smallest_flushed_log_index :: i64
  smallest_flushed_seqno :: u64

definition log_index_pair_default :: log_index_pair where
  "log_index_pair_default = \<lparr>applied_index = (0, 0), flushed_index = (0, 0)\<rparr>"

definition cf_tracker_new :: cf_tracker where
  "cf_tracker_new =
     \<lparr>last_flush_index = (0, 0), tr_cf = replicate COLUMN_FAMILY_COUNT log_index_pair_default\<rparr>"

definition smallest_index_res_default :: smallest_index_res where
  "smallest_index_res_default =
     \<lparr>smallest_applied_log_index_cf = - 1, smallest_applied_log_index = 2 ^ 63 - 1,
      smallest_flushed_log_index_cf = - 1, smallest_flushed_log_index = 2 ^ 63 - 1,
      smallest_flushed_seqno = - 1\<rparr>"

definition is_valid_cf_id :: "nat \<Rightarrow> bool" where
  "is_valid_cf_id cf_id \<longleftrightarrow> cf_id < COLUMN_FAMILY_COUNT"

definition smallest_step ::
  "nat option \<Rightarrow> nat \<Rightarrow> log_index_pair \<Rightarrow> smallest_index_res \<Rightarrow> smallest_index_res" where
  "smallest_step flush_cf i p res =
     (let skip = (case flush_cf of
                    None \<Rightarrow> False
                  | Some fc \<Rightarrow> i \<noteq> fc \<and> snd (applied_index p) \<le> snd (flushed_index p)) in
      if skip then res else
      let applied = fst (applied_index p); flushed = fst (flushed_index p);
          flushed_seqno = snd (flushed_index p);
          res = (if applied < smallest_applied_log_index res
                 then res\<lparr>smallest_applied_log_index := applied,
                          smallest_applied_log_index_cf := int i\<rparr>
                 else res) in
      if flushed < smallest_flushed_log_index res
      then res\<lparr>smallest_flushed_log_index := flushed, smallest_flushed_seqno := flushed_seqno,
               smallest_flushed_log_index_cf := int i\<rparr>
      else res)"

fun smallest_loop ::
  "nat option \<Rightarrow> nat \<Rightarrow> log_index_pair list \<Rightarrow> smallest_index_res \<Rightarrow> smallest_index_res" where
  "smallest_loop flush_cf i [] res = res"
| "smallest_loop flush_cf i (p # ps) res = smallest_loop flush_cf (Suc i) ps (smallest_step flush_cf i p res)"

definition get_smallest_log_index :: "cf_tracker \<Rightarrow> nat option \<Rightarrow> smallest_index_res" where
  "get_smallest_log_index t flush_cf = smallest_loop flush_cf 0 (tr_cf t) smallest_index_res_default"

definition set_flushed_log_index :: "nat \<Rightarrow> i64 \<Rightarrow> u64 \<Rightarrow> cf_tracker \<Rightarrow> cf_tracker" where
  "set_flushed_log_index cf_id log_index seqno t =
     (if \<not> is_valid_cf_id cf_id then t else
      let p = tr_cf t ! cf_id; li = fst (flushed_index p); sq = snd (flushed_index p) in
      t\<lparr>tr_cf := (tr_cf t)[cf_id := p\<lparr>flushed_index := (max log_index li, max seqno sq)\<rparr>]\<rparr>)"

definition set_applied_log_index :: "nat \<Rightarrow> i64 \<Rightarrow> u64 \<Rightarrow> cf_tracker \<Rightarrow> cf_tracker" where
  "set_applied_log_index cf_id log_index seqno t =
     (if \<not> is_valid_cf_id cf_id then t else
      let p = tr_cf t ! cf_id; li = fst (applied_index p); sq = snd (applied_index p) in
      t\<lparr>tr_cf := (tr_cf t)[cf_id := p\<lparr>applied_index := (max log_index li, max seqno sq)\<rparr>]\<rparr>)"

definition set_flushed_log_index_global :: "i64 \<Rightarrow> u64 \<Rightarrow> cf_tracker \<Rightarrow> cf_tracker" where
  "set_flushed_log_index_global log_index seqno t =
     (let (li, sq) = last_flush_index t; last_li = max li log_index; last_seq = max sq seqno in
      t\<lparr>last_flush_index := (last_li, last_seq),
        tr_cf := map (\<lambda>p.
          let fl = fst (flushed_index p); fs = snd (flushed_index p) in
          if fs \<le> last_seq then p\<lparr>flushed_index := (max fl last_li, max fs last_seq)\<rparr> else p) (tr_cf t)\<rparr>)"

definition is_applied :: "cf_tracker \<Rightarrow> nat \<Rightarrow> i64 \<Rightarrow> bool" where
  "is_applied t cf_id cur_log_index =
     (if \<not> is_valid_cf_id cf_id then False else cur_log_index < fst (applied_index (tr_cf t ! cf_id)))"

definition tracker_update :: "nat \<Rightarrow> i64 \<Rightarrow> u64 \<Rightarrow> cf_tracker \<Rightarrow> cf_tracker" where
  "tracker_update cf_id cur_log_index cur_seqno t =
     (if \<not> is_valid_cf_id cf_id then t else
      let p = tr_cf t ! cf_id; fl = fst (flushed_index p); fs = snd (flushed_index p);
          aseq = snd (applied_index p); (last_li, last_seq) = last_flush_index t;
          p = (if fs \<le> last_seq \<and> fs = aseq
               then p\<lparr>flushed_index := (max fl last_li, max fs last_seq)\<rparr> else p) in
      t\<lparr>tr_cf := (tr_cf t)[cf_id := p\<lparr>applied_index := (cur_log_index, cur_seqno)\<rparr>]\<rparr>)"

text \<open>The least and the greatest entry of the \<open>BTreeSet\<close>; the iterator yields a second entry only
  when the two differ. \<open>saturating_sub\<close> on \<open>i64\<close>, then the cast to \<open>u64\<close>.\<close>

definition get_pending_flush_gap :: "cf_tracker \<Rightarrow> u64" where
  "get_pending_flush_gap t =
     (let s = concat (map (\<lambda>p. [fst (applied_index p), fst (flushed_index p)]) (tr_cf t)) in
      case s of
        [] \<Rightarrow> 0
      | x # xs \<Rightarrow>
        (let first = fold min xs x; last = fold max xs x in
         if first = last then 0
         else i64_as_u64 (max (- (2 ^ 63)) (min (2 ^ 63 - 1) (last - first)))))"

definition is_pending_flush :: "cf_tracker \<Rightarrow> bool" where
  "is_pending_flush t \<longleftrightarrow> get_pending_flush_gap t > 0"

definition set_last_flush_index :: "i64 \<Rightarrow> u64 \<Rightarrow> cf_tracker \<Rightarrow> cf_tracker" where
  "set_last_flush_index log_index seqno t =
     (let (li, sq) = last_flush_index t in t\<lparr>last_flush_index := (max li log_index, max sq seqno)\<rparr>)"

definition get_cf_applied :: "cf_tracker \<Rightarrow> nat \<Rightarrow> log_pair" where
  "get_cf_applied t cf_id =
     (if \<not> is_valid_cf_id cf_id then (0, 0) else applied_index (tr_cf t ! cf_id))"

definition get_cf_flushed :: "cf_tracker \<Rightarrow> nat \<Rightarrow> log_pair" where
  "get_cf_flushed t cf_id =
     (if \<not> is_valid_cf_id cf_id then (0, 0) else flushed_index (tr_cf t ! cf_id))"

section \<open>Lookups and purges of the collector\<close>

text \<open>The reference lookup: the log index of the last pair whose sequence number is not above the one
  asked for, and 0 when there is none.\<close>

definition last_applied :: "log_pair list \<Rightarrow> u64 \<Rightarrow> i64" where
  "last_applied xs seqno =
     (let ys = filter (\<lambda>p. snd p \<le> seqno) xs in if ys = [] then 0 else fst (last ys))"

lemma filter_takeWhile_sorted:
  "sorted (map snd xs) \<Longrightarrow> filter (\<lambda>p. snd p \<le> s) xs = takeWhile (\<lambda>p. snd p \<le> s) xs"
  for s :: "'b :: linorder"
proof (induction xs)
  case (Cons x xs)
  show ?case
  proof (cases "snd x \<le> s")
    case True
    then show ?thesis using Cons by simp
  next
    case False
    then have "\<forall>p \<in> set (x # xs). \<not> snd p \<le> s" using Cons.prems by auto
    then show ?thesis using False by (simp add: filter_empty_conv)
  qed
qed simp

lemma sorted_le_last: "sorted xs \<Longrightarrow> x \<in> set xs \<Longrightarrow> x \<le> last xs"
  by (induction xs) auto

lemma takeWhile_last_nth:
  "takeWhile P xs \<noteq> [] \<Longrightarrow> xs ! (length (takeWhile P xs) - 1) = last (takeWhile P xs)"
  by (subst last_conv_nth) (simp_all add: takeWhile_nth)

lemma find_applied_last_applied:
  assumes sorted: "sorted (map snd (co_list c))" and s: "s \<noteq> 0"
  shows "find_applied_log_index c s = last_applied (co_list c) s"
proof (cases "co_list c")
  case Nil
  then show ?thesis using s by (simp add: find_applied_log_index_def last_applied_def)
next
  case (Cons front rest)
  let ?xs = "co_list c" and ?P = "\<lambda>p :: log_pair. snd p \<le> s"
  have tw: "filter ?P ?xs = takeWhile ?P ?xs" by (rule filter_takeWhile_sorted [OF sorted])
  show ?thesis
  proof (cases "s < snd front")
    case True
    then have "takeWhile ?P ?xs = []" using Cons by auto
    then show ?thesis using True Cons s tw by (simp add: find_applied_log_index_def last_applied_def Let_def)
  next
    case False
    then have ne: "takeWhile ?P ?xs \<noteq> []" using Cons by auto
    then have spec: "last_applied ?xs s = fst (last (takeWhile ?P ?xs))"
      using tw by (simp add: last_applied_def Let_def)
    show ?thesis
    proof (cases "snd (last ?xs) \<le> s")
      case True
      have "snd p \<le> snd (last ?xs)" if "p \<in> set ?xs" for p
      proof -
        have "last (map snd ?xs) = snd (last ?xs)" by (rule last_map) (simp add: Cons)
        then show ?thesis using sorted_le_last [OF sorted, of "snd p"] that by simp
      qed
      then have "\<forall>p \<in> set ?xs. snd p \<le> s" using True order_trans by blast
      then have "takeWhile ?P ?xs = ?xs" by (simp only: takeWhile_eq_all_conv)
      then show ?thesis using True False Cons s spec by (simp add: find_applied_log_index_def)
    next
      case notback: False
      have "length (takeWhile ?P ?xs) - 1 < length ?xs"
        using Cons length_takeWhile_le [of ?P ?xs] by (simp add: less_Suc_eq_le del: takeWhile.simps)
      then show ?thesis
        using notback False Cons s spec takeWhile_last_nth [OF ne]
        by (simp add: find_applied_log_index_def partition_point_def Let_def del: takeWhile.simps)
    qed
  qed
qed

lemma purge_loop_suffix:
  "\<exists>ys. xs = ys @ purge_loop t xs \<and> (sorted (map fst xs) \<longrightarrow> (\<forall>p \<in> set ys. fst p \<le> t))
     \<and> (xs \<noteq> [] \<longrightarrow> purge_loop t xs \<noteq> [])"
proof (induction t xs rule: purge_loop.induct)
  case (1 t a b rest)
  show ?case
  proof (cases "fst b \<le> t")
    case True
    then obtain ys where "b # rest = ys @ purge_loop t (b # rest)"
        "sorted (map fst (b # rest)) \<longrightarrow> (\<forall>p \<in> set ys. fst p \<le> t)" "purge_loop t (b # rest) \<noteq> []"
      using 1 by auto
    with True show ?thesis by (intro exI [of _ "a # ys"]) auto
  next
    case False
    then show ?thesis by auto
  qed
qed auto

lemma purge_loop_head: "purge_loop t xs = xs \<or> fst (hd (purge_loop t xs)) \<le> t"
proof (induction t xs rule: purge_loop.induct)
  case (1 t a b rest)
  then show ?case by (cases "fst b \<le> t") auto
qed simp_all

lemma purge_loop_keeps_one:
  "sorted (map fst xs) \<Longrightarrow> length (filter (\<lambda>p. fst p \<le> t) (purge_loop t xs)) \<le> 1"
proof (induction t xs rule: purge_loop.induct)
  case (1 t a b rest)
  show ?case
  proof (cases "fst b \<le> t")
    case False
    then have "filter (\<lambda>p. fst p \<le> t) (b # rest) = []"
      using 1(2) by (auto simp: filter_empty_conv)
    then show ?thesis using False by (simp split: if_splits)
  qed (use 1 in simp)
qed simp_all

lemma last_applied_suffix:
  assumes "zs \<noteq> []" and "snd (hd zs) \<le> s"
  shows "last_applied (ys @ zs) s = last_applied zs s"
proof -
  have "filter (\<lambda>p. snd p \<le> s) zs \<noteq> []"
    using assms by (cases zs) auto
  then show ?thesis by (simp add: last_applied_def Let_def)
qed

section \<open>The tracker\<close>

lemma all_less_Suc_eq_first: "(\<forall>j < Suc n. P j) \<longleftrightarrow> P 0 \<and> (\<forall>j < n. P (Suc j))"
  by (metis less_Suc_eq_0_disj)

lemma ex_less_Suc_eq_first: "(\<exists>j < Suc n. P j) \<longleftrightarrow> P 0 \<or> (\<exists>j < n. P (Suc j))"
  by (metis less_Suc_eq_0_disj)

text \<open>The families the search looks at: all of them, or the one being flushed and those with writes that
  are not flushed yet.\<close>

definition counted :: "nat option \<Rightarrow> nat \<Rightarrow> log_index_pair \<Rightarrow> bool" where
  "counted flush_cf i p \<longleftrightarrow> flush_cf = None \<or> flush_cf = Some i \<or> snd (flushed_index p) < snd (applied_index p)"

lemma smallest_step_flushed:
  defines "flushed \<equiv> \<lambda>r. (smallest_flushed_log_index r, smallest_flushed_seqno r, smallest_flushed_log_index_cf r)"
  shows "flushed (smallest_step fc i p res)
    = (if counted fc i p \<and> fst (flushed_index p) < smallest_flushed_log_index res
       then (fst (flushed_index p), snd (flushed_index p), int i) else flushed res)"
  by (auto simp: flushed_def smallest_step_def counted_def Let_def not_le split: option.splits)

lemma smallest_step_applied:
  defines "applied \<equiv> \<lambda>r. (smallest_applied_log_index r, smallest_applied_log_index_cf r)"
  shows "applied (smallest_step fc i p res)
    = (if counted fc i p \<and> fst (applied_index p) < smallest_applied_log_index res
       then (fst (applied_index p), int i) else applied res)"
  by (auto simp: applied_def smallest_step_def counted_def Let_def not_le split: option.splits)

lemma smallest_loop_flushed:
  fixes res :: smallest_index_res and fc :: "nat option"
  defines "out \<equiv> \<lambda>i ps res. smallest_loop fc i ps res"
  shows "smallest_flushed_log_index (out i ps res) \<le> smallest_flushed_log_index res
    \<and> (\<forall>j < length ps. counted fc (i + j) (ps ! j) \<longrightarrow> smallest_flushed_log_index (out i ps res) \<le> fst (flushed_index (ps ! j)))
    \<and> ((smallest_flushed_log_index (out i ps res), smallest_flushed_seqno (out i ps res), smallest_flushed_log_index_cf (out i ps res))
         = (smallest_flushed_log_index res, smallest_flushed_seqno res, smallest_flushed_log_index_cf res)
       \<or> (\<exists>j < length ps. counted fc (i + j) (ps ! j) \<and> smallest_flushed_log_index_cf (out i ps res) = int (i + j)
            \<and> flushed_index (ps ! j) = (smallest_flushed_log_index (out i ps res), smallest_flushed_seqno (out i ps res))))"
  unfolding out_def
proof (induction ps arbitrary: i res)
  case (Cons p ps)
  note step = smallest_step_flushed [of fc i p res] and IH = Cons.IH [of "Suc i" "smallest_step fc i p res"]
  show ?case
    using IH step by (auto simp: all_less_Suc_eq_first ex_less_Suc_eq_first split: if_splits)
qed simp

lemma smallest_loop_applied:
  fixes res :: smallest_index_res and fc :: "nat option"
  defines "out \<equiv> \<lambda>i ps res. smallest_loop fc i ps res"
  shows "smallest_applied_log_index (out i ps res) \<le> smallest_applied_log_index res
    \<and> (\<forall>j < length ps. counted fc (i + j) (ps ! j) \<longrightarrow> smallest_applied_log_index (out i ps res) \<le> fst (applied_index (ps ! j)))
    \<and> ((smallest_applied_log_index (out i ps res), smallest_applied_log_index_cf (out i ps res))
         = (smallest_applied_log_index res, smallest_applied_log_index_cf res)
       \<or> (\<exists>j < length ps. counted fc (i + j) (ps ! j) \<and> smallest_applied_log_index_cf (out i ps res) = int (i + j)
            \<and> fst (applied_index (ps ! j)) = smallest_applied_log_index (out i ps res)))"
  unfolding out_def
proof (induction ps arbitrary: i res)
  case (Cons p ps)
  note step = smallest_step_applied [of fc i p res] and IH = Cons.IH [of "Suc i" "smallest_step fc i p res"]
  show ?case
    using IH step by (auto simp: all_less_Suc_eq_first ex_less_Suc_eq_first split: if_splits)
qed simp

text \<open>The calls that change a tracker.\<close>

datatype tracker_call =
    SetFlushed nat i64 u64
  | SetApplied nat i64 u64
  | SetFlushedGlobal i64 u64
  | UpdateApplied nat i64 u64
  | SetLastFlush i64 u64

primrec run_tracker_call :: "tracker_call \<Rightarrow> cf_tracker \<Rightarrow> cf_tracker" where
  "run_tracker_call (SetFlushed cf li sq) t = set_flushed_log_index cf li sq t"
| "run_tracker_call (SetApplied cf li sq) t = set_applied_log_index cf li sq t"
| "run_tracker_call (SetFlushedGlobal li sq) t = set_flushed_log_index_global li sq t"
| "run_tracker_call (UpdateApplied cf li sq) t = tracker_update cf li sq t"
| "run_tracker_call (SetLastFlush li sq) t = set_last_flush_index li sq t"

definition tracker_wf :: "cf_tracker \<Rightarrow> bool" where
  "tracker_wf t \<longleftrightarrow> length (tr_cf t) = COLUMN_FAMILY_COUNT"

definition flushed_le :: "cf_tracker \<Rightarrow> cf_tracker \<Rightarrow> bool" where
  "flushed_le t t' \<longleftrightarrow> (\<forall>i < COLUMN_FAMILY_COUNT.
     fst (get_cf_flushed t i) \<le> fst (get_cf_flushed t' i)
     \<and> snd (get_cf_flushed t i) \<le> snd (get_cf_flushed t' i))"

lemma tracker_call_step:
  assumes "tracker_wf t"
  shows "tracker_wf (run_tracker_call c t) \<and> flushed_le t (run_tracker_call c t)"
  using assms
  by (cases c)
    (auto simp: tracker_wf_def flushed_le_def get_cf_flushed_def is_valid_cf_id_def nth_list_update
      set_flushed_log_index_def set_applied_log_index_def set_flushed_log_index_global_def
      tracker_update_def set_last_flush_index_def Let_def split: prod.splits)

lemma flushed_le_trans: "flushed_le a b \<Longrightarrow> flushed_le b c \<Longrightarrow> flushed_le a c"
  unfolding flushed_le_def by (meson order_trans)

lemma flushed_le_refl [simp]: "flushed_le a a"
  by (simp add: flushed_le_def)

lemma tracker_calls_step:
  "tracker_wf t \<Longrightarrow> tracker_wf (fold run_tracker_call cs t) \<and> flushed_le t (fold run_tracker_call cs t)"
proof (induction cs arbitrary: t)
  case (Cons c cs)
  then show ?case using tracker_call_step [OF Cons.prems, of c] flushed_le_trans by fastforce
qed simp

section \<open>Properties of the log index bookkeeping\<close>

text \<open>C18: on a queue whose sequence numbers are in order, the lookup with its two boundary checks and
  the binary search returns the log index of the last pair that is not above the given sequence
  number, and 0 when there is none.\<close>

theorem find_applied_log_index_correct:
  assumes "sorted (map snd (co_list c))" and "seqno \<noteq> 0"
  shows "find_applied_log_index c seqno
    = (let ys = filter (\<lambda>p. snd p \<le> seqno) (co_list c) in if ys = [] then 0 else fst (last ys))"
  using find_applied_last_applied [OF assms] by (simp add: last_applied_def)

theorem find_applied_log_index_correct_witness:
  "find_applied_log_index \<lparr>step_length_mask = 0, co_list = [(1, 10), (2, 20), (3, 30)], max_gap = 5\<rparr> 25 = 2"
  using find_applied_log_index_correct
    [of "\<lparr>step_length_mask = 0, co_list = [(1, 10), (2, 20), (3, 30)], max_gap = 5\<rparr>" 25]
  by simp

text \<open>C19: a purge up to the log index \<open>t\<close> changes no lookup that is still needed. For every sequence number
  that is not below that of any pair at or below \<open>t\<close>, the lookup after the purge returns what it
  returned before. What is dropped are pairs at or below \<open>t\<close>, and at most one of these is kept.\<close>

theorem purge_keeps_lookups:
  assumes "sorted (map snd (co_list c))" and "sorted (map fst (co_list c))"
  shows "(\<forall>seqno. (\<forall>p \<in> set (co_list c). fst p \<le> t \<longrightarrow> snd p \<le> seqno) \<longrightarrow>
        find_applied_log_index (collector_purge t c) seqno = find_applied_log_index c seqno)
    \<and> (\<exists>dropped. co_list c = dropped @ co_list (collector_purge t c) \<and> (\<forall>p \<in> set dropped. fst p \<le> t))
    \<and> length (filter (\<lambda>p. fst p \<le> t) (co_list (collector_purge t c))) \<le> 1"
proof -
  obtain ys where ys: "co_list c = ys @ purge_loop t (co_list c)" "\<forall>p \<in> set ys. fst p \<le> t"
      "co_list c \<noteq> [] \<longrightarrow> purge_loop t (co_list c) \<noteq> []"
    using purge_loop_suffix [of "co_list c" t] assms by auto
  have pl: "co_list (collector_purge t c) = purge_loop t (co_list c)"
    by (simp add: collector_purge_def)
  have "sorted (map snd (ys @ purge_loop t (co_list c)))"
    using assms(1) ys(1) by simp
  then have sorted: "sorted (map snd (co_list (collector_purge t c)))"
    by (simp add: pl sorted_append)
  have "find_applied_log_index (collector_purge t c) s = find_applied_log_index c s"
    if needed: "\<forall>p \<in> set (co_list c). fst p \<le> t \<longrightarrow> snd p \<le> s" for s
  proof (cases "s = 0 \<or> purge_loop t (co_list c) = co_list c")
    case True
    have "collector_purge t c = c" if "purge_loop t (co_list c) = co_list c"
      using that by (simp add: collector_purge_def)
    then show ?thesis using True by (auto simp: find_applied_log_index_def [of _ 0])
  next
    case False
    have ne: "purge_loop t (co_list c) \<noteq> []" using False ys(3) by (cases "co_list c") auto
    then have "hd (purge_loop t (co_list c)) \<in> set (co_list c)" using ys(1) by (metis Un_iff hd_in_set set_append)
    then have "snd (hd (purge_loop t (co_list c))) \<le> s"
      using needed purge_loop_head [of t "co_list c"] False by blast
    then show ?thesis
      using find_applied_last_applied [OF assms(1), of s] find_applied_last_applied [OF sorted, of s]
        last_applied_suffix [OF ne, of s ys] ys(1) pl False by simp
  qed
  moreover have "length (filter (\<lambda>p. fst p \<le> t) (co_list (collector_purge t c))) \<le> 1"
    unfolding pl by (rule purge_loop_keeps_one [OF assms(2)])
  ultimately show ?thesis using ys(1,2) pl by auto
qed

theorem purge_keeps_lookups_witness:
  "find_applied_log_index
     (collector_purge 2 \<lparr>step_length_mask = 0, co_list = [(1, 10), (2, 20), (3, 30)], max_gap = 5\<rparr>) 25 = 2"
proof -
  let ?c = "\<lparr>step_length_mask = 0, co_list = [(1, 10), (2, 20), (3, 30)], max_gap = 5\<rparr> :: collector"
  have "find_applied_log_index (collector_purge 2 ?c) 25 = find_applied_log_index ?c 25"
    using purge_keeps_lookups [of ?c 2] by simp
  then show ?thesis by (simp add: find_applied_log_index_def partition_point_def)
qed

text \<open>C20: no sequence of tracker calls lets the flushed log index or sequence number of a column family
  go backwards, and the tracker always holds seven families.\<close>

theorem flushed_index_monotone:
  assumes "tracker_wf t" and "i < COLUMN_FAMILY_COUNT"
  shows "tracker_wf (fold run_tracker_call cs t)
    \<and> fst (get_cf_flushed t i) \<le> fst (get_cf_flushed (fold run_tracker_call cs t) i)
    \<and> snd (get_cf_flushed t i) \<le> snd (get_cf_flushed (fold run_tracker_call cs t) i)"
  using tracker_calls_step [OF assms(1), of cs] assms(2) by (simp add: flushed_le_def)

theorem flushed_index_monotone_witness:
  "fst (get_cf_flushed cf_tracker_new 3)
    \<le> fst (get_cf_flushed (fold run_tracker_call [UpdateApplied 3 7 70, SetFlushed 3 7 70, SetFlushed 3 5 50]
        cf_tracker_new) 3)"
proof -
  have "tracker_wf cf_tracker_new" by (simp add: tracker_wf_def cf_tracker_new_def)
  from flushed_index_monotone [OF this, of 3 "[UpdateApplied 3 7 70, SetFlushed 3 7 70, SetFlushed 3 5 50]"]
  show ?thesis by simp
qed

text \<open>C21: \<open>get_smallest_log_index\<close> finds the minimum. With no family given it looks at all seven, and with
  a family that is being flushed at that one and at those whose applied sequence number is above their
  flushed one. The reported flushed and applied log indexes are lower bounds of the indexes of the families
  it looks at, and each is attained by such a family, the one it names, with that family's sequence number.\<close>

theorem smallest_log_index_is_minimum:
  assumes "tracker_wf t"
    and "\<forall>p \<in> set (tr_cf t). fst (flushed_index p) < 2 ^ 63 - 1 \<and> fst (applied_index p) < 2 ^ 63 - 1"
    and "i < COLUMN_FAMILY_COUNT" and "counted fc i (tr_cf t ! i)"
  shows "let r = get_smallest_log_index t fc; looked = \<lambda>j. j < COLUMN_FAMILY_COUNT \<and> counted fc j (tr_cf t ! j) in
    (\<forall>j. looked j \<longrightarrow> smallest_flushed_log_index r \<le> fst (get_cf_flushed t j)
       \<and> smallest_applied_log_index r \<le> fst (get_cf_applied t j))
    \<and> (\<exists>j. looked j \<and> smallest_flushed_log_index_cf r = int j
         \<and> get_cf_flushed t j = (smallest_flushed_log_index r, smallest_flushed_seqno r))
    \<and> (\<exists>j. looked j \<and> smallest_applied_log_index_cf r = int j
         \<and> fst (get_cf_applied t j) = smallest_applied_log_index r)"
proof -
  note F = smallest_loop_flushed [of fc 0 "tr_cf t" smallest_index_res_default]
    and A = smallest_loop_applied [of fc 0 "tr_cf t" smallest_index_res_default]
  have len: "length (tr_cf t) = 7" using assms(1) by (simp add: tracker_wf_def)
  have "tr_cf t ! i \<in> set (tr_cf t)" using assms(3) len by simp
  then have small: "fst (flushed_index (tr_cf t ! i)) < 2 ^ 63 - 1" "fst (applied_index (tr_cf t ! i)) < 2 ^ 63 - 1"
    using assms(2) by auto
  show ?thesis
    using F A small assms(3,4) len
    by (auto simp: Let_def get_smallest_log_index_def smallest_index_res_default_def get_cf_flushed_def
        get_cf_applied_def is_valid_cf_id_def dest: spec [of _ i])
qed

theorem smallest_log_index_is_minimum_witness:
  "smallest_flushed_log_index (get_smallest_log_index
     (fold run_tracker_call [UpdateApplied 3 7 70, UpdateApplied 4 9 90, SetFlushed 4 8 80] cf_tracker_new) (Some 4)) \<le> 8"
proof -
  let ?t = "fold run_tracker_call [UpdateApplied 3 7 70, UpdateApplied 4 9 90, SetFlushed 4 8 80] cf_tracker_new"
  have "tracker_wf cf_tracker_new" by (simp add: tracker_wf_def cf_tracker_new_def)
  then have "tracker_wf ?t" using tracker_calls_step by blast
  moreover have "\<forall>p \<in> set (tr_cf ?t). fst (flushed_index p) < 2 ^ 63 - 1 \<and> fst (applied_index p) < 2 ^ 63 - 1"
    by (simp add: tracker_update_def set_flushed_log_index_def cf_tracker_new_def log_index_pair_default_def
        is_valid_cf_id_def numeral_eq_Suc Let_def)
  moreover have "get_cf_flushed ?t 4 = (8, 80)"
    by (simp add: tracker_update_def set_flushed_log_index_def cf_tracker_new_def log_index_pair_default_def
        is_valid_cf_id_def get_cf_flushed_def numeral_eq_Suc Let_def)
  ultimately show ?thesis
    using smallest_log_index_is_minimum [of ?t 4 "Some 4"] by (auto simp: Let_def counted_def dest: spec [of _ 4])
qed

end
