(* ===== verification/Redis_Core.thy ===== *)
theory Redis_Core
  imports Write_Batch Log_Index
begin

text \<open>
  One storage instance (\<open>Redis\<close> of \<^verbatim>\<open>src/storage/src/redis.rs\<close>) and what every command uses of
  it: column-family handles, batches, the type check of a stored value, access statistics
  (\<^verbatim>\<open>src/storage/src/statistics.rs\<close>), and the Raft apply path of
  \<^verbatim>\<open>src/storage/src/storage.rs\<close>. The record \<open>env\<close> holds the functions of third-party code:
  RocksDB, CRC16, the sequence number of the database and the cache that stores the statistics. An
  operation maps an instance to its result and the instance afterwards. The record locks that
  serialise the commands on one key are held for a whole operation, which is one step here, and leave
  no trace in the state.
\<close>

section \<open>Lossy UTF-8 decoding of the standard library\<close>

text \<open>\<open>String::from_utf8_lossy\<close>: a string is its UTF-8 bytes, and each maximal ill-formed part becomes
  U+FFFD. \<open>utf8_step\<close> gives the number of bytes the next character or ill-formed part takes and
  whether it is well formed.\<close>

definition is_cont :: "bytes \<Rightarrow> nat \<Rightarrow> bool" where
  "is_cont bs i \<longleftrightarrow> i < length bs \<and> 0x80 \<le> bs ! i \<and> bs ! i \<le> 0xBF"

definition byte_in :: "bytes \<Rightarrow> nat \<Rightarrow> byte \<Rightarrow> byte \<Rightarrow> bool" where
  "byte_in bs i lo hi \<longleftrightarrow> i < length bs \<and> lo \<le> bs ! i \<and> bs ! i \<le> hi"

definition second_ok :: "byte \<Rightarrow> bytes \<Rightarrow> bool" where
  "second_ok b bs \<longleftrightarrow>
     (if b = 0xE0 then byte_in bs 0 0xA0 0xBF
      else if b = 0xED then byte_in bs 0 0x80 0x9F
      else if b = 0xF0 then byte_in bs 0 0x90 0xBF
      else if b = 0xF4 then byte_in bs 0 0x80 0x8F
      else byte_in bs 0 0x80 0xBF)"

definition utf8_step :: "byte \<Rightarrow> bytes \<Rightarrow> nat \<times> bool" where
  "utf8_step b bs =
     (if b < 0x80 then (1, True)
      else if 0xC2 \<le> b \<and> b \<le> 0xDF then (if is_cont bs 0 then (2, True) else (1, False))
      else if 0xE0 \<le> b \<and> b \<le> 0xEF then
        (if \<not> second_ok b bs then (1, False)
         else if \<not> is_cont bs 1 then (2, False) else (3, True))
      else if 0xF0 \<le> b \<and> b \<le> 0xF4 then
        (if \<not> second_ok b bs then (1, False)
         else if \<not> is_cont bs 1 then (2, False)
         else if \<not> is_cont bs 2 then (3, False) else (4, True))
      else (1, False))"

function from_utf8_lossy :: "bytes \<Rightarrow> bytes" where
  "from_utf8_lossy [] = []"
| "from_utf8_lossy (b # bs) =
     (let (n, ok) = utf8_step b bs in
      (if ok then take n (b # bs) else [0xEF, 0xBF, 0xBD]) @ from_utf8_lossy (drop (n - 1) bs))"
  by pat_completeness auto
termination by (relation "measure length") auto

section \<open>Key statistics\<close>

record key_statistics =
  window_size :: nat
  durations :: "u64 list"
  modify_count :: u64

definition key_statistics_new :: "nat \<Rightarrow> key_statistics" where
  "key_statistics_new w = \<lparr>window_size = usize_add w 2, durations = [], modify_count = 0\<rparr>"

fun pop_front_while :: "nat \<Rightarrow> u64 list \<Rightarrow> u64 list" where
  "pop_front_while w [] = []"
| "pop_front_while w (d # ds) = (if w < length (d # ds) then pop_front_while w ds else d # ds)"

definition add_duration :: "u64 \<Rightarrow> key_statistics \<Rightarrow> key_statistics" where
  "add_duration duration s = s\<lparr>durations := pop_front_while (window_size s) (durations s @ [duration])\<rparr>"

definition avg_duration :: "key_statistics \<Rightarrow> u64" where
  "avg_duration s =
     (if length (durations s) < window_size s then 0 else
      case durations s of
        [] \<Rightarrow> 0
      | d # _ \<Rightarrow>
        (let (mn, mx, sm) = fold (\<lambda>x (mn, mx, sm).
               (if x < mn then x else mn, if mx < x then x else mx, sm + x)) (durations s) (d, d, 0) in
         if length (durations s) \<le> 2 then 0
         else (sm - mx - mn) div word_of_nat (length (durations s) - 2)))"

definition add_modify_count :: "u64 \<Rightarrow> key_statistics \<Rightarrow> key_statistics" where
  "add_modify_count n s = s\<lparr>modify_count := modify_count s + n\<rparr>"

section \<open>The instance\<close>

record ('db, 'c) env =
  en_rocks :: "'db rocks_db"
  en_crc16 :: "bytes \<Rightarrow> u16"
  en_latest_seq :: "'db \<Rightarrow> u64"
  en_cache_get :: "'c \<Rightarrow> bytes \<Rightarrow> key_statistics option"
  en_cache_insert :: "'c \<Rightarrow> bytes \<Rightarrow> key_statistics \<Rightarrow> 'c"
  en_cache_remove :: "'c \<Rightarrow> bytes \<Rightarrow> 'c"

datatype bg_task = CleanAll data_type | CompactRange data_type bytes bytes
  | CompactSpecificKey data_type bytes | Shutdown

record ('db, 'c) redis =
  rd_db :: "'db option"
  rd_handles :: "string list"
  rd_statistics_store :: 'c
  rd_small_compaction_threshold :: u64
  rd_small_compaction_duration_threshold :: u64
  rd_append_log_fn :: "'db append_log_fn option"
  rd_logindex_collector :: "collector option"
  rd_bg_tasks :: "bg_task list"

definition redis_get_cf_handle ::
  "('db, 'c) env \<Rightarrow> ('db, 'c) redis \<Rightarrow> column_family \<Rightarrow> string option" where
  "redis_get_cf_handle E st cf_index =
     (case rd_db st of
        None \<Rightarrow> None
      | Some db \<Rightarrow>
        let i = cf_index_to_usize cf_index in
        if i < length (rd_handles st) then rk_cf_handle (en_rocks E) db (rd_handles st ! i) else None)"

text \<open>\<open>OnceLock::set\<close> keeps the first value.\<close>

definition set_append_log_fn :: "'db append_log_fn \<Rightarrow> ('db, 'c) redis \<Rightarrow> ('db, 'c) redis" where
  "set_append_log_fn f st =
     (case rd_append_log_fn st of None \<Rightarrow> st\<lparr>rd_append_log_fn := Some f\<rparr> | Some _ \<Rightarrow> st)"

definition create_rocks_batch :: "('db, 'c) env \<Rightarrow> ('db, 'c) redis \<Rightarrow> 'db batch result" where
  "create_rocks_batch E st =
     rbind (case rd_db st of None \<Rightarrow> Inl (OptionNone ''Database is not initialized'') | Some db \<Rightarrow> Inr db)
       (\<lambda>db.
     let cf_handles =
       [redis_get_cf_handle E st MetaCF, redis_get_cf_handle E st HashesDataCF,
        redis_get_cf_handle E st SetsDataCF, redis_get_cf_handle E st ListsDataCF,
        redis_get_cf_handle E st ZsetsDataCF, redis_get_cf_handle E st ZsetsScoreCF,
        redis_get_cf_handle E st VectorDataCF] in
     rbind (rocks_batch_new cf_handles) (\<lambda>b. Inr (RocksB b)))"

definition create_batch :: "('db, 'c) env \<Rightarrow> ('db, 'c) redis \<Rightarrow> 'db batch result" where
  "create_batch E st =
     (case rd_append_log_fn st of
        Some f \<Rightarrow> Inr (BinlogB (binlog_batch_new f))
      | None \<Rightarrow> create_rocks_batch E st)"

text \<open>\<open>batch.commit()\<close> on the database the instance owns.\<close>

definition commit_batch ::
  "('db, 'c) env \<Rightarrow> 'db batch \<Rightarrow> ('db, 'c) redis \<Rightarrow> unit result \<times> ('db, 'c) redis" where
  "commit_batch E b st =
     (case rd_db st of
        None \<Rightarrow> (Inl (OptionNone ''Database is not initialized''), st)
      | Some db \<Rightarrow>
        (let (r, db') = batch_commit (en_rocks E) (en_crc16 E) b db in (r, st\<lparr>rd_db := Some db'\<rparr>)))"

definition commit_batch_and_track_logindex ::
  "('db, 'c) env \<Rightarrow> 'db batch \<Rightarrow> u64 \<Rightarrow> ('db, 'c) redis \<Rightarrow> unit result \<times> ('db, 'c) redis" where
  "commit_batch_and_track_logindex E b raft_log_index =
     obind (commit_batch E b) (\<lambda>_ st.
     case (rd_db st, rd_logindex_collector st) of
       (Some db, Some collector) \<Rightarrow>
         (let log_index_i64 = (if unat raft_log_index < 2 ^ 63 then int (unat raft_log_index)
                               else 2 ^ 63 - 1) in
          (Inr (), st\<lparr>rd_logindex_collector :=
             Some (collector_update log_index_i64 (en_latest_seq E db) collector)\<rparr>))
     | _ \<Rightarrow> (Inr (), st))"

section \<open>Access statistics\<close>

definition lookup_key_of :: "data_type \<Rightarrow> bytes \<Rightarrow> bytes" where
  "lookup_key_of dtype key = data_type_to_tag dtype # key"

definition add_compact_key_task_if_needed ::
  "('db, 'c) env \<Rightarrow> data_type \<Rightarrow> bytes \<Rightarrow> u64 \<Rightarrow> u64 \<Rightarrow> ('db, 'c) redis
     \<Rightarrow> unit result \<times> ('db, 'c) redis" where
  "add_compact_key_task_if_needed E dtype key total_count duration st =
     (if total_count < rd_small_compaction_threshold st \<or> duration < rd_small_compaction_duration_threshold st
      then (Inr (), st)
      else (Inr (), st\<lparr>rd_statistics_store :=
                         en_cache_remove E (rd_statistics_store st) (lookup_key_of dtype key),
                       rd_bg_tasks := rd_bg_tasks st @ [CompactSpecificKey dtype key]\<rparr>))"

definition update_specific_key_duration ::
  "('db, 'c) env \<Rightarrow> data_type \<Rightarrow> bytes \<Rightarrow> u64 \<Rightarrow> ('db, 'c) redis \<Rightarrow> unit result \<times> ('db, 'c) redis" where
  "update_specific_key_duration E dtype key duration st =
     (if duration \<noteq> 0 \<and> rd_small_compaction_duration_threshold st \<noteq> 0 then
        let lookup_key = lookup_key_of dtype key;
            data = (case en_cache_get E (rd_statistics_store st) lookup_key of
                      Some d \<Rightarrow> d | None \<Rightarrow> key_statistics_new 10);
            data = add_duration duration data;
            st = st\<lparr>rd_statistics_store := en_cache_insert E (rd_statistics_store st) lookup_key data\<rparr> in
        add_compact_key_task_if_needed E dtype key (modify_count data) (avg_duration data) st
      else (Inr (), st))"

definition update_specific_key_statistics ::
  "('db, 'c) env \<Rightarrow> data_type \<Rightarrow> bytes \<Rightarrow> u64 \<Rightarrow> ('db, 'c) redis \<Rightarrow> unit result \<times> ('db, 'c) redis" where
  "update_specific_key_statistics E dtype key count st =
     (if count \<noteq> 0 \<and> rd_small_compaction_threshold st \<noteq> 0 then
        let lookup_key = lookup_key_of dtype key;
            data = (case en_cache_get E (rd_statistics_store st) lookup_key of
                      Some d \<Rightarrow> d | None \<Rightarrow> key_statistics_new 10);
            data = add_modify_count count data;
            st = st\<lparr>rd_statistics_store := en_cache_insert E (rd_statistics_store st) lookup_key data\<rparr> in
        add_compact_key_task_if_needed E dtype key (modify_count data) (avg_duration data) st
      else (Inr (), st))"

section \<open>The type check of a stored value\<close>

datatype type_check_state = Missing | Stale | Match

definition wrong_type_error :: error where
  "wrong_type_error = RedisErr ''WRONGTYPE Operation against a key holding the wrong kind of value''"

text \<open>The last eight bytes and the eight bytes of the count field.\<close>

definition read_etime :: "bytes \<Rightarrow> u64 result" where
  "read_etime val_raw =
     (let etime_offset = usize_sub (length val_raw) 8 in
      rbind (slice val_raw etime_offset (usize_add etime_offset 8)) (\<lambda>etime_bytes.
      rbind (ensure (length etime_bytes = 8) (RedisErr ''Failed to read etime'')) (\<lambda>_.
      Inr (u64_of_le etime_bytes))))"

definition read_count :: "bytes \<Rightarrow> u64 result" where
  "read_count val_raw =
     rbind (slice val_raw TYPE_LENGTH (TYPE_LENGTH + 8)) (\<lambda>count_bytes.
     rbind (ensure (length count_bytes = 8) (RedisErr ''Failed to read count'')) (\<lambda>_.
     Inr (u64_of_le count_bytes)))"

definition etime_passed :: "u64 \<Rightarrow> bytes \<Rightarrow> bool result" where
  "etime_passed now val_raw =
     rbind (read_etime val_raw) (\<lambda>etime. if etime = 0 then Inr False else Inr (etime < now))"

definition is_stale_static :: "u64 \<Rightarrow> bytes \<Rightarrow> bool result" where
  "is_stale_static now val_raw =
     (case val_raw of
        [] \<Rightarrow> Inr False
      | b # _ \<Rightarrow>
        rbind (data_type_try_from b) (\<lambda>dt.
        rbind (min_meta_raw_len dt) (\<lambda>n.
        if length val_raw < n then Inl (InvalidFormat ''Invalid value length for data type'') else
        case dt of
          TString \<Rightarrow> etime_passed now val_raw
        | TNone \<Rightarrow> Inl (InvalidFormat ''data type should not be used as meta value'')
        | TAll \<Rightarrow> Inl (InvalidFormat ''data type should not be used as meta value'')
        | _ \<Rightarrow> rbind (read_count val_raw) (\<lambda>count.
               if count = 0 then Inr True else etime_passed now val_raw))))"

definition check_type_state :: "u64 \<Rightarrow> bytes \<Rightarrow> data_type \<Rightarrow> type_check_state result" where
  "check_type_state now value_raw expected =
     (if value_raw = [] then Inr Missing else
      rbind (is_stale_static now value_raw) (\<lambda>stale.
      if stale then Inr Stale
      else if hd value_raw = data_type_u8 expected then Inr Match
      else Inl wrong_type_error))"

definition check_type :: "u64 \<Rightarrow> bytes \<Rightarrow> data_type \<Rightarrow> unit result" where
  "check_type now value_raw key_type = rbind (check_type_state now value_raw key_type) (\<lambda>_. Inr ())"

text \<open>The macro \<open>get_db_and_cfs!\<close>.\<close>

primrec get_cfs :: "('db, 'c) env \<Rightarrow> ('db, 'c) redis \<Rightarrow> column_family list \<Rightarrow> string list result" where
  "get_cfs E st [] = Inr []"
| "get_cfs E st (cf # cfs) =
     rbind (case redis_get_cf_handle E st cf of
              Some h \<Rightarrow> Inr h | None \<Rightarrow> Inl (OptionNone ''cf handle not found'')) (\<lambda>h.
     rbind (get_cfs E st cfs) (\<lambda>hs. Inr (h # hs)))"

definition get_db_and_cfs ::
  "('db, 'c) env \<Rightarrow> ('db, 'c) redis \<Rightarrow> column_family list \<Rightarrow> ('db \<times> string list) result" where
  "get_db_and_cfs E st cfs =
     rbind (case rd_db st of None \<Rightarrow> Inl (OptionNone ''db is not initialized'') | Some db \<Rightarrow> Inr db) (\<lambda>db.
     rbind (get_cfs E st cfs) (\<lambda>hs. Inr (db, hs)))"

text \<open>\<open>db.get(key)\<close> reads the default column family.\<close>

definition db_get :: "('db, 'c) env \<Rightarrow> 'db \<Rightarrow> bytes \<Rightarrow> bytes option result" where
  "db_get E db k = rocks_context (rk_get (en_rocks E) db (cf_name MetaCF) k)"

definition db_get_cf :: "('db, 'c) env \<Rightarrow> 'db \<Rightarrow> string \<Rightarrow> bytes \<Rightarrow> bytes option result" where
  "db_get_cf E db cf k = rocks_context (rk_get (en_rocks E) db cf k)"

text \<open>\<open>create_batch\<close>, the loops that add the collected operations, and \<open>commit\<close>.\<close>

definition write_ops ::
  "('db, 'c) env \<Rightarrow> batch_op list \<Rightarrow> ('db, 'c) redis \<Rightarrow> unit result \<times> ('db, 'c) redis" where
  "write_ops E ops st =
     obind (olift (rbind (create_batch E st) (add_ops batch_put batch_delete ops)))
       (\<lambda>b. commit_batch E b) st"

section \<open>The Raft apply path\<close>

record ('db, 'c) storage =
  sg_insts :: "('db, 'c) redis list"
  sg_slot_indexer :: slot_indexer
  sg_db_id :: nat

definition validate_binlog :: "(bytes \<Rightarrow> u16) \<Rightarrow> ('db, 'c) storage \<Rightarrow> binlog \<Rightarrow> unit result" where
  "validate_binlog crc16 sg bl =
     rbind (ensure (sg_db_id sg < 2 ^ 32) (InvalidFormat ''Storage database ID exceeds the Raft format''))
       (\<lambda>_.
     let expected_db_id = word_of_nat (sg_db_id sg) :: u32 in
     if bl_db_id bl \<noteq> expected_db_id
     then Inl (InvalidFormat ''Binlog database does not match storage database'')
     else validate_binlog_entries crc16 bl)"

definition add_binlog_entry :: "binlog_entry \<Rightarrow> 'db batch \<Rightarrow> 'db batch result" where
  "add_binlog_entry entry b =
     (case cf_from_u32 (be_cf_idx entry) of
        None \<Rightarrow> Inl (RedisErr ''Invalid column family index'')
      | Some cf_idx \<Rightarrow>
        (case be_op_type entry of
           Put \<Rightarrow>
             (case be_value entry of
                None \<Rightarrow> Inl (InvalidFormat ''Put binlog entry must contain a value'')
              | Some value \<Rightarrow> batch_put cf_idx (be_key entry) value b)
         | Delete \<Rightarrow> batch_delete cf_idx (be_key entry) b
         | NoOp \<Rightarrow> Inl (InvalidFormat ''Normal Raft binlog cannot contain NoOp entries'')))"

primrec add_binlog_entries :: "binlog_entry list \<Rightarrow> 'db batch \<Rightarrow> 'db batch result" where
  "add_binlog_entries [] b = Inr b"
| "add_binlog_entries (e # es) b = rbind (add_binlog_entry e b) (add_binlog_entries es)"

definition on_binlog_write ::
  "('db, 'c) env \<Rightarrow> binlog \<Rightarrow> u64 \<Rightarrow> ('db, 'c) storage \<Rightarrow> unit result \<times> ('db, 'c) storage" where
  "on_binlog_write E bl raft_log_index sg =
     (case validate_binlog (en_crc16 E) sg bl of
        Inl e \<Rightarrow> (Inl e, sg)
      | Inr _ \<Rightarrow>
        (let instance_id = get_instance_id (sg_slot_indexer sg) (unat (bl_slot_idx bl)) in
         if instance_id \<ge> length (sg_insts sg)
         then (Inl (System ''Storage instance is unavailable for slot''), sg) else
         let inst = sg_insts sg ! instance_id in
         case rbind (create_rocks_batch E inst) (add_binlog_entries (bl_entries bl)) of
           Inl e \<Rightarrow> (Inl e, sg)
         | Inr b \<Rightarrow>
           (let (r, inst') = commit_batch_and_track_logindex E b raft_log_index inst in
            (r, sg\<lparr>sg_insts := (sg_insts sg)[instance_id := inst']\<rparr>))))"

section \<open>The type check on encoded values\<close>

definition expired :: "u64 \<Rightarrow> u64 \<Rightarrow> bool" where
  "expired now etime \<longleftrightarrow> etime \<noteq> 0 \<and> etime < now"

lemma read_etime_last [simp]: "read_etime (pre @ u64_le et) = Inr et" if "length pre + 8 < 2 ^ 64"
  using that by (simp add: read_etime_def usize_add_small slice_def Let_def)

lemma read_count_field [simp]: "read_count (b # u64_le c @ rest) = Inr c"
  by (simp add: read_count_def slice_def)

lemma read_etime_list_meta:
  "length res = 16 \<Longrightarrow> read_etime (list_meta_bytes dt c v l r res ct et) = Inr et"
  using read_etime_last [of "[data_type_u8 dt] @ u64_le c @ u64_le v @ u64_le l @ u64_le r @ res @ u64_le ct" et]
  by (simp add: list_meta_bytes_def)

lemma read_etime_base_meta:
  "length res = 16 \<Longrightarrow> read_etime (base_meta_bytes dt c v res ct et) = Inr et"
  using read_etime_last [of "[data_type_u8 dt] @ u64_le c @ u64_le v @ res @ u64_le ct" et]
  by (simp add: base_meta_bytes_def)

lemma is_stale_collection:
  assumes "v = data_type_u8 dt # bs" and "dt \<in> {THash, TSet, TList, TZSet, TVectorSet}"
    and "min_meta_raw_len dt = Inr n" and "n \<le> length v"
    and "read_count v = Inr c" and "read_etime v = Inr et"
  shows "is_stale_static now v = Inr (c = 0 \<or> expired now et)"
proof -
  have "is_stale_static now (data_type_u8 dt # bs)
      = rbind (read_count v) (\<lambda>count. if count = 0 then Inr True else etime_passed now v)"
    using assms(2-4) unfolding is_stale_static_def list.case data_type_try_from_u8 assms(1)
    by (auto simp: assms(1))
  then show ?thesis using assms by (simp add: etime_passed_def expired_def)
qed

lemma is_stale_list_meta:
  assumes "length res = 16"
  shows "is_stale_static now (list_meta_bytes TList c v l r res ct et) = Inr (c = 0 \<or> expired now et)"
proof (rule is_stale_collection)
  show "list_meta_bytes TList c v l r res ct et
      = data_type_u8 TList # u64_le c @ u64_le v @ u64_le l @ u64_le r @ res @ u64_le ct @ u64_le et"
    by (simp add: list_meta_bytes_def)
  show "read_count (list_meta_bytes TList c v l r res ct et) = Inr c"
    by (simp add: list_meta_bytes_def)
  show "min_meta_raw_len TList = Inr 65" by simp
qed (use assms read_etime_list_meta [OF assms] in simp_all)

lemma is_stale_base_meta:
  assumes "length res = 16" and "dt \<in> {THash, TSet, TZSet, TVectorSet}"
  shows "is_stale_static now (base_meta_bytes dt c v res ct et) = Inr (c = 0 \<or> expired now et)"
proof (rule is_stale_collection)
  show "base_meta_bytes dt c v res ct et
      = data_type_u8 dt # u64_le c @ u64_le v @ res @ u64_le ct @ u64_le et"
    by (simp add: base_meta_bytes_def)
  show "read_count (base_meta_bytes dt c v res ct et) = Inr c"
    by (simp add: base_meta_bytes_def)
  show "min_meta_raw_len dt = Inr 49" using assms(2) by auto
qed (use assms read_etime_base_meta [OF assms(1)] in auto)

lemma check_type_state_base_meta:
  assumes "length res = 16" and "dt \<in> {THash, TSet, TZSet, TVectorSet}"
  shows "check_type_state now (base_meta_bytes dt c v res ct et) expected
    = (if c = 0 \<or> expired now et then Inr Stale
       else if dt = expected then Inr Match else Inl wrong_type_error)"
proof -
  have "base_meta_bytes dt c v res ct et \<noteq> []" and "hd (base_meta_bytes dt c v res ct et) = data_type_u8 dt"
    by (simp_all add: base_meta_bytes_def)
  then show ?thesis
    using is_stale_base_meta [OF assms, of now c v ct et]
    by (simp add: check_type_state_def data_type_u8_inject)
qed

lemma check_type_state_list_meta [simp]:
  assumes "length res = 16"
  shows "check_type_state now (list_meta_bytes TList c v l r res ct et) TList
    = Inr (if c = 0 \<or> expired now et then Stale else Match)"
  using is_stale_list_meta [OF assms, of now c v l r ct et]
  by (simp add: check_type_state_def) (simp add: list_meta_bytes_def)

section \<open>Well-formed instances\<close>

definition instance_ok :: "('db, 'c) env \<Rightarrow> ('db \<Rightarrow> contents) \<Rightarrow> ('db, 'c) redis \<Rightarrow> bool" where
  "instance_ok E view st \<longleftrightarrow> rocks_ok (en_rocks E) view \<and> rd_db st \<noteq> None
     \<and> rd_handles st = map cf_name all_cfs
     \<and> (\<forall>f. rd_append_log_fn st = Some f \<longrightarrow> append_ok (en_crc16 E) view f)"

definition contents_of :: "('db \<Rightarrow> contents) \<Rightarrow> ('db, 'c) redis \<Rightarrow> contents" where
  "contents_of view st = view (the (rd_db st))"

lemma instance_okE:
  assumes "instance_ok E view st"
  obtains db where "rd_db st = Some db" and "contents_of view st = view db"
    and "rocks_ok (en_rocks E) view"
  using assms by (auto simp: instance_ok_def contents_of_def)

lemma redis_get_cf_handle_ok [simp]:
  assumes "instance_ok E view st"
  shows "redis_get_cf_handle E st cf = Some (cf_name cf)"
proof -
  obtain db where "rd_db st = Some db" using assms by (auto simp: instance_ok_def)
  moreover have "map cf_name all_cfs ! cf_index_to_usize cf = cf_name cf"
      "cf_index_to_usize cf < length (map cf_name all_cfs)"
    by (cases cf; simp add: all_cfs_def)+
  ultimately show ?thesis
    using assms rocks_okD(3) [of "en_rocks E" view db cf]
    by (simp add: instance_ok_def redis_get_cf_handle_def)
qed

lemma get_db_and_cfs_ok:
  assumes "instance_ok E view st"
  shows "get_db_and_cfs E st [cf] = Inr (the (rd_db st), [cf_name cf])"
  using assms by (auto simp: get_db_and_cfs_def redis_get_cf_handle_ok [OF assms] instance_ok_def)

lemma db_get_ok:
  assumes "instance_ok E view st"
  shows "db_get E (the (rd_db st)) k = Inr (contents_of view st (cf_name MetaCF) k)"
    and "db_get_cf E (the (rd_db st)) cf k = Inr (contents_of view st cf k)"
  using assms rocks_okD(1) [of "en_rocks E" view]
  by (simp_all add: db_get_def db_get_cf_def rocks_context_def instance_ok_def contents_of_def)

lemma create_rocks_batch_holds:
  assumes "instance_ok E view st"
  shows "\<exists>b. create_rocks_batch E st = Inr b \<and> batch_holds (en_rocks E) crc16 slot view b []"
proof -
  obtain db where "rd_db st = Some db" using assms by (auto simp: instance_ok_def)
  then show ?thesis
    using assms
    by (simp add: create_rocks_batch_def redis_get_cf_handle_ok [OF assms] rocks_batch_new_def
        batch_holds_def rocks_holds_def instance_ok_def all_cfs_def Let_def)
qed

lemma create_batch_holds:
  assumes "instance_ok E view st"
  shows "\<exists>b. create_batch E st = Inr b \<and> batch_holds (en_rocks E) (en_crc16 E) slot view b []"
  using assms create_rocks_batch_holds [OF assms]
  by (auto simp: create_batch_def batch_holds_def binlog_holds_def binlog_batch_new_def instance_ok_def
      split: option.splits)

text \<open>Building and committing a batch on a well-formed instance.\<close>

lemma commit_ops_ok:
  assumes ok: "instance_ok E view st"
    and keys: "list_all (batch_op_key_ok (slot_key_ok (en_crc16 E) slot)) ops"
  shows "\<exists>b st'. rbind (create_batch E st) (add_ops batch_put batch_delete ops) = Inr b
    \<and> commit_batch E b st = (Inr (), st') \<and> instance_ok E view st'
    \<and> contents_of view st' = apply_ops (map write_op_of ops) (contents_of view st)
    \<and> st' = st\<lparr>rd_db := rd_db st'\<rparr>"
proof -
  obtain b0 where b0: "create_batch E st = Inr b0"
      "batch_holds (en_rocks E) (en_crc16 E) slot view b0 []"
    using create_batch_holds [OF ok] by blast
  obtain db where db: "rd_db st = Some db" "contents_of view st = view db"
    using ok by (rule instance_okE)
  from any_batch.commit_applies [OF b0(2) keys, of db] obtain b db' where
    "add_ops batch_put batch_delete ops b0 = Inr b"
    "batch_commit (en_rocks E) (en_crc16 E) b db = (Inr (), db')"
    "view db' = apply_ops (map write_op_of ops) (view db)"
    by blast
  then show ?thesis
    using b0 db ok by (simp add: commit_batch_def instance_ok_def contents_of_def)
qed

lemma add_compact_key_task_frame:
  "\<exists>store tasks. add_compact_key_task_if_needed E dt key n d s
     = (Inr (), s\<lparr>rd_statistics_store := store, rd_bg_tasks := tasks\<rparr>)"
proof (cases "n < rd_small_compaction_threshold s \<or> d < rd_small_compaction_duration_threshold s")
  case True
  then have "add_compact_key_task_if_needed E dt key n d s
      = (Inr (), s\<lparr>rd_statistics_store := rd_statistics_store s, rd_bg_tasks := rd_bg_tasks s\<rparr>)"
    by (simp add: add_compact_key_task_if_needed_def)
  then show ?thesis by blast
next
  case False
  then show ?thesis by (auto simp: add_compact_key_task_if_needed_def)
qed

lemma update_statistics_frame:
  "\<exists>store tasks. update_specific_key_statistics E dt key n st
     = (Inr (), st\<lparr>rd_statistics_store := store, rd_bg_tasks := tasks\<rparr>)"
proof (cases "n \<noteq> 0 \<and> rd_small_compaction_threshold st \<noteq> 0")
  case True
  then show ?thesis
    using add_compact_key_task_frame [of E dt key _ _ "st\<lparr>rd_statistics_store := _\<rparr>"]
    by (simp add: update_specific_key_statistics_def Let_def)
next
  case False
  then have "update_specific_key_statistics E dt key n st
      = (Inr (), st\<lparr>rd_statistics_store := rd_statistics_store st, rd_bg_tasks := rd_bg_tasks st\<rparr>)"
    by (auto simp: update_specific_key_statistics_def)
  then show ?thesis by blast
qed

lemma statistics_instance_ok [simp]:
  "instance_ok E view (st\<lparr>rd_statistics_store := s, rd_bg_tasks := ts\<rparr>) = instance_ok E view st"
  "contents_of view (st\<lparr>rd_statistics_store := s, rd_bg_tasks := ts\<rparr>) = contents_of view st"
  by (simp_all add: instance_ok_def contents_of_def)

lemma is_stale_string:
  assumes "length x + 33 < 2 ^ 64"
  shows "is_stale_static now ([data_type_u8 TString] @ x @ replicate 16 0 @ u64_le ct @ u64_le et)
    = Inr (expired now et)"
proof -
  have "read_etime ([data_type_u8 TString] @ x @ replicate 16 0 @ u64_le ct @ u64_le et) = Inr et"
    using read_etime_last [of "[data_type_u8 TString] @ x @ replicate 16 0 @ u64_le ct" et] assms by simp
  then have "etime_passed now ([data_type_u8 TString] @ x @ replicate 16 0 @ u64_le ct @ u64_le et)
      = Inr (expired now et)"
    by (simp add: etime_passed_def expired_def)
  then show ?thesis
    unfolding is_stale_static_def append_Cons append_Nil list.case data_type_try_from_u8 by simp
qed

section \<open>The Raft apply path implements the propose callback\<close>

lemma add_binlog_entries_holds:
  assumes "batch_holds R crc16 slot view b ops"
    and "\<forall>e \<in> set es. validate_entry crc16 slot e = Inr ()" and "\<exists>rb. b = RocksB rb"
  shows "\<exists>b'. add_binlog_entries es b = Inr b' \<and> batch_holds R crc16 slot view b' (ops @ map entry_op es)
    \<and> (\<exists>rb. b' = RocksB rb)"
  using assms
proof (induction es arbitrary: b ops)
  case (Cons e es)
  obtain rb where rb: "b = RocksB rb" "rocks_holds R view rb ops"
    using Cons.prems by (auto simp: batch_holds_def)
  have valid: "validate_entry crc16 slot e = Inr ()" using Cons.prems by simp
  have cf: "\<exists>cf. cf_from_u32 (be_cf_idx e) = Some cf"
    using validate_entry_slot [OF valid]
    by (auto simp: infer_user_key_def infer_tail_length_def rbind_eq_Inr cf_from_u32_def cf_u32_def
        split: if_splits)
  have "\<exists>rb'. add_binlog_entry e b = Inr (RocksB rb') \<and> rocks_holds R view rb' (ops @ [entry_op e])"
    using valid cf rb rocks_impl.put_law [OF rb(2)] rocks_impl.delete_law [OF rb(2)]
    by (cases "be_op_type e"; cases "be_value e")
      (fastforce simp: add_binlog_entry_def validate_entry_def entry_op_def rbind_eq_Inr)+
  then obtain rb' where "add_binlog_entry e b = Inr (RocksB rb')"
      "rocks_holds R view rb' (ops @ [entry_op e])" by blast
  then show ?case
    using Cons.IH [of "RocksB rb'" "ops @ [entry_op e]"] Cons.prems(2) by (simp add: batch_holds_def)
qed auto

text \<open>A callback that has a single replica apply the proposed binlog at a given log index.\<close>

definition apply_on_replica ::
  "('db, 'c) env \<Rightarrow> ('db, 'c) redis \<Rightarrow> u64 \<Rightarrow> 'db append_log_fn" where
  "apply_on_replica E replica log_index bl db =
     (case on_binlog_write E bl log_index
             \<lparr>sg_insts = [replica\<lparr>rd_db := Some db\<rparr>], sg_slot_indexer = \<lparr>instance_num = 1\<rparr>, sg_db_id = 0\<rparr> of
        (Inl e, sg) \<Rightarrow> (Inl ''apply failed'', db)
      | (Inr _, sg) \<Rightarrow> (Inr binlog_response_ok, the (rd_db (hd (sg_insts sg)))))"

lemma on_binlog_write_owner:
  assumes valid: "validate_binlog (en_crc16 E) sg bl = Inr ()"
    and owner: "unat (bl_slot_idx bl) mod instance_num (sg_slot_indexer sg) = i" "i < length (sg_insts sg)"
    and ok: "instance_ok E view (sg_insts sg ! i)"
  shows "\<exists>inst'. on_binlog_write E bl n sg = (Inr (), sg\<lparr>sg_insts := (sg_insts sg)[i := inst']\<rparr>)
    \<and> contents_of view inst' = apply_ops (map entry_op (bl_entries bl)) (contents_of view (sg_insts sg ! i))
    \<and> instance_ok E view inst'"
proof -
  let ?inst = "sg_insts sg ! i"
  obtain b where b: "create_rocks_batch E ?inst = Inr b"
      "batch_holds (en_rocks E) (en_crc16 E) (bl_slot_idx bl) view b []"
    using create_rocks_batch_holds [OF ok] by blast
  then have "\<exists>rb. b = RocksB rb"
    by (auto simp: create_rocks_batch_def rbind_eq_Inr Let_def)
  moreover have "\<forall>e \<in> set (bl_entries bl). validate_entry (en_crc16 E) (bl_slot_idx bl) e = Inr ()"
    using valid by (simp add: validate_binlog_def validate_binlog_entries_def validate_entries_all
        rbind_eq_Inr Let_def split: if_splits)
  ultimately obtain b' where b': "add_binlog_entries (bl_entries bl) b = Inr b'"
      "batch_holds (en_rocks E) (en_crc16 E) (bl_slot_idx bl) view b' (map entry_op (bl_entries bl))"
    using add_binlog_entries_holds [OF b(2)] by force
  obtain db where db: "rd_db ?inst = Some db" "contents_of view ?inst = view db"
    using ok by (rule instance_okE)
  obtain db' where commit: "batch_commit (en_rocks E) (en_crc16 E) b' db = (Inr (), db')"
      "view db' = apply_ops (map entry_op (bl_entries bl)) (view db)"
    using any_batch.commit_law [OF b'(2), of db] by blast
  have "\<exists>inst'. commit_batch_and_track_logindex E b' n ?inst = (Inr (), inst')
      \<and> rd_db inst' = Some db' \<and> rd_handles inst' = rd_handles ?inst
      \<and> rd_append_log_fn inst' = rd_append_log_fn ?inst"
    using commit(1) db(1)
    by (auto simp: commit_batch_and_track_logindex_def obind_def commit_batch_def Let_def
        split: option.splits)
  then obtain inst' where inst': "commit_batch_and_track_logindex E b' n ?inst = (Inr (), inst')"
      "rd_db inst' = Some db'" "rd_handles inst' = rd_handles ?inst"
      "rd_append_log_fn inst' = rd_append_log_fn ?inst"
    by blast
  have "on_binlog_write E bl n sg = (Inr (), sg\<lparr>sg_insts := (sg_insts sg)[i := inst']\<rparr>)"
    using valid owner b(1) b'(1) inst'(1)
    by (simp add: on_binlog_write_def get_instance_id_def Let_def)
  then show ?thesis
    using inst' commit(2) db ok by (auto simp: contents_of_def instance_ok_def)
qed

lemma on_binlog_write_single:
  assumes ok: "instance_ok E view inst" and db0: "bl_db_id bl = 0"
    and valid: "validate_binlog_entries (en_crc16 E) bl = Inr ()"
  shows "\<exists>inst'. on_binlog_write E bl n
      \<lparr>sg_insts = [inst], sg_slot_indexer = \<lparr>instance_num = 1\<rparr>, sg_db_id = 0\<rparr>
      = (Inr (), \<lparr>sg_insts = [inst'], sg_slot_indexer = \<lparr>instance_num = 1\<rparr>, sg_db_id = 0\<rparr>)
    \<and> contents_of view inst' = apply_ops (map entry_op (bl_entries bl)) (contents_of view inst)
    \<and> instance_ok E view inst'"
  using on_binlog_write_owner [where i = 0 and n = n and bl = bl and E = E and view = view and
      sg = "\<lparr>sg_insts = [inst], sg_slot_indexer = \<lparr>instance_num = 1\<rparr>, sg_db_id = 0\<rparr>"]
    assms
  by (auto simp: validate_binlog_def)

lemma apply_on_replica_append_ok:
  assumes "instance_ok E view replica"
  shows "append_ok (en_crc16 E) view (apply_on_replica E replica n)"
  unfolding append_ok_def
proof (intro allI impI)
  fix bl db
  assume bl: "bl_db_id bl = 0" "validate_binlog_entries (en_crc16 E) bl = Inr ()"
  have "instance_ok E view (replica\<lparr>rd_db := Some db\<rparr>)"
    using assms by (simp add: instance_ok_def)
  from on_binlog_write_single [OF this bl, of n] obtain inst' where
    "on_binlog_write E bl n
      \<lparr>sg_insts = [replica\<lparr>rd_db := Some db\<rparr>], sg_slot_indexer = \<lparr>instance_num = 1\<rparr>, sg_db_id = 0\<rparr>
      = (Inr (), \<lparr>sg_insts = [inst'], sg_slot_indexer = \<lparr>instance_num = 1\<rparr>, sg_db_id = 0\<rparr>)"
    "contents_of view inst' = apply_ops (map entry_op (bl_entries bl)) (view db)"
    by (auto simp: contents_of_def)
  then show "\<exists>resp db'. apply_on_replica E replica n bl db = (Inr resp, db') \<and> br_success resp
      \<and> view db' = apply_ops (map entry_op (bl_entries bl)) (view db)"
    by (simp add: apply_on_replica_def binlog_response_ok_def contents_of_def)
qed

lemma unat_of_nat_u32: "n < 2 ^ 32 \<Longrightarrow> unat (word_of_nat n :: u32) = n"
  by (simp add: unat_of_nat)

section \<open>A concrete environment\<close>

text \<open>The instance of the witnesses: the database is a map, the slot of a key is its length and the
  statistics cache drops everything.\<close>

definition map_env :: "(contents, unit) env" where
  "map_env =
     \<lparr>en_rocks = map_rocks, en_crc16 = (\<lambda>k. word_of_nat (length k)), en_latest_seq = (\<lambda>_. 0),
      en_cache_get = (\<lambda>_ _. None), en_cache_insert = (\<lambda>_ _ _. ()), en_cache_remove = (\<lambda>_ _. ())\<rparr>"

definition map_redis :: "contents \<Rightarrow> (contents, unit) redis" where
  "map_redis V =
     \<lparr>rd_db = Some V, rd_handles = map cf_name all_cfs, rd_statistics_store = (),
      rd_small_compaction_threshold = 5000, rd_small_compaction_duration_threshold = 10000,
      rd_append_log_fn = None, rd_logindex_collector = None, rd_bg_tasks = []\<rparr>"

lemma instance_ok_map [simp]: "instance_ok map_env (\<lambda>V. V) (map_redis V)"
  by (simp add: instance_ok_def map_env_def map_redis_def rocks_ok_map)

lemma contents_of_map [simp]: "contents_of (\<lambda>V. V) (map_redis V) = V"
  by (simp add: contents_of_def map_redis_def)

lemma map_env_sel [simp]: "en_rocks map_env = map_rocks"
  by (simp add: map_env_def)

section \<open>Properties\<close>

text \<open>C15: the type-agnostic staleness check, which reads the count and the expiry at fixed offsets
  without parsing, agrees with the parsed values: a list, hash, set, zset or vector-set meta value is
  stale exactly when its parsed form is not valid (no elements, or a nonzero expiry before the clock),
  and a string value exactly when its expiry has passed.\<close>

theorem is_stale_static_agrees_with_parsers:
  assumes "parsed_lists_meta_value_new v = Inr m" and "length v = 65" and "pv_data_type m = TList"
    and "parsed_base_meta_value_new w = Inr b" and "length w = 49"
    and "pv_data_type b \<in> {THash, TSet, TZSet, TVectorSet}" and "length x + 33 < 2 ^ 64"
  shows "is_stale_static now v = Inr (\<not> list_is_valid now m)
    \<and> is_stale_static now w = Inr (\<not> base_meta_is_valid now b)
    \<and> (\<exists>s. parsed_strings_value_new (string_value_encode ((string_value_new ct x)\<lparr>iv_etime := et\<rparr>)) = Inr s
         \<and> is_stale_static now (pv_value s) = Inr (pv_is_stale now s))"
proof -
  have stale_iff: "pv_is_stale now p \<longleftrightarrow> expired now (pv_etime p)" for p :: "'z parsed_internal_value_scheme"
    by (simp add: pv_is_stale_def expired_def)
  have "is_stale_static now v = Inr (\<not> list_is_valid now m)"
    using parsed_lists_meta_value_coherent [OF assms(1,2)] assms(3)
    by (auto elim!: coherent_listE simp: is_stale_list_meta list_is_valid_def pv_is_stale_def expired_def)
  moreover have "is_stale_static now w = Inr (\<not> base_meta_is_valid now b)"
    using parsed_base_meta_value_coherent [OF assms(4,5)] assms(6)
    by (auto elim!: coherent_baseE simp: is_stale_base_meta base_meta_is_valid_def pv_is_stale_def expired_def)
  moreover have "string_value_encode ((string_value_new ct x)\<lparr>iv_etime := et\<rparr>)
      = [data_type_u8 TString] @ x @ replicate 16 0 @ u64_le ct @ u64_le et"
    by (simp add: string_value_encode_def string_value_new_def internal_value_new_def)
  ultimately show ?thesis
    using parsed_strings_value_encode [OF assms(7), of TString ct et]
      is_stale_string [OF assms(7), of now ct et]
    by (simp add: pv_is_stale_def expired_def)
qed

theorem is_stale_static_agrees_with_parsers_witness:
  "is_stale_static 10 (list_meta_bytes TList 2 7 4 6 (replicate 16 0) 1 9) = Inr True
   \<and> is_stale_static 10 (base_meta_bytes THash 2 7 (replicate 16 0) 1 0) = Inr False"
  using is_stale_static_agrees_with_parsers
    [where v = "list_meta_bytes TList 2 7 4 6 (replicate 16 0) 1 9" and now = 10
      and w = "base_meta_bytes THash 2 7 (replicate 16 0) 1 0" and x = "[]" and ct = 0 and et = 0]
  by (simp add: list_is_valid_def base_meta_is_valid_def pv_is_stale_def)

text \<open>C4: cluster mode refines standalone mode. Take any operations on keys of one slot and build the
  batch \<open>create_batch\<close> gives: committing it through Raft, with a replica that applies the proposed
  binlog by \<open>on_binlog_write\<close>, leaves exactly the contents that committing it straight to RocksDB
  leaves, namely those operations applied in order.\<close>

theorem cluster_commit_equals_standalone:
  assumes "instance_ok E view st" and "rd_append_log_fn st = None" and "instance_ok E view replica"
    and "list_all (batch_op_key_ok (slot_key_ok (en_crc16 E) slot)) ops"
  shows "\<exists>b s b' s'.
      rbind (create_batch E st) (add_ops batch_put batch_delete ops) = Inr b
    \<and> commit_batch E b st = (Inr (), s)
    \<and> rbind (create_batch E (set_append_log_fn (apply_on_replica E replica n) st))
        (add_ops batch_put batch_delete ops) = Inr b'
    \<and> commit_batch E b' (set_append_log_fn (apply_on_replica E replica n) st) = (Inr (), s')
    \<and> contents_of view s = apply_ops (map write_op_of ops) (contents_of view st)
    \<and> contents_of view s' = contents_of view s"
proof -
  let ?c = "set_append_log_fn (apply_on_replica E replica n) st"
  have c: "instance_ok E view ?c" "contents_of view ?c = contents_of view st"
    using assms apply_on_replica_append_ok [OF assms(3)]
    by (simp_all add: set_append_log_fn_def instance_ok_def contents_of_def)
  from commit_ops_ok [OF assms(1,4)] commit_ops_ok [OF c(1) assms(4)] c(2) show ?thesis
    by metis
qed

theorem cluster_commit_equals_standalone_witness:
  "\<exists>b' s'. commit_batch map_env b'
      (set_append_log_fn (apply_on_replica map_env (map_redis (\<lambda>_ _. None)) 7) (map_redis (\<lambda>_ _. None)))
      = (Inr (), s')
    \<and> contents_of (\<lambda>V. V) s' ''default'' (base_key_bytes [1]) = Some [42]"
proof -
  let ?ops = "[BPut MetaCF (base_key_bytes [1]) [42]]"
  have keys: "list_all (batch_op_key_ok (slot_key_ok (en_crc16 map_env) (slot_of (en_crc16 map_env) [1])))
      ?ops"
    by (simp add: slot_key_ok_def)
  have none: "rd_append_log_fn (map_redis (\<lambda>_ _. None)) = None" by (simp add: map_redis_def)
  obtain s :: "(contents, unit) redis" and b' s' where
    "commit_batch map_env b' (set_append_log_fn (apply_on_replica map_env (map_redis (\<lambda>_ _. None)) 7)
        (map_redis (\<lambda>_ _. None))) = (Inr (), s')"
    "contents_of (\<lambda>V. V) s = apply_ops (map write_op_of ?ops) (\<lambda>_ _. None)"
    "contents_of (\<lambda>V. V) s' = contents_of (\<lambda>V. V) s"
    using cluster_commit_equals_standalone [where st = "map_redis (\<lambda>_ _. None)" and n = 7
      and replica = "map_redis (\<lambda>_ _. None)", OF instance_ok_map none instance_ok_map keys]
    unfolding contents_of_map by blast
  then show ?thesis by (intro exI [of _ b'] exI [of _ s']) simp
qed

text \<open>What makes a binlog acceptable: it names this database, has entries, each entry is a put with a
  value or a deletion without one, on a well-formed key whose user key hashes to the slot of the
  binlog, and an instance serves that slot.\<close>

definition binlog_acceptable :: "(bytes \<Rightarrow> u16) \<Rightarrow> ('db, 'c) storage \<Rightarrow> binlog \<Rightarrow> bool" where
  "binlog_acceptable crc16 sg bl \<longleftrightarrow>
     unat (bl_db_id bl) = sg_db_id sg \<and> bl_entries bl \<noteq> []
     \<and> list_all (\<lambda>e. be_op_type e = (if be_value e = None then Delete else Put)
          \<and> (case infer_user_key (be_cf_idx e) (be_key e) of
               Inl _ \<Rightarrow> False
             | Inr user_key \<Rightarrow> key_to_slot_id crc16 user_key = unat (bl_slot_idx bl))) (bl_entries bl)
     \<and> unat (bl_slot_idx bl) mod instance_num (sg_slot_indexer sg) < length (sg_insts sg)"

lemma key_to_slot_id_u32:
  "(word_of_nat (key_to_slot_id crc16 k) :: u32) = slot \<longleftrightarrow> key_to_slot_id crc16 k = unat slot"
proof -
  have "unat (word_of_nat (key_to_slot_id crc16 k) :: u32) = key_to_slot_id crc16 k"
    unfolding key_to_slot_id_def
  proof (rule unat_of_nat_u32)
    show "unat (crc16 k) < 2 ^ 32" using unsigned_less [where 'a = nat, of "crc16 k"] by simp
  qed
  then show ?thesis by (simp add: word_unat_eq_iff)
qed

lemma validate_entry_Inr:
  "validate_entry crc16 slot e = Inr () \<longleftrightarrow>
     be_op_type e = (if be_value e = None then Delete else Put)
     \<and> (case infer_user_key (be_cf_idx e) (be_key e) of
          Inl _ \<Rightarrow> False | Inr user_key \<Rightarrow> key_to_slot_id crc16 user_key = unat slot)"
  by (cases "be_op_type e"; cases "be_value e"; cases "infer_user_key (be_cf_idx e) (be_key e)")
    (simp_all add: validate_entry_def key_to_slot_id_u32 Let_def)

lemma binlog_acceptable_valid:
  "binlog_acceptable (en_crc16 E) sg bl \<longleftrightarrow> validate_binlog (en_crc16 E) sg bl = Inr ()
     \<and> unat (bl_slot_idx bl) mod instance_num (sg_slot_indexer sg) < length (sg_insts sg)"
proof -
  have "unat (bl_db_id bl) = sg_db_id sg \<longleftrightarrow> sg_db_id sg < 2 ^ 32 \<and> bl_db_id bl = word_of_nat (sg_db_id sg)"
    using unsigned_less [where 'a = nat, of "bl_db_id bl"] by (auto simp: unat_of_nat word_unat_eq_iff)
  then show ?thesis
    by (auto simp: binlog_acceptable_def validate_binlog_def validate_binlog_entries_def rbind_eq_Inr
        validate_entries_all validate_entry_Inr list_all_iff Let_def split: if_splits)
qed

text \<open>C14: the Raft apply path. On a storage of open instances, \<open>on_binlog_write\<close> applies a binlog
  exactly when it is acceptable: it names this database, has at least one entry, every entry is a put
  with a value or a deletion without one on a well-formed key of the binlog's slot, and an instance
  serves the slot. Then the entries are applied in order to the instance that owns the slot and every
  other instance stays as it was. Otherwise the result is an error and nothing has changed.\<close>

theorem on_binlog_write_confined:
  assumes "\<forall>inst \<in> set (sg_insts sg). instance_ok E view inst" and "0 < instance_num (sg_slot_indexer sg)"
  shows "if binlog_acceptable (en_crc16 E) sg bl
    then \<exists>inst'. on_binlog_write E bl n sg = (Inr (), sg\<lparr>sg_insts := (sg_insts sg)
             [unat (bl_slot_idx bl) mod instance_num (sg_slot_indexer sg) := inst']\<rparr>)
      \<and> instance_ok E view inst'
      \<and> contents_of view inst' = apply_ops (map entry_op (bl_entries bl))
          (contents_of view (sg_insts sg ! (unat (bl_slot_idx bl) mod instance_num (sg_slot_indexer sg))))
    else \<exists>e. on_binlog_write E bl n sg = (Inl e, sg)"
proof (cases "binlog_acceptable (en_crc16 E) sg bl")
  case True
  then have valid: "validate_binlog (en_crc16 E) sg bl = Inr ()"
    and owner: "unat (bl_slot_idx bl) mod instance_num (sg_slot_indexer sg) < length (sg_insts sg)"
    by (simp_all add: binlog_acceptable_valid)
  then show ?thesis
    using True on_binlog_write_owner [OF valid refl owner, of view n] assms(1) by auto
next
  case False
  then show ?thesis
    by (cases "validate_binlog (en_crc16 E) sg bl")
      (auto simp: binlog_acceptable_valid on_binlog_write_def get_instance_id_def)
qed

text \<open>Two instances, a binlog of slot 1 that is applied to the second, and an empty one that is
  refused.\<close>

theorem on_binlog_write_confined_witness:
  "(\<exists>inst'. on_binlog_write map_env
       \<lparr>bl_db_id = 0, bl_slot_idx = 1, bl_entries =
          [\<lparr>be_cf_idx = 0, be_op_type = Put, be_key = base_key_bytes [5], be_value = Some [7]\<rparr>]\<rparr> 3
       \<lparr>sg_insts = [map_redis (\<lambda>_ _. None), map_redis (\<lambda>_ _. None)],
        sg_slot_indexer = \<lparr>instance_num = 2\<rparr>, sg_db_id = 0\<rparr>
       = (Inr (), \<lparr>sg_insts = [map_redis (\<lambda>_ _. None), inst'],
            sg_slot_indexer = \<lparr>instance_num = 2\<rparr>, sg_db_id = 0\<rparr>)
       \<and> contents_of (\<lambda>V. V) inst' (cf_name MetaCF) (base_key_bytes [5]) = Some [7])
   \<and> (\<exists>e. on_binlog_write map_env \<lparr>bl_db_id = 0, bl_slot_idx = 1, bl_entries = []\<rparr> 3
       \<lparr>sg_insts = [map_redis (\<lambda>_ _. None), map_redis (\<lambda>_ _. None)],
        sg_slot_indexer = \<lparr>instance_num = 2\<rparr>, sg_db_id = 0\<rparr>
       = (Inl e, \<lparr>sg_insts = [map_redis (\<lambda>_ _. None), map_redis (\<lambda>_ _. None)],
            sg_slot_indexer = \<lparr>instance_num = 2\<rparr>, sg_db_id = 0\<rparr>))"
proof -
  let ?e = "\<lparr>be_cf_idx = 0, be_op_type = Put, be_key = base_key_bytes [5], be_value = Some [7]\<rparr>"
  let ?bl = "\<lparr>bl_db_id = 0, bl_slot_idx = 1, bl_entries = [?e]\<rparr> :: binlog"
  let ?none = "\<lparr>bl_db_id = 0, bl_slot_idx = 1, bl_entries = []\<rparr> :: binlog"
  let ?sg = "\<lparr>sg_insts = [map_redis (\<lambda>_ _. None), map_redis (\<lambda>_ _. None)],
      sg_slot_indexer = \<lparr>instance_num = 2\<rparr>, sg_db_id = 0\<rparr>"
  have "infer_user_key 0 (base_key_bytes [5]) = Inr [5]"
    using infer_user_key_meta [of "[5]"] by (simp add: cf_u32_def)
  then have acc: "binlog_acceptable (en_crc16 map_env) ?sg ?bl" "\<not> binlog_acceptable (en_crc16 map_env) ?sg ?none"
    by (simp_all add: binlog_acceptable_def key_to_slot_id_def map_env_def)
  have ok: "\<forall>inst \<in> set (sg_insts ?sg). instance_ok map_env (\<lambda>V. V) inst" "0 < instance_num (sg_slot_indexer ?sg)"
    by simp_all
  have "entry_op ?e = WPut (cf_name MetaCF) (base_key_bytes [5]) [7]"
    using cf_from_u32_cf_u32 [of MetaCF] by (simp add: entry_op_def cf_u32_def)
  then show ?thesis
    using on_binlog_write_confined [OF ok, of ?bl 3] on_binlog_write_confined [OF ok, of ?none 3] acc
    by (auto simp del: cf_name.simps)
qed

end
