(* ===== verification/Redis_Lists.thy ===== *)
theory Redis_Lists
  imports Redis_Core
begin

text \<open>
  The list commands (\<^verbatim>\<open>src/storage/src/redis_lists.rs\<close>). A list is a meta value under the
  user key, with a count, a version and the two indexes, and one data value per element in
  \<open>list_data_cf\<close> under (key, version, index); element \<open>i\<close> of the list is at index
  \<open>left_index + i + 1\<close>.

  The argument \<open>clk\<close> of a command gives its successive readings of the clock: reading 0 is the
  staleness check, 1 and 2 belong to a fresh meta value and to \<open>update_version\<close>, and the data values
  written take the readings from 3 on. The record lock a command holds is not part of the state, so
  \<open>push_core\<close> does not take the flag that says whether to acquire it. The block that fetches the
  meta value is the same in every command and is one definition, and so are the loops that read
  elements, encode keys and encode data values.
\<close>

section \<open>Shared blocks\<close>

definition new_list_meta :: "u64 \<Rightarrow> u64 \<Rightarrow> parsed_lists_meta_value result" where
  "new_list_meta now now' =
     rbind (parsed_lists_meta_value_new (lists_meta_value_encode (lists_meta_value_new now (u64_le 0))))
       (\<lambda>parsed.
     rbind (list_initial_meta_value now' parsed) (\<lambda>(_, parsed). Inr parsed))"

text \<open>\<open>None\<close> when the key is missing or stale.\<close>

definition get_list_meta ::
  "('db, 'c) env \<Rightarrow> u64 \<Rightarrow> 'db \<Rightarrow> bytes \<Rightarrow> parsed_lists_meta_value option result" where
  "get_list_meta E now db meta_key =
     rbind (db_get E db meta_key) (\<lambda>r.
     case r of
       Some meta_value \<Rightarrow>
         rbind (check_type_state now meta_value TList) (\<lambda>s.
         case s of
           Match \<Rightarrow> rbind (parsed_lists_meta_value_new meta_value) (\<lambda>m. Inr (Some m))
         | _ \<Rightarrow> Inr None)
     | None \<Rightarrow> Inr None)"

definition list_meta_key :: "bytes \<Rightarrow> bytes result" where
  "list_meta_key key = base_key_encode (base_key_new key)"

definition data_key :: "bytes \<Rightarrow> u64 \<Rightarrow> u64 \<Rightarrow> bytes result" where
  "data_key key version storage_index = lists_data_key_encode (lists_data_key_new key version storage_index)"

text \<open>The indexes \<open>base + i + 1\<close> for \<open>i\<close> in \<open>0..n\<close>.\<close>

definition storage_indexes :: "u64 \<Rightarrow> nat \<Rightarrow> u64 list" where
  "storage_indexes base n = map (\<lambda>i. base + word_of_nat i + 1) [0..<n]"

text \<open>Reads the elements at the given indexes; those that are present come with the loop counter and
  their encoded key.\<close>

fun read_elements ::
  "('db, 'c) env \<Rightarrow> 'db \<Rightarrow> string \<Rightarrow> bytes \<Rightarrow> u64 \<Rightarrow> nat \<Rightarrow> u64 list \<Rightarrow> (nat \<times> bytes \<times> bytes) list result" where
  "read_elements E db cf key version i [] = Inr []"
| "read_elements E db cf key version i (storage_index # rest) =
     rbind (data_key key version storage_index) (\<lambda>encoded_data_key.
     rbind (db_get_cf E db cf encoded_data_key) (\<lambda>r.
     case r of
       Some data_value \<Rightarrow>
         rbind (parsed_base_data_value_new data_value) (\<lambda>parsed_data.
         rbind (pv_user_value parsed_data) (\<lambda>element.
         rbind (read_elements E db cf key version (Suc i) rest) (\<lambda>es.
         Inr ((i, encoded_data_key, element) # es))))
     | None \<Rightarrow> read_elements E db cf key version (Suc i) rest))"

fun encode_keys :: "bytes \<Rightarrow> u64 \<Rightarrow> u64 list \<Rightarrow> bytes list result" where
  "encode_keys key version [] = Inr []"
| "encode_keys key version (storage_index # rest) =
     rbind (data_key key version storage_index) (\<lambda>k.
     rbind (encode_keys key version rest) (\<lambda>ks. Inr (k # ks)))"

fun encode_puts ::
  "(nat \<Rightarrow> u64) \<Rightarrow> nat \<Rightarrow> bytes \<Rightarrow> u64 \<Rightarrow> (u64 \<times> bytes) list \<Rightarrow> (bytes \<times> bytes) list result" where
  "encode_puts clk n key version [] = Inr []"
| "encode_puts clk n key version ((storage_index, value) # rest) =
     rbind (data_key key version storage_index) (\<lambda>k.
     let encoded_data_value = base_data_value_encode (base_data_value_new (clk n) value) in
     rbind (encode_puts clk (Suc n) key version rest) (\<lambda>puts. Inr ((k, encoded_data_value) # puts)))"

definition delete_ops :: "bytes list \<Rightarrow> batch_op list" where
  "delete_ops ks = map (BDelete ListsDataCF) ks"

definition put_ops :: "(bytes \<times> bytes) list \<Rightarrow> batch_op list" where
  "put_ops kvs = map (\<lambda>(k, v). BPut ListsDataCF k v) kvs"

section \<open>Pushes\<close>

text \<open>The two branches of the left push and of the right push: the deletes, the puts and the updated
  meta value they collect.\<close>

definition push_left ::
  "('db, 'c) env \<Rightarrow> (nat \<Rightarrow> u64) \<Rightarrow> 'db \<Rightarrow> string \<Rightarrow> bytes \<Rightarrow> bytes list \<Rightarrow> parsed_lists_meta_value
     \<Rightarrow> (bytes list \<times> (bytes \<times> bytes) list \<times> parsed_lists_meta_value) result" where
  "push_left E clk db lists_data_cf key values m =
     (let current_version = pv_version m; current_count = list_count m;
          n = word_of_nat (length values) in
      if current_count = 0 then
        rbind (encode_puts clk 3 key current_version
                 (zip (storage_indexes (left_index m - n) (length values)) (rev values))) (\<lambda>puts.
        rbind (list_modify_left_index n m) (\<lambda>m.
        rbind (list_modify_count n m) (\<lambda>m.
        rbind (list_set_right_index (left_index m + list_count m) m) (\<lambda>m.
        Inr ([], puts, m)))))
      else
        rbind (read_elements E db lists_data_cf key current_version 0
                 (storage_indexes (left_index m) (unat current_count))) (\<lambda>es.
        let existing_elements = map (\<lambda>(_, _, x). x) es in
        rbind (encode_keys key current_version
                 (storage_indexes (left_index m) (unat current_count))) (\<lambda>deletes.
        rbind (list_update_version (clk 2) m) (\<lambda>(version, m).
        rbind (encode_puts clk 3 key version
                 (zip (storage_indexes (left_index m - n) (length values)) (rev values))) (\<lambda>puts1.
        rbind (encode_puts clk (3 + length values) key version
                 (zip (storage_indexes (left_index m) (length existing_elements)) existing_elements))
          (\<lambda>puts2.
        rbind (list_set_left_index (left_index m - n) m) (\<lambda>m.
        rbind (list_set_count (current_count + n) m) (\<lambda>m.
        rbind (list_set_right_index (left_index m + list_count m) m) (\<lambda>m.
        Inr (deletes, puts1 @ puts2, m))))))))))"

definition push_right ::
  "(nat \<Rightarrow> u64) \<Rightarrow> bytes \<Rightarrow> bytes list \<Rightarrow> parsed_lists_meta_value
     \<Rightarrow> (bytes list \<times> (bytes \<times> bytes) list \<times> parsed_lists_meta_value) result" where
  "push_right clk key values m =
     (let current_version = pv_version m; current_count = list_count m;
          n = word_of_nat (length values) in
      rbind
        (if current_count = 0 then
           rbind (encode_puts clk 3 key current_version
                    (zip (storage_indexes (left_index m) (length values)) values)) (\<lambda>puts.
           rbind (list_set_right_index (left_index m + n) m) (\<lambda>m. Inr (puts, m)))
         else
           rbind (encode_puts clk 3 key current_version
                    (zip (storage_indexes (left_index m + current_count) (length values)) values)) (\<lambda>puts.
           rbind (list_set_right_index (left_index m + current_count + n) m) (\<lambda>m. Inr (puts, m))))
        (\<lambda>(puts, m).
      rbind (list_modify_count n m) (\<lambda>m. Inr ([], puts, m))))"

definition push_core ::
  "('db, 'c) env \<Rightarrow> (nat \<Rightarrow> u64) \<Rightarrow> bytes \<Rightarrow> bytes list \<Rightarrow> bool \<Rightarrow> bool \<Rightarrow> ('db, 'c) redis
     \<Rightarrow> i64 option result \<times> ('db, 'c) redis" where
  "push_core E clk key values position allow_create st =
     obind (olift (get_db_and_cfs E st [ListsDataCF])) (\<lambda>(db, cfs).
     let lists_data_cf = hd cfs in
     obind (olift (list_meta_key key)) (\<lambda>meta_key.
     if values = [] then
       olift (rbind (get_list_meta E (clk 0) db meta_key) (\<lambda>r.
         case r of Some m \<Rightarrow> Inr (Some (u64_as_i64 (list_count m))) | None \<Rightarrow> Inr (Some 0)))
     else
       obind (olift (get_list_meta E (clk 0) db meta_key)) (\<lambda>r.
       if r = None \<and> \<not> allow_create then oreturn None else
       obind (olift (case r of Some m \<Rightarrow> Inr m | None \<Rightarrow> new_list_meta (clk 1) (clk 2))) (\<lambda>m.
       obind (olift (if position then push_left E clk db lists_data_cf key values m
                     else push_right clk key values m)) (\<lambda>(deletes, puts, m).
       obind (write_ops E (delete_ops deletes @ put_ops puts @ [BPut MetaCF meta_key (pv_value m)])) (\<lambda>_.
       obind (update_specific_key_statistics E TList (from_utf8_lossy key) (word_of_nat (length values))) (\<lambda>_.
       oreturn (Some (u64_as_i64 (list_count m)))))))))) st"

definition lpush ::
  "('db, 'c) env \<Rightarrow> (nat \<Rightarrow> u64) \<Rightarrow> bytes \<Rightarrow> bytes list \<Rightarrow> ('db, 'c) redis \<Rightarrow> i64 result \<times> ('db, 'c) redis" where
  "lpush E clk key values =
     obind (push_core E clk key values True True) (\<lambda>r.
     olift (case r of Some count \<Rightarrow> Inr count
            | None \<Rightarrow> Inl (OptionNone ''lpush always creates list when key doesn't exist'')))"

definition rpush ::
  "('db, 'c) env \<Rightarrow> (nat \<Rightarrow> u64) \<Rightarrow> bytes \<Rightarrow> bytes list \<Rightarrow> ('db, 'c) redis \<Rightarrow> i64 result \<times> ('db, 'c) redis" where
  "rpush E clk key values =
     obind (push_core E clk key values False True) (\<lambda>r.
     olift (case r of Some count \<Rightarrow> Inr count
            | None \<Rightarrow> Inl (OptionNone ''rpush always creates list when key doesn't exist'')))"

definition lpushx ::
  "('db, 'c) env \<Rightarrow> (nat \<Rightarrow> u64) \<Rightarrow> bytes \<Rightarrow> bytes list \<Rightarrow> ('db, 'c) redis \<Rightarrow> i64 result \<times> ('db, 'c) redis" where
  "lpushx E clk key values =
     obind (push_core E clk key values True False) (\<lambda>r.
     oreturn (case r of Some count \<Rightarrow> count | None \<Rightarrow> 0))"

definition rpushx ::
  "('db, 'c) env \<Rightarrow> (nat \<Rightarrow> u64) \<Rightarrow> bytes \<Rightarrow> bytes list \<Rightarrow> ('db, 'c) redis \<Rightarrow> i64 result \<times> ('db, 'c) redis" where
  "rpushx E clk key values =
     obind (push_core E clk key values False False) (\<lambda>r.
     oreturn (case r of Some count \<Rightarrow> count | None \<Rightarrow> 0))"

section \<open>Pops\<close>

definition pop_count_of :: "nat option \<Rightarrow> parsed_lists_meta_value \<Rightarrow> nat" where
  "pop_count_of count m = min (case count of Some c \<Rightarrow> c | None \<Rightarrow> 1) (unat (list_count m))"

definition lpop ::
  "('db, 'c) env \<Rightarrow> (nat \<Rightarrow> u64) \<Rightarrow> bytes \<Rightarrow> nat option \<Rightarrow> ('db, 'c) redis
     \<Rightarrow> bytes list option result \<times> ('db, 'c) redis" where
  "lpop E clk key count st =
     obind (olift (get_db_and_cfs E st [ListsDataCF])) (\<lambda>(db, cfs).
     let lists_data_cf = hd cfs in
     obind (olift (list_meta_key key)) (\<lambda>meta_key.
     obind (olift (get_list_meta E (clk 0) db meta_key)) (\<lambda>r.
     case r of
       None \<Rightarrow> oreturn None
     | Some m \<Rightarrow>
       (let pop_count = pop_count_of count m in
        obind (olift (read_elements E db lists_data_cf key (pv_version m) 0
                 (storage_indexes (left_index m) pop_count))) (\<lambda>es.
        let elements = map (\<lambda>(_, _, x). x) es; keys_to_delete = map (\<lambda>(_, k, _). k) es in
        obind (olift (list_set_left_index (left_index m + word_of_nat pop_count) m)) (\<lambda>m.
        obind (olift (list_set_count (list_count m - word_of_nat pop_count) m)) (\<lambda>m.
        obind (write_ops E (delete_ops keys_to_delete @
                 (if list_count m = 0 then [BDelete MetaCF meta_key]
                  else [BPut MetaCF meta_key (pv_value m)]))) (\<lambda>_.
        obind (update_specific_key_statistics E TList (from_utf8_lossy key) (word_of_nat pop_count)) (\<lambda>_.
        oreturn (if elements = [] then None else Some elements))))))))))  st"

text \<open>The indexes \<open>right_index - i\<close> for \<open>i\<close> in \<open>0..n\<close>.\<close>

definition indexes_down :: "u64 \<Rightarrow> nat \<Rightarrow> u64 list" where
  "indexes_down right n = map (\<lambda>i. right - word_of_nat i) [0..<n]"

definition rpop_internal ::
  "('db, 'c) env \<Rightarrow> (nat \<Rightarrow> u64) \<Rightarrow> bytes \<Rightarrow> nat option \<Rightarrow> ('db, 'c) redis
     \<Rightarrow> bytes list option result \<times> ('db, 'c) redis" where
  "rpop_internal E clk key count st =
     obind (olift (get_db_and_cfs E st [ListsDataCF])) (\<lambda>(db, cfs).
     let lists_data_cf = hd cfs in
     obind (olift (list_meta_key key)) (\<lambda>meta_key.
     obind (olift (get_list_meta E (clk 0) db meta_key)) (\<lambda>r.
     case r of
       None \<Rightarrow> oreturn None
     | Some m \<Rightarrow>
       (let pop_count = pop_count_of count m in
        obind (olift (read_elements E db lists_data_cf key (pv_version m) 0
                 (indexes_down (right_index m) pop_count))) (\<lambda>es.
        let elements = map (\<lambda>(_, _, x). x) es; keys_to_delete = map (\<lambda>(_, k, _). k) es in
        obind (olift (list_set_right_index (right_index m - word_of_nat pop_count) m)) (\<lambda>m.
        obind (olift (list_set_count (list_count m - word_of_nat pop_count) m)) (\<lambda>m.
        obind (write_ops E (delete_ops keys_to_delete @
                 (if list_count m = 0 then [BDelete MetaCF meta_key]
                  else [BPut MetaCF meta_key (pv_value m)]))) (\<lambda>_.
        obind (update_specific_key_statistics E TList (from_utf8_lossy key) (word_of_nat pop_count)) (\<lambda>_.
        oreturn (Some elements))))))))))  st"

text \<open>\<open>rpop\<close> repeats the body of \<open>rpop_internal\<close> and differs in its last lines.\<close>

definition rpop ::
  "('db, 'c) env \<Rightarrow> (nat \<Rightarrow> u64) \<Rightarrow> bytes \<Rightarrow> nat option \<Rightarrow> ('db, 'c) redis
     \<Rightarrow> bytes list option result \<times> ('db, 'c) redis" where
  "rpop E clk key count =
     obind (rpop_internal E clk key count) (\<lambda>r.
     oreturn (case r of
                None \<Rightarrow> None
              | Some elements \<Rightarrow> if elements = [] then None else Some elements))"

section \<open>Reads\<close>

definition llen ::
  "('db, 'c) env \<Rightarrow> (nat \<Rightarrow> u64) \<Rightarrow> bytes \<Rightarrow> ('db, 'c) redis \<Rightarrow> i64 result" where
  "llen E clk key st =
     rbind (list_meta_key key) (\<lambda>meta_key.
     rbind (get_db_and_cfs E st [MetaCF]) (\<lambda>(db, _).
     rbind (get_list_meta E (clk 0) db meta_key) (\<lambda>r.
     case r of None \<Rightarrow> Inr 0 | Some m \<Rightarrow> Inr (u64_as_i64 (list_count m)))))"

definition real_index_of :: "i64 \<Rightarrow> parsed_lists_meta_value \<Rightarrow> i64" where
  "real_index_of index m = (if index < 0 then wrap_i64 (u64_as_i64 (list_count m) + index) else index)"

definition lindex ::
  "('db, 'c) env \<Rightarrow> (nat \<Rightarrow> u64) \<Rightarrow> bytes \<Rightarrow> i64 \<Rightarrow> ('db, 'c) redis \<Rightarrow> bytes option result" where
  "lindex E clk key index st =
     rbind (get_db_and_cfs E st [ListsDataCF]) (\<lambda>(db, cfs).
     let lists_data_cf = hd cfs in
     rbind (list_meta_key key) (\<lambda>meta_key.
     rbind (get_list_meta E (clk 0) db meta_key) (\<lambda>r.
     case r of
       None \<Rightarrow> Inr None
     | Some m \<Rightarrow>
       (let real_index = real_index_of index m in
        if real_index < 0 \<or> u64_as_i64 (list_count m) \<le> real_index then Inr None else
        let storage_index = left_index m + i64_as_u64 real_index + 1 in
        rbind (data_key key (pv_version m) storage_index) (\<lambda>encoded_data_key.
        rbind (db_get_cf E db lists_data_cf encoded_data_key) (\<lambda>v.
        case v of
          None \<Rightarrow> Inr None
        | Some data_value \<Rightarrow>
          rbind (parsed_base_data_value_new data_value) (\<lambda>parsed_data.
          rbind (pv_user_value parsed_data) (\<lambda>user_value. Inr (Some user_value)))))))))"

text \<open>The index normalisation of \<open>lrange\<close> and \<open>ltrim\<close>.\<close>

definition real_start_of :: "i64 \<Rightarrow> i64 \<Rightarrow> i64" where
  "real_start_of list_len start =
     (if start < 0 then max (wrap_i64 (list_len + start)) 0 else min start (wrap_i64 (list_len - 1)))"

definition real_stop_of :: "i64 \<Rightarrow> i64 \<Rightarrow> i64" where
  "real_stop_of list_len stop =
     (if stop < 0 then max (wrap_i64 (list_len + stop)) (- 1) else min stop (wrap_i64 (list_len - 1)))"

text \<open>The storage indexes \<open>left_index + i as u64 + 1\<close> for \<open>i\<close> from \<open>a\<close> to \<open>b\<close> inclusive.\<close>

definition range_indexes :: "u64 \<Rightarrow> i64 \<Rightarrow> i64 \<Rightarrow> u64 list" where
  "range_indexes left a b = map (\<lambda>i. left + i64_as_u64 i + 1) [a..b]"

definition lrange ::
  "('db, 'c) env \<Rightarrow> (nat \<Rightarrow> u64) \<Rightarrow> bytes \<Rightarrow> i64 \<Rightarrow> i64 \<Rightarrow> ('db, 'c) redis \<Rightarrow> bytes list result" where
  "lrange E clk key start stop st =
     rbind (get_db_and_cfs E st [ListsDataCF]) (\<lambda>(db, cfs).
     let lists_data_cf = hd cfs in
     rbind (list_meta_key key) (\<lambda>meta_key.
     rbind (get_list_meta E (clk 0) db meta_key) (\<lambda>r.
     case r of
       None \<Rightarrow> Inr []
     | Some m \<Rightarrow>
       (let list_len = u64_as_i64 (list_count m);
            real_start = real_start_of list_len start; real_stop = real_stop_of list_len stop in
        if real_stop < real_start \<or> list_len \<le> real_start then Inr [] else
        rbind (read_elements E db lists_data_cf key (pv_version m) 0
                 (range_indexes (left_index m) real_start real_stop)) (\<lambda>es.
        Inr (map (\<lambda>(_, _, x). x) es))))))"

section \<open>Updates\<close>

definition lset ::
  "('db, 'c) env \<Rightarrow> (nat \<Rightarrow> u64) \<Rightarrow> bytes \<Rightarrow> i64 \<Rightarrow> bytes \<Rightarrow> ('db, 'c) redis \<Rightarrow> unit result \<times> ('db, 'c) redis" where
  "lset E clk key index value st =
     obind (olift (get_db_and_cfs E st [ListsDataCF])) (\<lambda>(db, _).
     obind (olift (list_meta_key key)) (\<lambda>meta_key.
     obind (olift (get_list_meta E (clk 0) db meta_key)) (\<lambda>r.
     case r of
       None \<Rightarrow> olift (Inl (KeyNotFound (from_utf8_lossy key)))
     | Some m \<Rightarrow>
       (let real_index = real_index_of index m in
        if real_index < 0 \<or> u64_as_i64 (list_count m) \<le> real_index
        then olift (Inl (InvalidFormat ''index out of range'')) else
        let storage_index = left_index m + i64_as_u64 real_index + 1 in
        obind (olift (data_key key (pv_version m) storage_index)) (\<lambda>encoded_data_key.
        let encoded_data_value = base_data_value_encode (base_data_value_new (clk 3) value) in
        write_ops E [BPut ListsDataCF encoded_data_key encoded_data_value]))))) st"

definition ltrim ::
  "('db, 'c) env \<Rightarrow> (nat \<Rightarrow> u64) \<Rightarrow> bytes \<Rightarrow> i64 \<Rightarrow> i64 \<Rightarrow> ('db, 'c) redis \<Rightarrow> unit result \<times> ('db, 'c) redis" where
  "ltrim E clk key start stop st =
     obind (olift (get_db_and_cfs E st [ListsDataCF])) (\<lambda>(db, _).
     obind (olift (list_meta_key key)) (\<lambda>meta_key.
     obind (olift (get_list_meta E (clk 0) db meta_key)) (\<lambda>r.
     case r of
       None \<Rightarrow> oreturn ()
     | Some m \<Rightarrow>
       (let list_len = u64_as_i64 (list_count m);
            real_start = real_start_of list_len start; real_stop = real_stop_of list_len stop in
        if real_stop < real_start \<or> list_len \<le> real_start then
          obind (olift (encode_keys key (pv_version m)
                   (storage_indexes (left_index m) (unat (list_count m))))) (\<lambda>keys_to_delete.
          write_ops E (delete_ops keys_to_delete @ [BDelete MetaCF meta_key]))
        else
          obind (olift (encode_keys key (pv_version m)
                   (range_indexes (left_index m) 0 (real_start - 1)))) (\<lambda>before.
          obind (olift (encode_keys key (pv_version m)
                   (range_indexes (left_index m) (real_stop + 1) (list_len - 1)))) (\<lambda>after.
          let new_count = i64_as_u64 (real_stop - real_start + 1) in
          obind (olift (list_set_count new_count m)) (\<lambda>m.
          let new_left_index = left_index m + i64_as_u64 real_start in
          obind (olift (list_set_left_index new_left_index m)) (\<lambda>m.
          obind (olift (list_set_right_index (new_left_index + new_count) m)) (\<lambda>m.
          write_ops E (delete_ops (before @ after) @ [BPut MetaCF meta_key (pv_value m)]))))))))))  st"

text \<open>The filter loops of \<open>lrem\<close>, from the head or from the tail: the number of removals and the
  remaining elements.\<close>

fun lrem_loop :: "bytes \<Rightarrow> i64 \<Rightarrow> i64 \<Rightarrow> bytes list \<Rightarrow> i64 \<times> bytes list" where
  "lrem_loop value removals_left removed_count [] = (removed_count, [])"
| "lrem_loop value removals_left removed_count (element # rest) =
     (if removals_left > 0 \<and> element = value
      then lrem_loop value (removals_left - 1) (removed_count + 1) rest
      else let (n, remaining) = lrem_loop value removals_left removed_count rest in (n, element # remaining))"

definition lrem_filter :: "i64 \<Rightarrow> bytes \<Rightarrow> bytes list \<Rightarrow> i64 \<times> bytes list" where
  "lrem_filter count value all_elements =
     (let max_removals = (if count = 0 then 2 ^ 63 - 1 else wrap_i64 (abs count)) in
      if count \<ge> 0 then lrem_loop value max_removals 0 all_elements
      else let (n, xs) = lrem_loop value max_removals 0 (rev all_elements) in (n, rev xs))"

definition lrem ::
  "('db, 'c) env \<Rightarrow> (nat \<Rightarrow> u64) \<Rightarrow> bytes \<Rightarrow> i64 \<Rightarrow> bytes \<Rightarrow> ('db, 'c) redis \<Rightarrow> i64 result \<times> ('db, 'c) redis" where
  "lrem E clk key count value st =
     obind (olift (get_db_and_cfs E st [ListsDataCF])) (\<lambda>(db, cfs).
     let lists_data_cf = hd cfs in
     obind (olift (list_meta_key key)) (\<lambda>meta_key.
     obind (olift (get_list_meta E (clk 0) db meta_key)) (\<lambda>r.
     case r of
       None \<Rightarrow> oreturn 0
     | Some m \<Rightarrow>
       (let indexes = storage_indexes (left_index m) (unat (list_count m)) in
        obind (olift (read_elements E db lists_data_cf key (pv_version m) 0 indexes)) (\<lambda>es.
        let all_elements = map (\<lambda>(_, _, x). x) es;
            (removed_count, remaining_elements) = lrem_filter count value all_elements in
        if removed_count > 0 then
          obind (olift (encode_keys key (pv_version m) indexes)) (\<lambda>keys_to_delete.
          obind (olift
            (if remaining_elements = [] then Inr (delete_ops keys_to_delete @ [BDelete MetaCF meta_key])
             else
               rbind (encode_puts clk 3 key (pv_version m)
                        (zip (storage_indexes (left_index m) (length remaining_elements)) remaining_elements))
                 (\<lambda>puts.
               rbind (list_set_count (word_of_nat (length remaining_elements)) m) (\<lambda>m.
               rbind (list_set_right_index (left_index m + word_of_nat (length remaining_elements)) m) (\<lambda>m.
               Inr (delete_ops keys_to_delete @ put_ops puts @ [BPut MetaCF meta_key (pv_value m)]))))))
            (\<lambda>ops.
          obind (write_ops E ops) (\<lambda>_.
          obind (update_specific_key_statistics E TList (from_utf8_lossy key) (i64_as_u64 removed_count)) (\<lambda>_.
          oreturn removed_count))))
        else oreturn removed_count))))) st"

datatype before_or_after = Before | After

text \<open>\<open>pivot_index\<close> is assigned at every match, so the last one stays.\<close>

fun pivot_loop :: "bytes \<Rightarrow> nat option \<Rightarrow> (nat \<times> bytes \<times> bytes) list \<Rightarrow> nat option" where
  "pivot_loop pivot pivot_index [] = pivot_index"
| "pivot_loop pivot pivot_index ((i, _, element) # rest) =
     pivot_loop pivot (if element = pivot then Some i else pivot_index) rest"

text \<open>\<open>Vec::insert\<close>, which panics beyond the end.\<close>

definition vec_insert :: "nat \<Rightarrow> 'a \<Rightarrow> 'a list \<Rightarrow> 'a list result" where
  "vec_insert i x xs =
     (if i \<le> length xs then Inr (take i xs @ x # drop i xs)
      else Inl (Panic ''insertion index should be <= len''))"

definition linsert ::
  "('db, 'c) env \<Rightarrow> (nat \<Rightarrow> u64) \<Rightarrow> bytes \<Rightarrow> before_or_after \<Rightarrow> bytes \<Rightarrow> bytes \<Rightarrow> ('db, 'c) redis
     \<Rightarrow> i64 result \<times> ('db, 'c) redis" where
  "linsert E clk key where_to pivot value st =
     obind (olift (get_db_and_cfs E st [ListsDataCF])) (\<lambda>(db, cfs).
     let lists_data_cf = hd cfs in
     obind (olift (list_meta_key key)) (\<lambda>meta_key.
     obind (olift (get_list_meta E (clk 0) db meta_key)) (\<lambda>r.
     case r of
       None \<Rightarrow> olift (Inl (KeyNotFound (from_utf8_lossy key)))
     | Some m \<Rightarrow>
       (let indexes = storage_indexes (left_index m) (unat (list_count m)) in
        obind (olift (read_elements E db lists_data_cf key (pv_version m) 0 indexes)) (\<lambda>es.
        let all_elements = map (\<lambda>(_, _, x). x) es in
        case pivot_loop pivot None es of
          None \<Rightarrow> oreturn (- 1)
        | Some pivot_index \<Rightarrow>
          (let insert_position = (case where_to of Before \<Rightarrow> pivot_index | After \<Rightarrow> pivot_index + 1) in
           obind (olift (vec_insert insert_position value all_elements)) (\<lambda>all_elements.
           obind (olift (encode_keys key (pv_version m) indexes)) (\<lambda>keys_to_delete.
           obind (olift (list_update_version (clk 2) m)) (\<lambda>(new_version, m).
           obind (olift (encode_puts clk 3 key new_version
                    (zip (storage_indexes (left_index m) (length all_elements)) all_elements))) (\<lambda>puts.
           obind (olift (list_set_count (word_of_nat (length all_elements)) m)) (\<lambda>m.
           obind (olift (list_set_right_index (left_index m + word_of_nat (length all_elements)) m)) (\<lambda>m.
           obind (write_ops E (delete_ops keys_to_delete @ put_ops puts @ [BPut MetaCF meta_key (pv_value m)]))
             (\<lambda>_.
           obind (update_specific_key_statistics E TList (from_utf8_lossy key) 1) (\<lambda>_.
           oreturn (wrap_i64 (int (length all_elements))))))))))))))))) st"

text \<open>The two branches of \<open>rpoplpush\<close>, on whether the keys need one lock or two, do the same; the
  second clock is the one of the push.\<close>

definition rpoplpush ::
  "('db, 'c) env \<Rightarrow> (nat \<Rightarrow> u64) \<Rightarrow> (nat \<Rightarrow> u64) \<Rightarrow> bytes \<Rightarrow> bytes \<Rightarrow> ('db, 'c) redis
     \<Rightarrow> bytes option result \<times> ('db, 'c) redis" where
  "rpoplpush E clk clk' source_key destination_key =
     obind (rpop_internal E clk source_key None) (\<lambda>r.
     case r of
       None \<Rightarrow> oreturn None
     | Some [] \<Rightarrow> oreturn None
     | Some (popped_value # _) \<Rightarrow>
       obind (push_core E clk' destination_key [popped_value] True True) (\<lambda>p.
       case p of
         Some _ \<Rightarrow> oreturn (Some popped_value)
       | None \<Rightarrow> olift (Inl (OptionNone ''Destination list creation should always succeed''))))"

end
