(* ===== verification/Key_Frame.thy ===== *)
theory Key_Frame
  imports Redis_Core
begin

text \<open>
  What a command may touch. Every raw key of a column family belongs to one user key, the one the
  replicated batch infers from it; \<open>frame\<close> says that only cells of one user key differ between two
  contents, and \<open>ends\<close> what a command on a key establishes. The lemmas lead from the operations a
  command collects in its batch to \<open>ends\<close>, for standalone and cluster mode alike.
\<close>

section \<open>Small facts shared by the commands\<close>

lemma olift_apply: "olift r s = (r, s)"
  by (simp add: olift_def)

lemma oreturn_apply: "oreturn x s = (Inr x, s)"
  by (simp add: oreturn_def)

definition in_i64 :: "int \<Rightarrow> bool" where
  "in_i64 i \<longleftrightarrow> - (2 ^ 63) \<le> i \<and> i < 2 ^ 63"

lemma not_expired_0 [simp]: "\<not> expired now 0"
  by (simp add: expired_def)

lemma word_of_nat_eq_0: "n < 2 ^ 64 \<Longrightarrow> (word_of_nat n :: u64) = 0 \<longleftrightarrow> n = 0"
  using word_of_nat_u64_inj [of n 0] by simp

abbreviation meta_at :: "contents \<Rightarrow> bytes \<Rightarrow> bytes option" where
  "meta_at V key \<equiv> V (cf_name MetaCF) (base_key_bytes key)"

text \<open>A key that counts as missing for a command of type \<open>dt\<close>.\<close>

definition missing :: "data_type \<Rightarrow> u64 \<Rightarrow> contents \<Rightarrow> bytes \<Rightarrow> bool" where
  "missing dt now V key \<longleftrightarrow>
     (case meta_at V key of
        None \<Rightarrow> True
      | Some b \<Rightarrow> check_type_state now b dt = Inr Missing \<or> check_type_state now b dt = Inr Stale)"

section \<open>Cells\<close>

definition own_cell :: "bytes \<Rightarrow> column_family \<Rightarrow> bytes \<Rightarrow> bool" where
  "own_cell key cf k \<longleftrightarrow> infer_user_key (cf_u32 cf) k = Inr key"

lemma own_cell_meta [simp]: "own_cell key MetaCF (base_key_bytes key)"
  by (simp add: own_cell_def)

lemma own_cell_list [simp]: "own_cell key ListsDataCF (lists_data_key_bytes key v i)"
  by (simp add: own_cell_def)

definition frame :: "bytes \<Rightarrow> contents \<Rightarrow> contents \<Rightarrow> bool" where
  "frame key V V' \<longleftrightarrow> (\<forall>cf k. \<not> (\<exists>c. cf = cf_name c \<and> own_cell key c k) \<longrightarrow> V' cf k = V cf k)"

lemma frame_refl [simp]: "frame key V V"
  by (simp add: frame_def)

lemma frame_cell:
  assumes "frame key V V'" and "own_cell user_key cf k" and "user_key \<noteq> key"
  shows "V' (cf_name cf) k = V (cf_name cf) k"
  using assms unfolding frame_def own_cell_def by (metis cf_name_inject sum.inject(2))

lemma frame_meta: "frame key V V' \<Longrightarrow> key' \<noteq> key \<Longrightarrow> meta_at V' key' = meta_at V key'"
  by (rule frame_cell [where user_key = key']) (simp_all del: cf_name.simps)

lemma frame_missing:
  "frame key V V' \<Longrightarrow> key' \<noteq> key \<Longrightarrow> missing dt now V key' \<Longrightarrow> missing dt now V' key'"
  using frame_meta [of key V V' key'] by (simp add: missing_def)

section \<open>Writes of one key\<close>

definition own_op :: "bytes \<Rightarrow> batch_op \<Rightarrow> bool" where
  "own_op key op \<longleftrightarrow> batch_op_key_ok (own_cell key) op"

lemma own_cell_slot: "own_cell key cf k \<Longrightarrow> slot_key_ok crc16 (slot_of crc16 key) cf k"
  by (auto simp: own_cell_def slot_key_ok_def)

lemma own_op_slot: "own_op key op \<Longrightarrow> batch_op_key_ok (slot_key_ok crc16 (slot_of crc16 key)) op"
  using own_cell_slot by (cases op) (auto simp: own_op_def)

lemma apply_op_frame: "own_op key op \<Longrightarrow> frame key V (apply_op (write_op_of op) V)"
  by (cases op) (auto simp: own_op_def frame_def)

lemma frame_trans: "frame key V V1 \<Longrightarrow> frame key V1 V2 \<Longrightarrow> frame key V V2"
  by (simp add: frame_def)

lemma apply_ops_frame: "list_all (own_op key) ops \<Longrightarrow> frame key V (apply_ops (map write_op_of ops) V)"
proof (induction ops arbitrary: V)
  case (Cons op ops)
  then show ?case using apply_op_frame [of key op V] frame_trans by fastforce
qed simp

text \<open>What a command establishes: it returns \<open>r\<close>, keeps the instance well formed, touches only cells of
  \<open>key\<close>, and its contents satisfy \<open>P\<close>.\<close>

definition ends ::
  "('db, 'c) env \<Rightarrow> ('db \<Rightarrow> contents) \<Rightarrow> bytes \<Rightarrow> ('db, 'c) redis \<Rightarrow> 'a result \<times> ('db, 'c) redis \<Rightarrow> 'a
     \<Rightarrow> (contents \<Rightarrow> bool) \<Rightarrow> bool" where
  "ends E view key st out r P \<longleftrightarrow> (\<exists>st'. out = (Inr r, st') \<and> instance_ok E view st'
     \<and> frame key (contents_of view st) (contents_of view st') \<and> P (contents_of view st'))"

lemma write_ops_ok:
  assumes ok: "instance_ok E view st" and own: "list_all (own_op key) ops"
  shows "\<exists>st'. write_ops E ops st = (Inr (), st') \<and> instance_ok E view st'
    \<and> contents_of view st' = apply_ops (map write_op_of ops) (contents_of view st)
    \<and> frame key (contents_of view st) (contents_of view st')"
proof -
  have "list_all (batch_op_key_ok (slot_key_ok (en_crc16 E) (slot_of (en_crc16 E) key))) ops"
    using own own_op_slot by (auto simp: list_all_iff)
  from commit_ops_ok [OF ok this] obtain b st' where
    "rbind (create_batch E st) (add_ops batch_put batch_delete ops) = Inr b"
    "commit_batch E b st = (Inr (), st')" "instance_ok E view st'"
    "contents_of view st' = apply_ops (map write_op_of ops) (contents_of view st)"
    by blast
  then show ?thesis using apply_ops_frame [OF own] by (simp add: write_ops_def)
qed

text \<open>A batch followed by the statistics update.\<close>

lemma write_then_statistics:
  assumes "instance_ok E view st" and "list_all (own_op key) ops"
    and "P (apply_ops (map write_op_of ops) (contents_of view st))"
  shows "ends E view key st
    (obind (write_ops E ops) (\<lambda>_. obind (update_specific_key_statistics E dt k n) (\<lambda>_. oreturn r)) st) r P"
proof -
  obtain st1 where st1: "write_ops E ops st = (Inr (), st1)" "instance_ok E view st1"
      "contents_of view st1 = apply_ops (map write_op_of ops) (contents_of view st)"
      "frame key (contents_of view st) (contents_of view st1)"
    using write_ops_ok [OF assms(1,2)] by blast
  obtain s ts where "update_specific_key_statistics E dt k n st1
      = (Inr (), st1\<lparr>rd_statistics_store := s, rd_bg_tasks := ts\<rparr>)"
    using update_statistics_frame [of E dt k n st1] by (elim exE)
  with st1 assms(3) show ?thesis by (simp add: ends_def obind_def oreturn_def)
qed

lemma write_then_return:
  assumes "instance_ok E view st" and "list_all (own_op key) ops"
    and "P (apply_ops (map write_op_of ops) (contents_of view st))"
  shows "ends E view key st (write_ops E ops st) () P"
  using write_ops_ok [OF assms(1,2)] assms(3) by (auto simp: ends_def)

lemma own_meta_op [simp]: "own_op key (BPut MetaCF (base_key_bytes key) b)"
  "own_op key (BDelete MetaCF (base_key_bytes key))"
  by (simp_all add: own_op_def)

lemma ends_mono: "ends E view key st out r P \<Longrightarrow> (\<And>V. P V \<Longrightarrow> Q V) \<Longrightarrow> ends E view key st out r Q"
  unfolding ends_def by blast

section \<open>Writes of several keys\<close>

lemma add_ops_rocks:
  "add_ops batch_put batch_delete ops (RocksB b)
    = rbind (add_ops rocks_batch_put rocks_batch_delete ops b) (\<lambda>b. Inr (RocksB b))"
proof (induction ops arbitrary: b)
  case (Cons op ops)
  show ?case
    by (cases op) (auto simp: Cons.IH rbind_def split: sum.split)
qed simp

text \<open>On a standalone instance a batch takes any keys.\<close>

lemma write_ops_standalone:
  assumes ok: "instance_ok E view st" and mode: "rd_append_log_fn st = None"
  shows "\<exists>st'. write_ops E ops st = (Inr (), st') \<and> instance_ok E view st' \<and> rd_append_log_fn st' = None
    \<and> contents_of view st' = apply_ops (map write_op_of ops) (contents_of view st)"
proof -
  obtain db where db: "rd_db st = Some db" "contents_of view st = view db"
    using ok by (rule instance_okE)
  obtain b where b: "create_batch E st = Inr (RocksB b)" "rocks_holds (en_rocks E) view b []"
    using create_rocks_batch_holds [OF ok, of "en_crc16 E" 0] db mode
    by (auto simp: create_batch_def batch_holds_def create_rocks_batch_def rbind_eq_Inr Let_def)
  have "list_all (batch_op_key_ok (\<lambda>_ _. True)) ops"
    by (auto simp: list_all_iff split: batch_op.split) (metis batch_op.exhaust batch_op_key_ok.simps)
  from rocks_impl.commit_applies [OF b(2) this, of db] obtain b' db' where
    "add_ops rocks_batch_put rocks_batch_delete ops b = Inr b'"
    "rocks_batch_commit (en_rocks E) b' db = (Inr (), db')"
    "view db' = apply_ops (map write_op_of ops) (view db)" by blast
  then show ?thesis
    using b(1) db ok mode
    by (simp add: write_ops_def add_ops_rocks commit_batch_def instance_ok_def contents_of_def)
qed

text \<open>Behind the Raft log the keys of a batch lie in one slot.\<close>

lemma write_ops_slot:
  assumes "instance_ok E view st" and "list_all (batch_op_key_ok (slot_key_ok (en_crc16 E) slot)) ops"
  shows "\<exists>st'. write_ops E ops st = (Inr (), st') \<and> instance_ok E view st'
    \<and> rd_append_log_fn st' = rd_append_log_fn st
    \<and> contents_of view st' = apply_ops (map write_op_of ops) (contents_of view st)"
proof -
  obtain b st' where st': "rbind (create_batch E st) (add_ops batch_put batch_delete ops) = Inr b"
      "commit_batch E b st = (Inr (), st')" "instance_ok E view st'"
      "contents_of view st' = apply_ops (map write_op_of ops) (contents_of view st)"
      "st' = st\<lparr>rd_db := rd_db st'\<rparr>"
    using commit_ops_ok [OF assms] by blast
  have "rd_append_log_fn st' = rd_append_log_fn (st\<lparr>rd_db := rd_db st'\<rparr>)"
    using st'(5) by (rule arg_cong)
  then show ?thesis using st'(1-4) by (simp add: write_ops_def)
qed

end
