(* ===== verification/Lists_Refinement.thy ===== *)
theory Lists_Refinement
  imports Redis_Lists Key_Frame
begin

text \<open>
  The list commands implement lists. \<open>list_at\<close> says that the contents of the database represent a
  list under a key, \<open>absent\<close> that the key counts as missing. \<open>ends\<close> is what a command establishes: its
  result, the list it leaves, and that it leaves every other key alone. The pushes are shown here, the
  other commands in \<open>Lists_Commands\<close>. The commands run on an instance in standalone or in cluster mode alike, because
  they write through the interface \<open>batch_impl\<close> of \<open>Write_Batch\<close>.
\<close>

section \<open>Element indexes\<close>

definition idx :: "u64 \<Rightarrow> nat \<Rightarrow> u64" where
  "idx l i = l + word_of_nat i + 1"

lemma idx_inject: "i < 2 ^ 64 \<Longrightarrow> j < 2 ^ 64 \<Longrightarrow> idx l i = idx l j \<longleftrightarrow> i = j"
  by (simp add: idx_def word_of_nat_u64_inj)

lemma idx_add: "idx (l + word_of_nat n) i = idx l (n + i)"
  by (simp add: idx_def)

lemma idx_sub: "idx (l - word_of_nat n) (n + i) = idx l i"
  by (simp add: idx_def)

lemma length_storage_indexes [simp]: "length (storage_indexes l n) = n"
  by (simp add: storage_indexes_def)

lemma nth_storage_indexes [simp]: "j < n \<Longrightarrow> storage_indexes l n ! j = idx l j"
  by (simp add: storage_indexes_def idx_def)

lemma set_storage_indexes: "set (storage_indexes l n) = idx l ` {..<n}"
  by (auto simp: storage_indexes_def idx_def)

lemma unat_length: "length xs < 2 ^ 63 \<Longrightarrow> unat (word_of_nat (length xs) :: u64) = length xs"
  by (rule unat_of_nat_u64) simp

lemma count_nonzero: "xs \<noteq> [] \<Longrightarrow> length xs < 2 ^ 63 \<Longrightarrow> (word_of_nat (length xs) :: u64) \<noteq> 0"
  using word_of_nat_u64_inj [of "length xs" 0] by auto

section \<open>Representation\<close>

abbreviation elem_at :: "contents \<Rightarrow> bytes \<Rightarrow> u64 \<Rightarrow> u64 \<Rightarrow> bytes option" where
  "elem_at V key v i \<equiv> V (cf_name ListsDataCF) (lists_data_key_bytes key v i)"

definition stored :: "contents \<Rightarrow> bytes \<Rightarrow> u64 \<Rightarrow> u64 \<Rightarrow> bytes \<Rightarrow> bool" where
  "stored V key v i x \<longleftrightarrow> (\<exists>c. elem_at V key v i = Some (element_bytes c x))"

definition list_at ::
  "contents \<Rightarrow> bytes \<Rightarrow> u64 \<Rightarrow> u64 \<Rightarrow> bytes \<Rightarrow> u64 \<Rightarrow> u64 \<Rightarrow> bytes list \<Rightarrow> bool" where
  "list_at V key v l res ct et xs \<longleftrightarrow> length res = 16 \<and> xs \<noteq> [] \<and> length xs < 2 ^ 63
     \<and> meta_at V key = Some (list_meta_bytes TList (word_of_nat (length xs)) v l
                          (l + word_of_nat (length xs)) res ct et)
     \<and> (\<forall>i < length xs. stored V key v (idx l i) (xs ! i))"

abbreviation absent :: "u64 \<Rightarrow> contents \<Rightarrow> bytes \<Rightarrow> bool" where
  "absent \<equiv> missing TList"

lemma frame_elem: "frame key V V' \<Longrightarrow> key' \<noteq> key \<Longrightarrow> elem_at V' key' v i = elem_at V key' v i"
  by (rule frame_cell [where user_key = key']) (simp_all del: cf_name.simps)

lemma frame_list_at: "frame key V V' \<Longrightarrow> key' \<noteq> key \<Longrightarrow>
    list_at V key' v l res ct et xs \<Longrightarrow> list_at V' key' v l res ct et xs"
  using frame_meta [of key V V' key'] frame_elem [of key V V' key'] by (simp add: list_at_def stored_def)

section \<open>The shared blocks\<close>

lemma list_meta_key_eq [simp]: "list_meta_key key = Inr (base_key_bytes key)"
  by (simp add: list_meta_key_def)

lemma data_key_eq [simp]: "data_key key v i = Inr (lists_data_key_bytes key v i)"
  by (simp add: data_key_def)

definition meta_of :: "u64 \<Rightarrow> u64 \<Rightarrow> bytes \<Rightarrow> u64 \<Rightarrow> u64 \<Rightarrow> nat \<Rightarrow> parsed_lists_meta_value" where
  "meta_of v l res ct et n = mk_list_meta TList (word_of_nat n) v l (l + word_of_nat n) res ct et"

lemma meta_of_sel [simp]:
  "pv_version (meta_of v l res ct et n) = v"
  "left_index (meta_of v l res ct et n) = l"
  "list_count (meta_of v l res ct et n) = word_of_nat n"
  "right_index (meta_of v l res ct et n) = l + word_of_nat n"
  by (simp_all add: meta_of_def)

lemma get_list_meta_present:
  assumes "instance_ok E view st" and "list_at (contents_of view st) key v l res ct et xs"
    and "\<not> expired now et"
  shows "get_list_meta E now (the (rd_db st)) (base_key_bytes key)
    = Inr (Some (meta_of v l res ct et (length xs)))"
  using assms db_get_ok(1) [OF assms(1), of "base_key_bytes key"] count_nonzero [of xs]
  by (simp add: get_list_meta_def list_at_def meta_of_def del: cf_name.simps)

lemma get_list_meta_absent:
  assumes "instance_ok E view st" and "absent now (contents_of view st) key"
  shows "get_list_meta E now (the (rd_db st)) (base_key_bytes key) = Inr None"
  using assms(2) db_get_ok(1) [OF assms(1), of "base_key_bytes key"]
  by (auto simp: get_list_meta_def missing_def simp del: cf_name.simps split: option.splits)

lemma get_list_meta_wrong_type:
  assumes "instance_ok E view st" and "meta_at (contents_of view st) key = Some b"
    and "check_type_state now b TList = Inl e"
  shows "get_list_meta E now (the (rd_db st)) (base_key_bytes key) = Inl e"
  using assms(2,3) db_get_ok(1) [OF assms(1), of "base_key_bytes key"]
  by (simp add: get_list_meta_def del: cf_name.simps)

lemma read_elements_stored:
  assumes "instance_ok E view st" and "length is = length ys"
    and "\<forall>j < length ys. stored (contents_of view st) key v (is ! j) (ys ! j)"
  shows "read_elements E (the (rd_db st)) (cf_name ListsDataCF) key v n is
    = Inr (map (\<lambda>j. (n + j, lists_data_key_bytes key v (is ! j), ys ! j)) [0..<length ys])"
  using assms(2,3)
proof (induction "is" ys arbitrary: n rule: list_induct2)
  case (Cons i "is" y ys)
  have "stored (contents_of view st) key v i y" using Cons.prems by auto
  then obtain c where "elem_at (contents_of view st) key v i = Some (element_bytes c y)"
    by (auto simp: stored_def)
  then have get: "db_get_cf E (the (rd_db st)) (cf_name ListsDataCF) (lists_data_key_bytes key v i)
      = Inr (Some (element_bytes c y))"
    by (simp add: db_get_ok(2) [OF assms(1)] del: cf_name.simps)
  obtain p where p: "parsed_base_data_value_new (element_bytes c y) = Inr p" "pv_user_value p = Inr y"
    using parsed_base_data_value_element by blast
  have IH: "read_elements E (the (rd_db st)) (cf_name ListsDataCF) key v (Suc n) is
      = Inr (map (\<lambda>j. (Suc n + j, lists_data_key_bytes key v (is ! j), ys ! j)) [0..<length ys])"
  proof (rule Cons.IH, intro allI impI)
    fix j
    assume "j < length ys"
    then show "stored (contents_of view st) key v (is ! j) (ys ! j)"
      using Cons.prems [rule_format, of "Suc j"] by simp
  qed
  have shift: "[0..<Suc (length ys)] = 0 # map Suc [0..<length ys]"
    by (simp add: map_Suc_upt upt_conv_Cons del: upt_Suc)
  show ?case
    by (simp add: get p IH shift del: cf_name.simps upt_Suc)
qed simp

lemma encode_keys_eq: "encode_keys key v is = Inr (map (lists_data_key_bytes key v) is)"
  by (induction "is") simp_all

fun puts_of :: "(nat \<Rightarrow> u64) \<Rightarrow> nat \<Rightarrow> bytes \<Rightarrow> u64 \<Rightarrow> (u64 \<times> bytes) list \<Rightarrow> (bytes \<times> bytes) list" where
  "puts_of clk n key v [] = []"
| "puts_of clk n key v ((i, x) # rest) =
     (lists_data_key_bytes key v i, element_bytes (clk n) x) # puts_of clk (Suc n) key v rest"

lemma encode_puts_eq: "encode_puts clk n key v ps = Inr (puts_of clk n key v ps)"
  by (induction clk n key v ps rule: encode_puts.induct) (simp_all add: element_bytes_def Let_def)

lemma length_puts_of [simp]: "length (puts_of clk n key v ps) = length ps"
  by (induction clk n key v ps rule: puts_of.induct) simp_all

lemma nth_puts_of:
  "j < length ps \<Longrightarrow> puts_of clk n key v ps ! j
     = (lists_data_key_bytes key v (fst (ps ! j)), element_bytes (clk (n + j)) (snd (ps ! j)))"
proof (induction clk n key v ps arbitrary: j rule: puts_of.induct)
  case (2 clk n key v i x rest)
  then show ?case by (cases j) simp_all
qed simp

lemma fst_puts_of:
  "map fst (puts_of clk n key v ps) = map (lists_data_key_bytes key v) (map fst ps)"
  by (induction clk n key v ps rule: puts_of.induct) simp_all

section \<open>The effect of the collected operations\<close>

lemma apply_delete_ops:
  "apply_ops (map write_op_of (delete_ops ks)) V
     = (\<lambda>cf k. if cf = cf_name ListsDataCF \<and> k \<in> set ks then None else V cf k)"
  by (induction ks arbitrary: V) (auto simp: delete_ops_def fun_eq_iff)

lemma apply_put_ops_other:
  assumes "cf \<noteq> cf_name ListsDataCF \<or> k \<notin> fst ` set kvs"
  shows "apply_ops (map write_op_of (put_ops kvs)) V cf k = V cf k"
  using assms by (induction kvs arbitrary: V) (auto simp: put_ops_def)

lemma apply_put_ops_in:
  assumes "distinct (map fst kvs)" and "(k, x) \<in> set kvs"
  shows "apply_ops (map write_op_of (put_ops kvs)) V (cf_name ListsDataCF) k = Some x"
  using assms
proof (induction kvs arbitrary: V)
  case (Cons kv kvs)
  show ?case
  proof (cases "(k, x) \<in> set kvs")
    case True
    then show ?thesis using Cons by (cases kv) (simp add: put_ops_def)
  next
    case False
    then have kv: "kv = (k, x)" using Cons.prems by auto
    then have "k \<notin> fst ` set kvs" using Cons.prems(1) by simp
    with kv show ?thesis
      using apply_put_ops_other [of "cf_name ListsDataCF" k kvs "apply_op (WPut (cf_name ListsDataCF) k x) V"]
      by (simp add: put_ops_def)
  qed
qed simp

lemma distinct_storage_indexes: "n \<le> 2 ^ 64 \<Longrightarrow> distinct (storage_indexes l n)"
  by (auto simp: distinct_conv_nth idx_inject)

text \<open>Writing a run of elements: every element of the run is stored afterwards, and the elements of
  another version or outside the run keep their value.\<close>

lemma puts_stored:
  assumes "length xs < 2 ^ 63" and "j < length xs"
  shows "stored (apply_ops (map write_op_of (put_ops
      (puts_of clk n key v (zip (storage_indexes l (length xs)) xs)))) V) key v (idx l j) (xs ! j)"
proof -
  let ?ps = "zip (storage_indexes l (length xs)) xs"
  have "distinct (map fst ?ps)" using distinct_storage_indexes [of "length xs" l] assms by simp
  moreover have "inj (lists_data_key_bytes key v)" by (auto simp: inj_def)
  ultimately have "distinct (map fst (puts_of clk n key v ?ps))"
    unfolding fst_puts_of distinct_map by (simp add: inj_on_def)
  moreover have "puts_of clk n key v ?ps ! j
      = (lists_data_key_bytes key v (idx l j), element_bytes (clk (n + j)) (xs ! j))"
    using assms by (simp add: nth_puts_of)
  then have "(lists_data_key_bytes key v (idx l j), element_bytes (clk (n + j)) (xs ! j))
      \<in> set (puts_of clk n key v ?ps)"
    using assms by (metis length_puts_of length_storage_indexes length_zip min.idem nth_mem)
  ultimately show ?thesis using apply_put_ops_in unfolding stored_def by blast
qed

lemma puts_elem_other:
  assumes "v' \<noteq> v \<or> i \<notin> idx l ` {..<length xs}"
  shows "elem_at (apply_ops (map write_op_of (put_ops
      (puts_of clk n key v (zip (storage_indexes l (length xs)) xs)))) V) key v' i = elem_at V key v' i"
proof (rule apply_put_ops_other)
  let ?ps = "zip (storage_indexes l (length xs)) xs"
  have "fst ` set (puts_of clk n key v ?ps) = set (map fst (puts_of clk n key v ?ps))" by simp
  also have "\<dots> = lists_data_key_bytes key v ` idx l ` {..<length xs}"
    unfolding fst_puts_of by (simp add: set_storage_indexes flip: image_image)
  finally show "cf_name ListsDataCF \<noteq> cf_name ListsDataCF
      \<or> lists_data_key_bytes key v' i \<notin> fst ` set (puts_of clk n key v ?ps)"
    using assms by auto
qed

lemma puts_meta_other [simp]:
  "meta_at (apply_ops (map write_op_of (put_ops kvs)) V) key = meta_at V key"
  by (rule apply_put_ops_other) simp

lemma deletes_meta_other [simp]:
  "meta_at (apply_ops (map write_op_of (delete_ops ks)) V) key = meta_at V key"
  by (simp add: apply_delete_ops)

lemma own_delete_ops:
  "list_all (own_op key) (delete_ops (map (lists_data_key_bytes key v) is))"
  by (auto simp: list_all_iff delete_ops_def own_op_def own_cell_def)

lemma own_put_ops: "list_all (own_op key) (put_ops (puts_of clk n key v ps))"
  by (induction clk n key v ps rule: puts_of.induct)
    (auto simp: put_ops_def own_op_def own_cell_def)

section \<open>Pushes\<close>

lemma u64_as_i64_of_nat: "n < 2 ^ 63 \<Longrightarrow> u64_as_i64 (word_of_nat n) = int n"
  using u64_as_i64_small [of "word_of_nat n"] unat_of_nat_u64 [of n] by simp

lemma new_list_meta_eq:
  "new_list_meta now now' = Inr (mk_list_meta TList 0 (next_version now' 0) INITIAL_LEFT_INDEX
     INITIAL_RIGHT_INDEX (replicate 16 0) 0 0)"
proof -
  have "lists_meta_value_encode (lists_meta_value_new now (u64_le 0))
      = list_meta_bytes TList 0 0 INITIAL_LEFT_INDEX INITIAL_RIGHT_INDEX (replicate 16 0) now 0"
    by (simp add: lists_meta_value_encode_def lists_meta_value_new_def internal_value_new_def
        internal_value.defs list_meta_bytes_def)
  then show ?thesis by (simp add: new_list_meta_def)
qed

lemma push_right_eq:
  assumes "length res = 16"
  shows "push_right clk key vs (mk_list_meta TList (word_of_nat n) v l r res ct et)
    = Inr ([], puts_of clk 3 key v (zip (storage_indexes (l + word_of_nat n) (length vs)) vs),
           meta_of v l res ct et (n + length vs))"
  using assms by (simp add: push_right_def encode_puts_eq meta_of_def Let_def add.assoc)

lemma push_left_new:
  assumes "length res = 16"
  shows "push_left E clk db cf key vs (mk_list_meta TList 0 v l r res ct et)
    = Inr ([], puts_of clk 3 key v (zip (storage_indexes (l - word_of_nat (length vs)) (length vs)) (rev vs)),
           meta_of v (l - word_of_nat (length vs)) res ct et (length vs))"
  using assms by (simp add: push_left_def encode_puts_eq meta_of_def Let_def)

lemma map_third_upt:
  "map (\<lambda>(_, _, x). x) (map (\<lambda>j. (n + j, f j, ys ! j)) [0..<length ys]) = ys"
  by (simp add: comp_def map_nth)

lemma push_left_present:
  assumes ok: "instance_ok E view st" and L: "list_at (contents_of view st) key v l res ct et xs"
  shows "push_left E clk (the (rd_db st)) (cf_name ListsDataCF) key vs (meta_of v l res ct et (length xs))
    = Inr (map (lists_data_key_bytes key v) (storage_indexes l (length xs)),
           puts_of clk 3 key (next_version (clk 2) v)
             (zip (storage_indexes (l - word_of_nat (length vs)) (length vs)) (rev vs))
           @ puts_of clk (3 + length vs) key (next_version (clk 2) v)
             (zip (storage_indexes l (length xs)) xs),
           meta_of (next_version (clk 2) v) (l - word_of_nat (length vs)) res ct et (length xs + length vs))"
proof -
  have xs: "length res = 16" "xs \<noteq> []" "length xs < 2 ^ 63"
      "\<forall>i < length xs. stored (contents_of view st) key v (storage_indexes l (length xs) ! i) (xs ! i)"
    using L by (simp_all add: list_at_def)
  note rd = read_elements_stored [OF ok _ xs(4), of 0] map_third_upt [of 0 _ xs]
  show ?thesis
    using rd(1) count_nonzero [OF xs(2,3)] xs(1) unat_length [OF xs(3)]
    by (simp add: push_left_def Let_def encode_puts_eq encode_keys_eq meta_of_def rd(2)
        del: cf_name.simps)
      (simp add: comp_def map_nth algebra_simps)
qed

lemma apply_put_ops_append:
  "apply_ops (map write_op_of (put_ops (a @ b))) V
     = apply_ops (map write_op_of (put_ops b)) (apply_ops (map write_op_of (put_ops a)) V)"
  by (simp add: put_ops_def)

lemma own_put_ops_append:
  "list_all (own_op key) (put_ops (a @ b)) \<longleftrightarrow> list_all (own_op key) (put_ops a) \<and> list_all (own_op key) (put_ops b)"
  by (simp add: put_ops_def)

text \<open>A run of elements written behind the elements that are already there, and the meta value that
  counts both.\<close>

lemma list_at_append:
  assumes "length res = 16" and "vs \<noteq> []" and "length xs + length vs < 2 ^ 63"
    and "\<forall>i < length xs. stored V key v (idx l i) (xs ! i)"
  shows "list_at (apply_ops (map write_op_of
      (put_ops (puts_of clk n key v (zip (storage_indexes (l + word_of_nat (length xs)) (length vs)) vs))
       @ [BPut MetaCF (base_key_bytes key) (pv_value (meta_of v l res ct et (length xs + length vs)))])) V)
    key v l res ct et (xs @ vs)"
proof -
  let ?l = "l + word_of_nat (length xs)"
  let ?V = "apply_ops (map write_op_of
      (put_ops (puts_of clk n key v (zip (storage_indexes ?l (length vs)) vs)))) V"
  have "stored ?V key v (idx l i) ((xs @ vs) ! i)" if i: "i < length (xs @ vs)" for i
  proof (cases "i < length xs")
    case True
    have "idx l i \<noteq> idx ?l j" if "j < length vs" for j
      using True that assms(3) idx_inject [of i "length xs + j" l] by (simp add: idx_add)
    then have "elem_at ?V key v (idx l i) = elem_at V key v (idx l i)"
      by (intro puts_elem_other) auto
    then show ?thesis using assms(4) True by (simp add: stored_def nth_append del: cf_name.simps)
  next
    case False
    then obtain j where j: "i = length xs + j" "j < length vs" using i by (metis add_diff_inverse_nat
        length_append nat_add_left_cancel_less)
    then have "stored ?V key v (idx ?l j) (vs ! j)" using puts_stored [of vs j] assms(3) by simp
    then show ?thesis using j by (simp add: idx_add nth_append)
  qed
  then show ?thesis
    using assms by (simp add: list_at_def stored_def meta_of_def)
qed

lemma push_core_ends:
  assumes ok: "instance_ok E view st" and vs: "vs \<noteq> []"
    and meta: "get_list_meta E (clk 0) (the (rd_db st)) (base_key_bytes key) = Inr r"
    and m: "(case r of Some m \<Rightarrow> Inr m | None \<Rightarrow> new_list_meta (clk 1) (clk 2)) = Inr m"
    and create: "r = None \<Longrightarrow> create"
    and push: "(if position then push_left E clk (the (rd_db st)) (cf_name ListsDataCF) key vs m
                else push_right clk key vs m) = Inr (ds, puts, m')"
    and own: "list_all (own_op key)
      (delete_ops ds @ put_ops puts @ [BPut MetaCF (base_key_bytes key) (pv_value m')])"
    and P: "P (apply_ops (map write_op_of
      (delete_ops ds @ put_ops puts @ [BPut MetaCF (base_key_bytes key) (pv_value m')])) (contents_of view st))"
    and count: "list_count m' = word_of_nat k" and k: "k < 2 ^ 63"
  shows "ends E view key st (push_core E clk key vs position create st) (Some (int k)) P"
proof -
  have "push_core E clk key vs position create st
      = obind (write_ops E (delete_ops ds @ put_ops puts @ [BPut MetaCF (base_key_bytes key) (pv_value m')]))
          (\<lambda>_. obind (update_specific_key_statistics E TList (from_utf8_lossy key) (word_of_nat (length vs)))
            (\<lambda>_. oreturn (Some (int k)))) st"
    using vs create push
    by (auto simp: push_core_def get_db_and_cfs_ok [OF ok] meta m count u64_as_i64_of_nat [OF k]
        simp del: cf_name.simps)
  then show ?thesis
    using write_then_statistics [where P = P, OF ok own P] by simp
qed

lemma rpush_present:
  assumes ok: "instance_ok E view st" and L: "list_at (contents_of view st) key v l res ct et xs"
    and live: "\<not> expired (clk 0) et" and vs: "vs \<noteq> []" and len: "length xs + length vs < 2 ^ 63"
  shows "ends E view key st (push_core E clk key vs False create st) (Some (int (length xs + length vs)))
    (\<lambda>V. list_at V key v l res ct et (xs @ vs))"
proof (rule push_core_ends [where clk = clk, OF ok vs get_list_meta_present [OF ok L live]])
  have res: "length res = 16" using L by (simp add: list_at_def)
  show "(if False then push_left E clk (the (rd_db st)) (cf_name ListsDataCF) key vs
        (meta_of v l res ct et (length xs))
      else push_right clk key vs (meta_of v l res ct et (length xs)))
      = Inr ([], puts_of clk 3 key v (zip (storage_indexes (l + word_of_nat (length xs)) (length vs)) vs),
             meta_of v l res ct et (length xs + length vs))"
    using push_right_eq [OF res] by (simp add: meta_of_def)
  show "list_at (apply_ops (map write_op_of (delete_ops [] @
      put_ops (puts_of clk 3 key v (zip (storage_indexes (l + word_of_nat (length xs)) (length vs)) vs))
       @ [BPut MetaCF (base_key_bytes key) (pv_value (meta_of v l res ct et (length xs + length vs)))]))
       (contents_of view st)) key v l res ct et (xs @ vs)"
    unfolding delete_ops_def list.map append_Nil
    by (rule list_at_append) (use L vs len in \<open>simp_all add: list_at_def\<close>)
qed (use len in \<open>simp_all add: own_put_ops delete_ops_def\<close>)

lemma rpush_absent:
  assumes ok: "instance_ok E view st" and A: "absent (clk 0) (contents_of view st) key"
    and vs: "vs \<noteq> []" and len: "length vs < 2 ^ 63"
  shows "ends E view key st (push_core E clk key vs False True st) (Some (int (length vs)))
    (\<lambda>V. list_at V key (next_version (clk 2) 0) INITIAL_LEFT_INDEX (replicate 16 0) 0 0 vs)"
proof (rule push_core_ends [where clk = clk, OF ok vs get_list_meta_absent [OF ok A]])
  let ?m = "mk_list_meta TList 0 (next_version (clk 2) 0) INITIAL_LEFT_INDEX INITIAL_RIGHT_INDEX
      (replicate 16 0) 0 0"
  show "(case None of Some m \<Rightarrow> Inr m | None \<Rightarrow> new_list_meta (clk 1) (clk 2)) = Inr ?m"
    by (simp add: new_list_meta_eq)
  show "(if False then push_left E clk (the (rd_db st)) (cf_name ListsDataCF) key vs ?m
      else push_right clk key vs ?m)
      = Inr ([], puts_of clk 3 key (next_version (clk 2) 0) (zip (storage_indexes INITIAL_LEFT_INDEX (length vs)) vs),
             meta_of (next_version (clk 2) 0) INITIAL_LEFT_INDEX (replicate 16 0) 0 0 (length vs))"
    using push_right_eq [where n = 0 and res = "replicate 16 0"] by simp
  show "list_at (apply_ops (map write_op_of (delete_ops [] @
      put_ops (puts_of clk 3 key (next_version (clk 2) 0) (zip (storage_indexes INITIAL_LEFT_INDEX (length vs)) vs))
       @ [BPut MetaCF (base_key_bytes key)
            (pv_value (meta_of (next_version (clk 2) 0) INITIAL_LEFT_INDEX (replicate 16 0) 0 0 (length vs)))]))
       (contents_of view st)) key (next_version (clk 2) 0) INITIAL_LEFT_INDEX (replicate 16 0) 0 0 vs"
    using list_at_append [where xs = "[]" and res = "replicate 16 0"] vs len by (simp add: delete_ops_def)
qed (use len in \<open>simp_all add: own_put_ops delete_ops_def\<close>)

lemma lpush_absent:
  assumes ok: "instance_ok E view st" and A: "absent (clk 0) (contents_of view st) key"
    and vs: "vs \<noteq> []" and len: "length vs < 2 ^ 63"
  shows "ends E view key st (push_core E clk key vs True True st) (Some (int (length vs)))
    (\<lambda>V. list_at V key (next_version (clk 2) 0) (INITIAL_LEFT_INDEX - word_of_nat (length vs))
           (replicate 16 0) 0 0 (rev vs))"
proof (rule push_core_ends [where clk = clk, OF ok vs get_list_meta_absent [OF ok A]])
  let ?m = "mk_list_meta TList 0 (next_version (clk 2) 0) INITIAL_LEFT_INDEX INITIAL_RIGHT_INDEX
      (replicate 16 0) 0 0"
  let ?l = "INITIAL_LEFT_INDEX - word_of_nat (length vs)"
  show "(case None of Some m \<Rightarrow> Inr m | None \<Rightarrow> new_list_meta (clk 1) (clk 2)) = Inr ?m"
    by (simp add: new_list_meta_eq)
  show "(if True then push_left E clk (the (rd_db st)) (cf_name ListsDataCF) key vs ?m
      else push_right clk key vs ?m)
      = Inr ([], puts_of clk 3 key (next_version (clk 2) 0) (zip (storage_indexes ?l (length vs)) (rev vs)),
             meta_of (next_version (clk 2) 0) ?l (replicate 16 0) 0 0 (length vs))"
    using push_left_new [where res = "replicate 16 0"] by simp
  show "list_at (apply_ops (map write_op_of (delete_ops [] @
      put_ops (puts_of clk 3 key (next_version (clk 2) 0) (zip (storage_indexes ?l (length vs)) (rev vs)))
       @ [BPut MetaCF (base_key_bytes key)
            (pv_value (meta_of (next_version (clk 2) 0) ?l (replicate 16 0) 0 0 (length vs)))]))
       (contents_of view st)) key (next_version (clk 2) 0) ?l (replicate 16 0) 0 0 (rev vs)"
    using list_at_append [where xs = "[]" and vs = "rev vs" and res = "replicate 16 0" and l = ?l] vs len
    by (simp add: delete_ops_def)
qed (use len in \<open>simp_all add: own_put_ops delete_ops_def\<close>)

lemma lpush_present:
  assumes ok: "instance_ok E view st" and L: "list_at (contents_of view st) key v l res ct et xs"
    and live: "\<not> expired (clk 0) et" and vs: "vs \<noteq> []" and len: "length xs + length vs < 2 ^ 63"
  shows "ends E view key st (push_core E clk key vs True create st) (Some (int (length xs + length vs)))
    (\<lambda>V. list_at V key (next_version (clk 2) v) (l - word_of_nat (length vs)) res ct et (rev vs @ xs))"
proof (rule push_core_ends [where clk = clk, OF ok vs get_list_meta_present [OF ok L live]])
  let ?v = "next_version (clk 2) v" and ?l = "l - word_of_nat (length vs)"
  let ?ds = "map (lists_data_key_bytes key v) (storage_indexes l (length xs))"
  let ?p1 = "puts_of clk 3 key ?v (zip (storage_indexes ?l (length vs)) (rev vs))"
  let ?p2 = "puts_of clk (3 + length vs) key ?v (zip (storage_indexes l (length xs)) xs)"
  let ?m = "meta_of ?v ?l res ct et (length xs + length vs)"
  show "(if True then push_left E clk (the (rd_db st)) (cf_name ListsDataCF) key vs
        (meta_of v l res ct et (length xs))
      else push_right clk key vs (meta_of v l res ct et (length xs))) = Inr (?ds, ?p1 @ ?p2, ?m)"
    using push_left_present [OF ok L] by (simp del: cf_name.simps)
  let ?V1 = "apply_ops (map write_op_of (put_ops ?p1))
      (apply_ops (map write_op_of (delete_ops ?ds)) (contents_of view st))"
  have "stored ?V1 key ?v (idx ?l i) (rev vs ! i)" if "i < length (rev vs)" for i
    using puts_stored [of "rev vs" i] that len by simp
  then have "list_at (apply_ops (map write_op_of
      (put_ops (puts_of clk (3 + length vs) key ?v
          (zip (storage_indexes (?l + word_of_nat (length (rev vs))) (length xs)) xs))
       @ [BPut MetaCF (base_key_bytes key) (pv_value (meta_of ?v ?l res ct et (length (rev vs) + length xs)))]))
      ?V1) key ?v ?l res ct et (rev vs @ xs)"
    by (intro list_at_append) (use L len in \<open>auto simp: list_at_def\<close>)
  then show "list_at (apply_ops (map write_op_of (delete_ops ?ds @ put_ops (?p1 @ ?p2)
      @ [BPut MetaCF (base_key_bytes key) (pv_value ?m)])) (contents_of view st)) key ?v ?l res ct et (rev vs @ xs)"
    by (simp add: apply_put_ops_append add.commute del: cf_name.simps)
qed (use len in \<open>simp_all add: own_put_ops own_put_ops_append own_delete_ops\<close>)

section \<open>Lists by content\<close>

text \<open>\<open>is_list V key et xs\<close>: the key holds the list \<open>xs\<close> with expiry \<open>et\<close>; the empty list is stored
  as no value at all.\<close>

definition is_list :: "contents \<Rightarrow> bytes \<Rightarrow> u64 \<Rightarrow> bytes list \<Rightarrow> bool" where
  "is_list V key et xs \<longleftrightarrow>
     (if xs = [] then meta_at V key = None else \<exists>v l res ct. list_at V key v l res ct et xs)"

lemma is_list_at: "list_at V key v l res ct et xs \<Longrightarrow> is_list V key et xs"
  by (auto simp: is_list_def list_at_def)

lemma is_listE:
  assumes "is_list V key et xs" and "xs \<noteq> []"
  obtains v l res ct where "list_at V key v l res ct et xs"
  using assms by (auto simp: is_list_def)

lemma is_list_absent: "is_list V key et [] \<Longrightarrow> absent now V key"
  by (simp add: is_list_def missing_def)

lemma is_list_length: "is_list V key et xs \<Longrightarrow> length xs < 2 ^ 63"
  by (auto simp: is_list_def list_at_def split: if_splits)

lemma frame_is_list: "frame key V V' \<Longrightarrow> key' \<noteq> key \<Longrightarrow> is_list V key' et xs \<Longrightarrow> is_list V' key' et xs"
  using frame_list_at [of key V V' key'] frame_meta [of key V V' key']
  by (simp add: is_list_def split: if_splits) blast

text \<open>Deleting elements outside a run and rewriting the meta value, or deleting it with the last
  element.\<close>

definition meta_op :: "bytes \<Rightarrow> u64 \<Rightarrow> u64 \<Rightarrow> bytes \<Rightarrow> u64 \<Rightarrow> u64 \<Rightarrow> nat \<Rightarrow> batch_op" where
  "meta_op key v l res ct et n =
     (if n = 0 then BDelete MetaCF (base_key_bytes key)
      else BPut MetaCF (base_key_bytes key) (pv_value (meta_of v l res ct et n)))"

lemma own_meta_op' [simp]: "own_op key (meta_op key v l res ct et n)"
  by (simp add: meta_op_def)

lemma is_list_after_delete:
  assumes "length res = 16" and "length ys = k" and "k < 2 ^ 63"
    and "\<forall>i < length ys. stored V key v (idx l i) (ys ! i) \<and> idx l i \<notin> set is"
  shows "is_list (apply_ops (map write_op_of
      (delete_ops (map (lists_data_key_bytes key v) is) @ [meta_op key v l res ct et k])) V)
    key et ys"
proof (cases "ys = []")
  case True
  with assms(2) show ?thesis by (simp add: is_list_def meta_op_def)
next
  case False
  let ?V = "apply_ops (map write_op_of
      (delete_ops (map (lists_data_key_bytes key v) is) @ [meta_op key v l res ct et k])) V"
  have "stored ?V key v (idx l i) (ys ! i)" if "i < length ys" for i
    using assms(2,4) that False by (auto simp: stored_def apply_delete_ops meta_op_def)
  moreover have "meta_at ?V key = Some (pv_value (meta_of v l res ct et k))"
    using False assms(2) by (auto simp: meta_op_def)
  ultimately have "list_at ?V key v l res ct et ys"
    using assms(1-3) False by (simp add: list_at_def meta_of_def del: cf_name.simps)
  then show ?thesis by (rule is_list_at)
qed

end
