(* ===== verification/Lists_Commands.thy ===== *)
theory Lists_Commands
  imports Lists_Refinement
begin

text \<open>
  Every list command against lists. On top of the representation of \<open>Lists_Refinement\<close>, each command
  is shown to return and to leave what the corresponding operation on lists returns and leaves, on the
  branches for a present, a missing and a wrongly typed key; \<open>spec_cmd\<close> is the abstract machine
  over a list per key, and \<open>run_cmd\<close> the model's commands.
\<close>

section \<open>Pops\<close>

lemma map_snd_upt:
  "length is = length ys \<Longrightarrow>
    map (\<lambda>(_, k, _). k) (map (\<lambda>j. (n + j, f (is ! j), ys ! j)) [0..<length ys]) = map f is"
  by (auto intro: nth_equalityI)

lemma read_elements_list:
  assumes "instance_ok E view st" and "length is = length ys"
    and "\<forall>j < length ys. stored (contents_of view st) key v (is ! j) (ys ! j)"
  obtains es where
    "read_elements E (the (rd_db st)) (cf_name ListsDataCF) key v 0 is = Inr es"
    and "map (\<lambda>(_, _, x). x) es = ys" and "map (\<lambda>(_, k, _). k) es = map (lists_data_key_bytes key v) is"
    and "map fst es = [0..<length ys]"
proof (rule that [OF read_elements_stored [OF assms]])
  show "map fst (map (\<lambda>j. (0 + j, lists_data_key_bytes key v (is ! j), ys ! j)) [0..<length ys])
      = [0..<length ys]"
    by (simp add: comp_def)
qed (rule map_third_upt map_snd_upt [OF assms(2)])+

lemma pop_count_of_meta:
  "n < 2 ^ 63 \<Longrightarrow> pop_count_of count (meta_of v l res ct et n)
     = min (case count of Some c \<Rightarrow> c | None \<Rightarrow> 1) n"
  using unat_of_nat_u64 [of n] by (simp add: pop_count_of_def)

lemma idx_mem_storage_indexes:
  assumes "j < 2 ^ 64" and "n \<le> 2 ^ 64"
  shows "idx l j \<in> set (storage_indexes l n) \<longleftrightarrow> j < n"
  using assms by (auto simp: set_storage_indexes idx_inject)

lemma lpop_present:
  assumes ok: "instance_ok E view st" and L: "list_at (contents_of view st) key v l res ct et xs"
    and live: "\<not> expired (clk 0) et"
    and n: "n = min (case count of Some c \<Rightarrow> c | None \<Rightarrow> 1) (length xs)"
  shows "ends E view key st (lpop E clk key count st) (if n = 0 then None else Some (take n xs))
    (\<lambda>V. is_list V key et (drop n xs))"
proof -
  have xs: "length res = 16" "length xs < 2 ^ 63"
      "\<forall>i < length xs. stored (contents_of view st) key v (idx l i) (xs ! i)"
    using L by (simp_all add: list_at_def)
  have nle: "n \<le> length xs" using n by simp
  let ?is = "storage_indexes l n"
  obtain es where es: "read_elements E (the (rd_db st)) (cf_name ListsDataCF) key v 0 ?is = Inr es"
      "map (\<lambda>(_, _, x). x) es = take n xs" "map (\<lambda>(_, k, _). k) es = map (lists_data_key_bytes key v) ?is"
    using read_elements_list [OF ok, of ?is "take n xs" key v] xs(3) nle by auto
  obtain k where k: "length xs = n + k" "length (drop n xs) = k" "(word_of_nat k :: u64) = 0 \<longleftrightarrow> k = 0"
    using nle xs(2) by (intro that [of "length xs - n"] word_of_nat_eq_0) simp_all
  let ?ops = "delete_ops (map (lists_data_key_bytes key v) ?is)
      @ [meta_op key v (l + word_of_nat n) res ct et k]"
  have keep: "\<forall>i < length (drop n xs).
      stored (contents_of view st) key v (idx (l + word_of_nat n) i) (drop n xs ! i)
      \<and> idx (l + word_of_nat n) i \<notin> set ?is"
    using xs nle by (simp add: idx_add idx_mem_storage_indexes)
  have P: "is_list (apply_ops (map write_op_of ?ops) (contents_of view st)) key et (drop n xs)"
    using xs(2) k(1) by (intro is_list_after_delete [OF xs(1) k(2) _ keep]) simp
  have own: "list_all (own_op key) ?ops" by (simp add: own_delete_ops)
  have empty: "es = [] \<longleftrightarrow> n = 0"
    using es(2) nle L by (metis length_map length_take list.size(3) length_0_conv min.absorb2)
  have "lpop E clk key count st = obind (write_ops E ?ops) (\<lambda>_.
      obind (update_specific_key_statistics E TList (from_utf8_lossy key) (word_of_nat n)) (\<lambda>_.
      oreturn (if n = 0 then None else Some (take n xs)))) st"
    unfolding lpop_def get_db_and_cfs_ok [OF ok] list_meta_key_eq Let_def
    by (simp add: get_list_meta_present [OF ok L live] pop_count_of_meta [OF xs(2)] n [symmetric] es
        del: cf_name.simps length_drop)
      (simp add: meta_of_def xs(1) empty meta_op_def k add.assoc del: cf_name.simps length_drop)
  then show ?thesis
    by (simp only: write_then_statistics [where P = "\<lambda>V. is_list V key et (drop n xs)", OF ok own P])
qed

lemma indexes_down_eq: "n \<le> m \<Longrightarrow> indexes_down (l + word_of_nat m) n = map (\<lambda>j. idx l (m - Suc j)) [0..<n]"
  by (auto simp: indexes_down_def idx_def of_nat_diff)

lemma rpop_internal_present:
  assumes ok: "instance_ok E view st" and L: "list_at (contents_of view st) key v l res ct et xs"
    and live: "\<not> expired (clk 0) et"
    and n: "n = min (case count of Some c \<Rightarrow> c | None \<Rightarrow> 1) (length xs)"
  shows "ends E view key st (rpop_internal E clk key count st) (Some (take n (rev xs)))
    (\<lambda>V. is_list V key et (take (length xs - n) xs))"
proof -
  have xs: "length res = 16" "length xs < 2 ^ 63"
      "\<forall>i < length xs. stored (contents_of view st) key v (idx l i) (xs ! i)"
    using L by (simp_all add: list_at_def)
  have nle: "n \<le> length xs" using n by simp
  let ?is = "indexes_down (l + word_of_nat (length xs)) n" and ?ys = "take (length xs - n) xs"
  obtain es where es: "read_elements E (the (rd_db st)) (cf_name ListsDataCF) key v 0 ?is = Inr es"
      "map (\<lambda>(_, _, x). x) es = take n (rev xs)"
      "map (\<lambda>(_, k, _). k) es = map (lists_data_key_bytes key v) ?is"
    using read_elements_list [OF ok, of ?is "take n (rev xs)" key v] xs(3) nle
    by (auto simp: indexes_down_eq rev_nth)
  obtain k where k: "length xs = n + k" "length ?ys = k" "(word_of_nat k :: u64) = 0 \<longleftrightarrow> k = 0"
    using nle xs(2) by (intro that [of "length xs - n"] word_of_nat_eq_0) simp_all
  let ?ops = "delete_ops (map (lists_data_key_bytes key v) ?is) @ [meta_op key v l res ct et k]"
  have keep: "\<forall>i < length ?ys. stored (contents_of view st) key v (idx l i) (?ys ! i) \<and> idx l i \<notin> set ?is"
    using xs(2,3) nle by (auto simp: indexes_down_eq [OF nle] idx_inject)
  have P: "is_list (apply_ops (map write_op_of ?ops) (contents_of view st)) key et ?ys"
    using xs(2) k(1) by (intro is_list_after_delete [OF xs(1) k(2) _ keep]) simp
  have own: "list_all (own_op key) ?ops" by (simp add: own_delete_ops)
  have "rpop_internal E clk key count st = obind (write_ops E ?ops) (\<lambda>_.
      obind (update_specific_key_statistics E TList (from_utf8_lossy key) (word_of_nat n)) (\<lambda>_.
      oreturn (Some (take n (rev xs))))) st"
    unfolding rpop_internal_def get_db_and_cfs_ok [OF ok] list_meta_key_eq Let_def
    by (simp add: get_list_meta_present [OF ok L live] pop_count_of_meta [OF xs(2)] n [symmetric] es
        del: cf_name.simps length_take)
      (simp add: meta_of_def xs(1) meta_op_def k del: cf_name.simps length_take)
  then show ?thesis
    by (simp only: write_then_statistics [where P = "\<lambda>V. is_list V key et ?ys", OF ok own P])
qed

section \<open>Reads\<close>

definition norm_index :: "bytes list \<Rightarrow> int \<Rightarrow> int" where
  "norm_index xs i = (if i < 0 then int (length xs) + i else i)"

lemma real_index_of_meta:
  assumes "length xs < 2 ^ 63" and "in_i64 i"
  shows "real_index_of i (meta_of v l res ct et (length xs)) = norm_index xs i"
  using assms by (simp add: real_index_of_def norm_index_def u64_as_i64_of_nat wrap_i64_id in_i64_def)

lemma i64_as_u64_nat: "0 \<le> i \<Longrightarrow> i64_as_u64 i = word_of_nat (nat i)"
  by (simp add: i64_as_u64_def)

lemma llen_ends:
  assumes ok: "instance_ok E view st" and L: "list_at (contents_of view st) key v l res ct et xs"
    and live: "\<not> expired (clk 0) et"
  shows "llen E clk key st = Inr (int (length xs))"
  using L by (simp add: llen_def get_db_and_cfs_ok [OF ok] get_list_meta_present [OF ok L live]
      u64_as_i64_of_nat list_at_def del: cf_name.simps)

lemma lindex_present:
  assumes ok: "instance_ok E view st" and L: "list_at (contents_of view st) key v l res ct et xs"
    and live: "\<not> expired (clk 0) et" and i: "in_i64 i"
  shows "lindex E clk key i st = Inr (if 0 \<le> norm_index xs i \<and> norm_index xs i < int (length xs)
    then Some (xs ! nat (norm_index xs i)) else None)"
proof -
  have xs: "length xs < 2 ^ 63"
      "\<forall>i < length xs. stored (contents_of view st) key v (idx l i) (xs ! i)"
    using L by (simp_all add: list_at_def)
  note base = lindex_def get_db_and_cfs_ok [OF ok] get_list_meta_present [OF ok L live]
      real_index_of_meta [OF xs(1) i] u64_as_i64_of_nat [OF xs(1)] Let_def
  show ?thesis
  proof (cases "0 \<le> norm_index xs i \<and> norm_index xs i < int (length xs)")
    case True
    then have "stored (contents_of view st) key v (idx l (nat (norm_index xs i))) (xs ! nat (norm_index xs i))"
      using xs(2) by (metis nat_less_iff)
    then obtain c where get: "db_get_cf E (the (rd_db st)) (cf_name ListsDataCF)
        (lists_data_key_bytes key v (l + i64_as_u64 (norm_index xs i) + 1))
        = Inr (Some (element_bytes c (xs ! nat (norm_index xs i))))"
      using True unfolding stored_def
      by (auto simp: db_get_ok(2) [OF ok] idx_def i64_as_u64_nat simp del: cf_name.simps)
    obtain p where p: "parsed_base_data_value_new (element_bytes c (xs ! nat (norm_index xs i))) = Inr p"
        "pv_user_value p = Inr (xs ! nat (norm_index xs i))"
      using parsed_base_data_value_element by blast
    from True show ?thesis by (simp add: base get p del: cf_name.simps)
  next
    case False
    then show ?thesis by (auto simp: base simp del: cf_name.simps)
  qed
qed

text \<open>The range of \<open>lrange\<close> and \<open>ltrim\<close> on a list.\<close>

definition norm_start :: "bytes list \<Rightarrow> int \<Rightarrow> int" where
  "norm_start xs i = (if i < 0 then max (int (length xs) + i) 0 else min i (int (length xs) - 1))"

definition norm_stop :: "bytes list \<Rightarrow> int \<Rightarrow> int" where
  "norm_stop xs i = (if i < 0 then max (int (length xs) + i) (- 1) else min i (int (length xs) - 1))"

definition range_of :: "bytes list \<Rightarrow> int \<Rightarrow> int \<Rightarrow> bytes list" where
  "range_of xs start stop =
     take (nat (norm_stop xs stop + 1 - norm_start xs start)) (drop (nat (norm_start xs start)) xs)"

lemma real_start_of_length:
  "length xs < 2 ^ 63 \<Longrightarrow> in_i64 i \<Longrightarrow> real_start_of (int (length xs)) i = norm_start xs i"
  by (simp add: real_start_of_def norm_start_def wrap_i64_id in_i64_def)

lemma real_stop_of_length:
  "length xs < 2 ^ 63 \<Longrightarrow> in_i64 i \<Longrightarrow> real_stop_of (int (length xs)) i = norm_stop xs i"
  by (simp add: real_stop_of_def norm_stop_def wrap_i64_id in_i64_def)

lemma norm_bounds:
  assumes "xs \<noteq> []"
  shows "0 \<le> norm_start xs i" "norm_start xs i \<le> int (length xs) \<or> norm_start xs i = 0"
    "- 1 \<le> norm_stop xs i" "norm_stop xs i < int (length xs)"
  using assms by (auto simp: norm_start_def norm_stop_def min_def max_def Suc_le_eq)

lemma norm_start_less: "xs \<noteq> [] \<Longrightarrow> norm_start xs i < int (length xs)"
  by (auto simp: norm_start_def min_def max_def)

lemma range_indexes_eq:
  assumes "0 \<le> a"
  shows "range_indexes l a b = map (idx l) [nat a..<nat (b + 1)]"
proof (cases "a \<le> b")
  case True
  have "[a..b] = map int [nat a..<nat (b + 1)]"
    using assms True by (intro nth_equalityI) (auto simp: nth_upto)
  then show ?thesis by (simp add: range_indexes_def idx_def i64_as_u64_nat)
qed (use assms in \<open>simp add: range_indexes_def nat_le_eq_zle\<close>)

lemma norm_nat:
  assumes "xs \<noteq> []"
  obtains a b where "norm_start xs start = int a" and "norm_stop xs stop = int b - 1"
    and "a < length xs" and "b \<le> length xs" and "range_of xs start stop = take (b - a) (drop a xs)"
proof
  show "norm_start xs start = int (nat (norm_start xs start))"
    using norm_bounds(1) [OF assms] by simp
  show "norm_stop xs stop = int (nat (norm_stop xs stop + 1)) - 1"
    using norm_bounds(3) [OF assms, of stop] by simp
  show "nat (norm_start xs start) < length xs"
    using norm_start_less [OF assms, of start] norm_bounds(1) [OF assms, of start] by linarith
  show "nat (norm_stop xs stop + 1) \<le> length xs"
    using norm_bounds(4) [OF assms, of stop] by linarith
  show "range_of xs start stop
      = take (nat (norm_stop xs stop + 1) - nat (norm_start xs start)) (drop (nat (norm_start xs start)) xs)"
    using norm_bounds(1) [OF assms, of start] norm_bounds(3) [OF assms, of stop]
    by (simp add: range_of_def nat_diff_distrib')
qed

lemma lrange_present:
  assumes ok: "instance_ok E view st" and L: "list_at (contents_of view st) key v l res ct et xs"
    and live: "\<not> expired (clk 0) et" and i: "in_i64 start" "in_i64 stop"
  shows "lrange E clk key start stop st = Inr (range_of xs start stop)"
proof -
  have xs: "xs \<noteq> []" "length xs < 2 ^ 63"
      "\<forall>i < length xs. stored (contents_of view st) key v (idx l i) (xs ! i)"
    using L by (simp_all add: list_at_def)
  obtain a b where ab: "norm_start xs start = int a" "norm_stop xs stop = int b - 1"
      "a < length xs" "b \<le> length xs" "range_of xs start stop = take (b - a) (drop a xs)"
    using norm_nat [OF xs(1)] .
  let ?is = "range_indexes l (int a) (int b - 1)"
  obtain es where es: "read_elements E (the (rd_db st)) (cf_name ListsDataCF) key v 0 ?is = Inr es"
      "map (\<lambda>(_, _, x). x) es = take (b - a) (drop a xs)"
    using read_elements_list [OF ok, of ?is "take (b - a) (drop a xs)" key v] xs(3) ab(3,4)
    by (auto simp: range_indexes_eq)
  show ?thesis
    using ab(3) by (auto simp: lrange_def get_db_and_cfs_ok [OF ok] get_list_meta_present [OF ok L live]
        u64_as_i64_of_nat [OF xs(2)] real_start_of_length [OF xs(2) i(1)] real_stop_of_length [OF xs(2) i(2)]
        Let_def es ab(1,2,5) simp del: cf_name.simps)
qed

section \<open>Updates in place\<close>

lemma lset_present:
  assumes ok: "instance_ok E view st" and L: "list_at (contents_of view st) key v l res ct et xs"
    and live: "\<not> expired (clk 0) et" and i: "in_i64 i" and j: "norm_index xs i = int j" "j < length xs"
  shows "ends E view key st (lset E clk key i x st) () (\<lambda>V. is_list V key et (xs[j := x]))"
proof -
  have xs: "length xs < 2 ^ 63" using L by (simp add: list_at_def)
  let ?op = "BPut ListsDataCF (lists_data_key_bytes key v (idx l j)) (element_bytes (clk 3) x)"
  let ?V = "apply_ops (map write_op_of [?op]) (contents_of view st)"
  have "stored ?V key v (idx l k) (xs[j := x] ! k)" if "k < length xs" for k
    using L that j(2) xs idx_inject [of k j l]
    by (cases "k = j") (auto simp: stored_def list_at_def simp del: cf_name.simps)
  then have P: "is_list ?V key et (xs[j := x])"
    using L by (intro is_list_at [of _ _ v l res ct]) (simp add: list_at_def)
  have own: "list_all (own_op key) [?op]" by (auto simp: own_op_def own_cell_def)
  have "lset E clk key i x st = write_ops E [?op] st"
    using j by (simp add: lset_def get_db_and_cfs_ok [OF ok] get_list_meta_present [OF ok L live]
        real_index_of_meta [OF xs i] u64_as_i64_of_nat [OF xs] Let_def idx_def i64_as_u64_nat element_bytes_def
        del: cf_name.simps)
  then show ?thesis
    by (simp only: write_then_return [where P = "\<lambda>V. is_list V key et (xs[j := x])", OF ok own P])
qed

lemma lset_out_of_range:
  assumes ok: "instance_ok E view st" and L: "list_at (contents_of view st) key v l res ct et xs"
    and live: "\<not> expired (clk 0) et" and i: "in_i64 i"
    and out: "norm_index xs i < 0 \<or> int (length xs) \<le> norm_index xs i"
  shows "lset E clk key i x st = (Inl (InvalidFormat ''index out of range''), st)"
proof -
  have xs: "length xs < 2 ^ 63" using L by (simp add: list_at_def)
  show ?thesis
    using out by (auto simp: lset_def get_db_and_cfs_ok [OF ok] get_list_meta_present [OF ok L live]
        real_index_of_meta [OF xs i] u64_as_i64_of_nat [OF xs] Let_def olift_apply simp del: cf_name.simps)
qed

lemma ltrim_present:
  assumes ok: "instance_ok E view st" and L: "list_at (contents_of view st) key v l res ct et xs"
    and live: "\<not> expired (clk 0) et" and i: "in_i64 start" "in_i64 stop"
  shows "ends E view key st (ltrim E clk key start stop st) ()
    (\<lambda>V. is_list V key et (range_of xs start stop))"
proof -
  have xs: "xs \<noteq> []" "length res = 16" "length xs < 2 ^ 63"
      "\<forall>i < length xs. stored (contents_of view st) key v (idx l i) (xs ! i)"
    using L by (simp_all add: list_at_def)
  obtain a b where ab: "norm_start xs start = int a" "norm_stop xs stop = int b - 1"
      "a < length xs" "b \<le> length xs" "range_of xs start stop = take (b - a) (drop a xs)"
    using norm_nat [OF xs(1)] .
  let ?ys = "take (b - a) (drop a xs)"
  have len: "length ?ys = b - a" using ab by simp
  note base = ltrim_def get_db_and_cfs_ok [OF ok] get_list_meta_present [OF ok L live]
      u64_as_i64_of_nat [OF xs(3)] real_start_of_length [OF xs(3) i(1)] real_stop_of_length [OF xs(3) i(2)]
      Let_def ab(1,2) encode_keys_eq unat_length [OF xs(3)]
  show ?thesis
  proof (cases "b \<le> a")
    case True
    let ?ops = "delete_ops (map (lists_data_key_bytes key v) (storage_indexes l (length xs)))
      @ [meta_op key v l res ct et 0]"
    have P: "is_list (apply_ops (map write_op_of ?ops) (contents_of view st)) key et ?ys"
      using True by (intro is_list_after_delete [OF xs(2)]) simp_all
    have own: "list_all (own_op key) ?ops" by (simp add: own_delete_ops)
    have "ltrim E clk key start stop st = write_ops E ?ops st"
      using True by (simp add: base meta_op_def del: cf_name.simps)
    then show ?thesis
      by (simp only: write_then_return [where P = "\<lambda>V. is_list V key et ?ys", OF ok own P] ab(5))
  next
    case False
    let ?is = "range_indexes l 0 (int a - 1) @ range_indexes l (int b) (int (length xs) - 1)"
    let ?ops = "delete_ops (map (lists_data_key_bytes key v) ?is)
      @ [meta_op key v (l + word_of_nat a) res ct et (b - a)]"
    have keep: "\<forall>i < length ?ys. stored (contents_of view st) key v (idx (l + word_of_nat a) i) (?ys ! i)
        \<and> idx (l + word_of_nat a) i \<notin> set ?is"
      using xs(3,4) ab(3,4) by (auto simp: range_indexes_eq idx_add idx_inject)
    have P: "is_list (apply_ops (map write_op_of ?ops) (contents_of view st)) key et ?ys"
      using xs(3) ab(4) by (intro is_list_after_delete [OF xs(2) len _ keep]) simp
    have own: "list_all (own_op key) ?ops" by (simp only: list_all_append own_delete_ops) simp
    have "i64_as_u64 (int b - 1 - int a + 1) = word_of_nat (b - a)"
      using False by (simp add: i64_as_u64_nat nat_diff_distrib')
    then have "ltrim E clk key start stop st = write_ops E ?ops st"
      using False ab(3) by (simp add: base meta_of_def meta_op_def xs(2) i64_as_u64_nat del: cf_name.simps of_nat_diff)
    then show ?thesis
      by (simp only: write_then_return [where P = "\<lambda>V. is_list V key et ?ys", OF ok own P] ab(5))
  qed
qed

section \<open>Updates that rewrite the list\<close>

lemma is_list_after_rewrite:
  assumes "length res = 16" and "ys \<noteq> []" and "length ys < 2 ^ 63"
  shows "is_list (apply_ops (map write_op_of (delete_ops ks
      @ put_ops (puts_of clk n key v (zip (storage_indexes l (length ys)) ys))
      @ [BPut MetaCF (base_key_bytes key) (pv_value (meta_of v l res ct et (length ys)))])) V) key et ys"
proof -
  let ?V = "apply_ops (map write_op_of (delete_ops ks)) V"
  have "list_at (apply_ops (map write_op_of
      (put_ops (puts_of clk n key v (zip (storage_indexes l (length ys)) ys))
       @ [BPut MetaCF (base_key_bytes key) (pv_value (meta_of v l res ct et (length ys)))])) ?V)
      key v l res ct et ys"
    using list_at_append [where xs = "[]" and vs = ys and V = ?V and l = l] assms by simp
  then show ?thesis by (intro is_list_at [of _ _ v l res ct]) (simp del: cf_name.simps)
qed

text \<open>Removal of the first \<open>n\<close> occurrences.\<close>

fun remove_n :: "nat \<Rightarrow> 'a \<Rightarrow> 'a list \<Rightarrow> 'a list" where
  "remove_n n x [] = []"
| "remove_n n x (y # ys) = (if 0 < n \<and> y = x then remove_n (n - 1) x ys else y # remove_n n x ys)"

definition removed :: "int \<Rightarrow> 'a \<Rightarrow> 'a list \<Rightarrow> 'a list" where
  "removed c x xs =
     (if c = 0 then filter (\<lambda>y. y \<noteq> x) xs
      else if 0 < c then remove_n (nat c) x xs
      else rev (remove_n (nat (- c)) x (rev xs)))"

lemma length_remove_n: "length (remove_n n x xs) \<le> length xs"
  by (induction n x xs rule: remove_n.induct) auto

lemma remove_n_id: "length (remove_n n x xs) = length xs \<Longrightarrow> remove_n n x xs = xs"
proof (induction n x xs rule: remove_n.induct)
  case (2 n x y ys)
  then show ?case using length_remove_n [of "n - 1" x ys] by (auto split: if_splits)
qed simp

lemma remove_n_all: "length xs \<le> n \<Longrightarrow> remove_n n x xs = filter (\<lambda>y. y \<noteq> x) xs"
  by (induction n x xs rule: remove_n.induct) auto

lemma lrem_loop_eq:
  "lrem_loop x left c xs = (c + (int (length xs) - int (length (remove_n (nat left) x xs))), remove_n (nat left) x xs)"
proof (induction x left c xs rule: lrem_loop.induct)
  case (2 x left c y ys)
  then show ?case by (auto simp: nat_diff_distrib')
qed simp

lemma length_removed: "length (removed c x xs) \<le> length xs"
  using length_remove_n [of "nat c" x xs] length_remove_n [of "nat (- c)" x "rev xs"]
  by (simp add: removed_def)

lemma removed_id: "length (removed c x xs) = length xs \<Longrightarrow> removed c x xs = xs"
  using remove_n_id [of "nat c" x xs] remove_n_id [of "nat (- c)" x "rev xs"]
    length_filter_less [of _ xs "\<lambda>y. y \<noteq> x"]
  by (auto simp: removed_def filter_id_conv split: if_splits)

lemma lrem_filter_eq:
  assumes "in_i64 c" and "c \<noteq> - (2 ^ 63)" and "length xs < 2 ^ 63"
  shows "lrem_filter c x xs = (int (length xs) - int (length (removed c x xs)), removed c x xs)"
proof -
  have "wrap_i64 \<bar>c\<bar> = \<bar>c\<bar>" using assms by (intro wrap_i64_id) (auto simp: in_i64_def)
  then show ?thesis
    using assms(3) by (auto simp: lrem_filter_def Let_def lrem_loop_eq removed_def remove_n_all)
qed

lemma lrem_present:
  assumes ok: "instance_ok E view st" and L: "list_at (contents_of view st) key v l res ct et xs"
    and live: "\<not> expired (clk 0) et" and c: "in_i64 c" "c \<noteq> - (2 ^ 63)"
  shows "ends E view key st (lrem E clk key c x st) (int (length xs) - int (length (removed c x xs)))
    (\<lambda>V. is_list V key et (removed c x xs))"
proof -
  have xs: "length res = 16" "length xs < 2 ^ 63"
      "\<forall>i < length xs. stored (contents_of view st) key v (idx l i) (xs ! i)"
    using L by (simp_all add: list_at_def)
  let ?is = "storage_indexes l (length xs)"
  obtain es where es: "read_elements E (the (rd_db st)) (cf_name ListsDataCF) key v 0 ?is = Inr es"
      "map (\<lambda>(_, _, x). x) es = xs"
    using read_elements_list [OF ok, of ?is xs key v] xs(3) by auto
  define ys where "ys = removed c x xs"
  have ys: "length ys \<le> length xs" "length ys = length xs \<Longrightarrow> ys = xs"
    unfolding ys_def by (rule length_removed, rule removed_id)
  note base = lrem_def get_db_and_cfs_ok [OF ok] get_list_meta_present [OF ok L live]
      unat_length [OF xs(2)] es lrem_filter_eq [OF c xs(2), of x, folded ys_def] Let_def
      encode_keys_eq encode_puts_eq
  show ?thesis unfolding ys_def [symmetric]
  proof (cases "length ys = length xs")
    case True
    then have "lrem E clk key c x st = (Inr 0, st)"
      by (simp add: base oreturn_apply del: cf_name.simps)
    then show "ends E view key st (lrem E clk key c x st) (int (length xs) - int (length ys))
        (\<lambda>V. is_list V key et ys)"
      using ok is_list_at [OF L] ys(2) [OF True] by (simp add: ends_def)
  next
    case False
    let ?ds = "delete_ops (map (lists_data_key_bytes key v) ?is)"
    let ?ops = "if ys = [] then ?ds @ [BDelete MetaCF (base_key_bytes key)]
        else ?ds @ put_ops (puts_of clk 3 key v (zip (storage_indexes l (length ys)) ys))
          @ [BPut MetaCF (base_key_bytes key) (pv_value (meta_of v l res ct et (length ys)))]"
    have P: "is_list (apply_ops (map write_op_of ?ops) (contents_of view st)) key et ys"
      using is_list_after_rewrite [OF xs(1), of ys] ys(1) xs(2)
      by (auto simp: is_list_def)
    have own: "list_all (own_op key) ?ops" by (simp add: own_delete_ops own_put_ops)
    have "lrem E clk key c x st = obind (write_ops E ?ops) (\<lambda>_.
        obind (update_specific_key_statistics E TList (from_utf8_lossy key)
          (i64_as_u64 (int (length xs) - int (length ys)))) (\<lambda>_.
        oreturn (int (length xs) - int (length ys)))) st"
      using False ys(1) by (simp add: base meta_of_def xs(1) del: cf_name.simps)
    then show "ends E view key st (lrem E clk key c x st) (int (length xs) - int (length ys))
        (\<lambda>V. is_list V key et ys)"
      by (simp only: write_then_statistics [where P = "\<lambda>V. is_list V key et ys", OF ok own P])
  qed
qed

text \<open>\<open>linsert\<close> inserts at the last occurrence of the pivot.\<close>

fun last_pos :: "'a \<Rightarrow> 'a list \<Rightarrow> nat option" where
  "last_pos x [] = None"
| "last_pos x (y # ys) =
     (case last_pos x ys of Some i \<Rightarrow> Some (Suc i) | None \<Rightarrow> if y = x then Some 0 else None)"

lemma last_pos_less: "last_pos x xs = Some i \<Longrightarrow> i < length xs"
  by (induction xs arbitrary: i) (auto split: option.splits if_splits)

lemma last_pos_None: "last_pos x xs = None \<longleftrightarrow> x \<notin> set xs"
  by (induction xs) (auto split: option.splits)

lemma last_pos_nth: "last_pos x xs = Some i \<Longrightarrow> xs ! i = x \<and> x \<notin> set (drop (Suc i) xs)"
  by (induction xs arbitrary: i) (auto simp: last_pos_None split: option.splits if_splits)

lemma pivot_loop_eq:
  "map fst es = [n..<n + length es] \<Longrightarrow>
    pivot_loop p acc es
     = (case last_pos p (map (\<lambda>(_, _, x). x) es) of Some i \<Rightarrow> Some (n + i) | None \<Rightarrow> acc)"
proof (induction es arbitrary: n acc)
  case (Cons e es)
  obtain i k x where e: "e = (i, k, x)" by (cases e)
  have "i = n" and "map fst es = [Suc n..<Suc n + length es]"
    using Cons.prems by (simp_all add: e upt_conv_Cons del: upt_Suc)
  then show ?case using Cons.IH [of "Suc n"] by (auto simp: e split: option.splits)
qed simp

definition insert_at :: "nat \<Rightarrow> 'a \<Rightarrow> 'a list \<Rightarrow> 'a list" where
  "insert_at i x xs = take i xs @ x # drop i xs"

lemma length_insert_at [simp]: "length (insert_at i x xs) = Suc (length xs)"
  by (simp add: insert_at_def)

lemma insert_at_not_Nil [simp]: "insert_at i x xs \<noteq> []"
  by (simp add: insert_at_def)

lemma vec_insert_eq: "i \<le> length xs \<Longrightarrow> vec_insert i x xs = Inr (insert_at i x xs)"
  by (simp add: vec_insert_def insert_at_def)

lemma linsert_base:
  assumes ok: "instance_ok E view st" and L: "list_at (contents_of view st) key v l res ct et xs"
    and live: "\<not> expired (clk 0) et"
  obtains es where
    "read_elements E (the (rd_db st)) (cf_name ListsDataCF) key v 0 (storage_indexes l (length xs)) = Inr es"
    and "map (\<lambda>(_, _, x). x) es = xs" and "pivot_loop p None es = last_pos p xs"
proof -
  let ?is = "storage_indexes l (length xs)"
  have xs: "\<forall>i < length xs. stored (contents_of view st) key v (?is ! i) (xs ! i)"
    using L by (simp add: list_at_def)
  obtain es where es: "read_elements E (the (rd_db st)) (cf_name ListsDataCF) key v 0 ?is = Inr es"
      "map (\<lambda>(_, _, x). x) es = xs" "map fst es = [0..<length xs]"
    using read_elements_list [OF ok _ xs] by auto
  then have "map fst es = [0..<0 + length es]" by (metis add_0 length_map)
  from pivot_loop_eq [OF this, of p None] es that show ?thesis
    by (simp add: option.case_eq_if)
qed

lemma linsert_present:
  assumes ok: "instance_ok E view st" and L: "list_at (contents_of view st) key v l res ct et xs"
    and live: "\<not> expired (clk 0) et" and p: "last_pos p xs = Some i" and len: "Suc (length xs) < 2 ^ 63"
  shows "ends E view key st (linsert E clk key w p x st) (int (Suc (length xs)))
    (\<lambda>V. is_list V key et (insert_at (case w of Before \<Rightarrow> i | After \<Rightarrow> i + 1) x xs))"
proof -
  have xs: "length res = 16" "length xs < 2 ^ 63" using L by (simp_all add: list_at_def)
  let ?is = "storage_indexes l (length xs)" and ?v = "next_version (clk 2) v"
  obtain es where es: "read_elements E (the (rd_db st)) (cf_name ListsDataCF) key v 0 ?is = Inr es"
      "map (\<lambda>(_, _, x). x) es = xs" "pivot_loop p None es = last_pos p xs"
    using linsert_base [where clk = clk, OF ok L live] .
  let ?i = "case w of Before \<Rightarrow> i | After \<Rightarrow> i + 1"
  define ys where "ys = insert_at ?i x xs"
  have ys: "length ys = Suc (length xs)" "ys \<noteq> []" by (simp_all add: ys_def)
  have ins: "vec_insert ?i x xs = Inr ys"
    unfolding ys_def using last_pos_less [OF p] by (intro vec_insert_eq) (simp split: before_or_after.split)
  let ?ops = "delete_ops (map (lists_data_key_bytes key v) ?is)
      @ put_ops (puts_of clk 3 key ?v (zip (storage_indexes l (length ys)) ys))
      @ [BPut MetaCF (base_key_bytes key) (pv_value (meta_of ?v l res ct et (length ys)))]"
  have P: "is_list (apply_ops (map write_op_of ?ops) (contents_of view st)) key et ys"
    using ys len by (intro is_list_after_rewrite [OF xs(1)]) simp_all
  have own: "list_all (own_op key) ?ops" by (simp add: own_delete_ops own_put_ops)
  have n: "wrap_i64 (int (length ys)) = int (Suc (length xs))"
    unfolding ys(1) using len by (intro wrap_i64_id) simp_all
  have "linsert E clk key w p x st = obind (write_ops E ?ops) (\<lambda>_.
      obind (update_specific_key_statistics E TList (from_utf8_lossy key) 1) (\<lambda>_.
      oreturn (int (Suc (length xs))))) st"
    unfolding linsert_def get_db_and_cfs_ok [OF ok] list_meta_key_eq Let_def
    by (simp add: get_list_meta_present [OF ok L live] unat_length [OF xs(2)] es p ins n
        encode_keys_eq encode_puts_eq del: cf_name.simps)
      (simp add: meta_of_def xs(1) del: cf_name.simps)
  then show ?thesis
    by (simp only: write_then_statistics [where P = "\<lambda>V. is_list V key et ys", OF ok own P] flip: ys_def)
qed

lemma linsert_no_pivot:
  assumes ok: "instance_ok E view st" and L: "list_at (contents_of view st) key v l res ct et xs"
    and live: "\<not> expired (clk 0) et" and p: "p \<notin> set xs"
  shows "linsert E clk key w p x st = (Inr (- 1), st)"
proof -
  have xs: "length xs < 2 ^ 63" using L by (simp add: list_at_def)
  obtain es where es: "read_elements E (the (rd_db st)) (cf_name ListsDataCF) key v 0
        (storage_indexes l (length xs)) = Inr es"
      "map (\<lambda>(_, _, x). x) es = xs" "pivot_loop p None es = last_pos p xs"
    using linsert_base [where clk = clk, OF ok L live] .
  have "pivot_loop p None es = None" using es(3) p by (simp add: last_pos_None)
  then show ?thesis
    by (simp add: linsert_def get_db_and_cfs_ok [OF ok] get_list_meta_present [OF ok L live]
        unat_length [OF xs] es(1,2) Let_def oreturn_apply del: cf_name.simps)
qed

section \<open>Keys that count as missing\<close>

lemma push_core_nil:
  assumes ok: "instance_ok E view st"
  shows "list_at (contents_of view st) key v l res ct et xs \<Longrightarrow> \<not> expired (clk 0) et \<Longrightarrow>
      push_core E clk key [] position create st = (Inr (Some (int (length xs))), st)"
    and "absent (clk 0) (contents_of view st) key \<Longrightarrow>
      push_core E clk key [] position create st = (Inr (Some 0), st)"
proof -
  assume L: "list_at (contents_of view st) key v l res ct et xs" and live: "\<not> expired (clk 0) et"
  have "length xs < 2 ^ 63" using L by (simp add: list_at_def)
  then show "push_core E clk key [] position create st = (Inr (Some (int (length xs))), st)"
    by (simp add: push_core_def get_db_and_cfs_ok [OF ok] get_list_meta_present [OF ok L live]
        u64_as_i64_of_nat olift_apply del: cf_name.simps)
next
  assume "absent (clk 0) (contents_of view st) key"
  then show "push_core E clk key [] position create st = (Inr (Some 0), st)"
    by (simp add: push_core_def get_db_and_cfs_ok [OF ok] get_list_meta_absent [OF ok] olift_apply
        del: cf_name.simps)
qed

lemma absent_results:
  assumes ok: "instance_ok E view st" and A: "absent (clk 0) (contents_of view st) key"
  shows "vs \<noteq> [] \<Longrightarrow> push_core E clk key vs position False st = (Inr None, st)"
    and "lpop E clk key count st = (Inr None, st)"
    and "rpop_internal E clk key count st = (Inr None, st)"
    and "llen E clk key st = Inr 0"
    and "lindex E clk key i st = Inr None"
    and "lrange E clk key start stop st = Inr []"
    and "lset E clk key i x st = (Inl (KeyNotFound (from_utf8_lossy key)), st)"
    and "ltrim E clk key start stop st = (Inr (), st)"
    and "lrem E clk key c x st = (Inr 0, st)"
    and "linsert E clk key w p x st = (Inl (KeyNotFound (from_utf8_lossy key)), st)"
  by (simp_all add: push_core_def lpop_def rpop_internal_def llen_def lindex_def lrange_def lset_def
      ltrim_def lrem_def linsert_def get_db_and_cfs_ok [OF ok] get_list_meta_absent [OF ok A] Let_def
      olift_apply oreturn_apply del: cf_name.simps)

text \<open>A value of another type under the key: every command fails with the error of the type check and
  changes nothing.\<close>

lemma wrong_type_results:
  assumes ok: "instance_ok E view st" and b: "meta_at (contents_of view st) key = Some b"
    and e: "check_type_state (clk 0) b TList = Inl e"
  shows "push_core E clk key vs position create st = (Inl e, st)"
    and "lpop E clk key count st = (Inl e, st)"
    and "rpop_internal E clk key count st = (Inl e, st)"
    and "llen E clk key st = Inl e"
    and "lindex E clk key i st = Inl e"
    and "lrange E clk key start stop st = Inl e"
    and "lset E clk key i x st = (Inl e, st)"
    and "ltrim E clk key start stop st = (Inl e, st)"
    and "lrem E clk key c x st = (Inl e, st)"
    and "linsert E clk key w p x st = (Inl e, st)"
  by (simp_all add: push_core_def lpop_def rpop_internal_def llen_def lindex_def lrange_def lset_def
      ltrim_def lrem_def linsert_def get_db_and_cfs_ok [OF ok] get_list_meta_wrong_type [OF ok b e] Let_def
      olift_apply oreturn_apply del: cf_name.simps)

section \<open>Command sequences\<close>

datatype list_cmd =
    LPush bytes "bytes list" | RPush bytes "bytes list"
  | LPushX bytes "bytes list" | RPushX bytes "bytes list"
  | LPop bytes "nat option" | RPop bytes "nat option"
  | LLen bytes | LIndex bytes int | LRange bytes int int
  | LSet bytes int bytes | LTrim bytes int int | LRem bytes int bytes
  | LInsert bytes before_or_after bytes bytes | RPopLPush bytes bytes

datatype list_reply = IntR int | BulkR "bytes option" | ArrayR "bytes list option" | OkR | ErrR error

definition reply_of :: "('a \<Rightarrow> list_reply) \<Rightarrow> 'a result \<times> 's \<Rightarrow> list_reply \<times> 's" where
  "reply_of f out = (case out of (Inr x, s) \<Rightarrow> (f x, s) | (Inl e, s) \<Rightarrow> (ErrR e, s))"

fun run_cmd ::
  "('db, 'c) env \<Rightarrow> (nat \<Rightarrow> u64) \<Rightarrow> (nat \<Rightarrow> u64) \<Rightarrow> list_cmd \<Rightarrow> ('db, 'c) redis
     \<Rightarrow> list_reply \<times> ('db, 'c) redis" where
  "run_cmd E clk clk' (LPush k vs) st = reply_of IntR (lpush E clk k vs st)"
| "run_cmd E clk clk' (RPush k vs) st = reply_of IntR (rpush E clk k vs st)"
| "run_cmd E clk clk' (LPushX k vs) st = reply_of IntR (lpushx E clk k vs st)"
| "run_cmd E clk clk' (RPushX k vs) st = reply_of IntR (rpushx E clk k vs st)"
| "run_cmd E clk clk' (LPop k c) st = reply_of ArrayR (lpop E clk k c st)"
| "run_cmd E clk clk' (RPop k c) st = reply_of ArrayR (rpop E clk k c st)"
| "run_cmd E clk clk' (LLen k) st = reply_of IntR (llen E clk k st, st)"
| "run_cmd E clk clk' (LIndex k i) st = reply_of BulkR (lindex E clk k i st, st)"
| "run_cmd E clk clk' (LRange k a b) st = reply_of (\<lambda>xs. ArrayR (Some xs)) (lrange E clk k a b st, st)"
| "run_cmd E clk clk' (LSet k i x) st = reply_of (\<lambda>_. OkR) (lset E clk k i x st)"
| "run_cmd E clk clk' (LTrim k a b) st = reply_of (\<lambda>_. OkR) (ltrim E clk k a b st)"
| "run_cmd E clk clk' (LRem k c x) st = reply_of IntR (lrem E clk k c x st)"
| "run_cmd E clk clk' (LInsert k w p x) st = reply_of IntR (linsert E clk k w p x st)"
| "run_cmd E clk clk' (RPopLPush s d) st = reply_of BulkR (rpoplpush E clk clk' s d st)"

text \<open>The abstract machine: a list per key, the empty list for a missing key.\<close>

type_synonym lists = "bytes \<Rightarrow> bytes list"

definition popped :: "bytes list \<Rightarrow> list_reply" where
  "popped xs = ArrayR (if xs = [] then None else Some xs)"

definition pop_size :: "nat option \<Rightarrow> nat" where
  "pop_size c = (case c of Some n \<Rightarrow> n | None \<Rightarrow> 1)"

fun spec_cmd :: "list_cmd \<Rightarrow> lists \<Rightarrow> list_reply \<times> lists" where
  "spec_cmd (LPush k vs) A = (IntR (int (length (A k) + length vs)), A(k := rev vs @ A k))"
| "spec_cmd (RPush k vs) A = (IntR (int (length (A k) + length vs)), A(k := A k @ vs))"
| "spec_cmd (LPushX k vs) A =
     (if A k = [] then (IntR 0, A) else (IntR (int (length (A k) + length vs)), A(k := rev vs @ A k)))"
| "spec_cmd (RPushX k vs) A =
     (if A k = [] then (IntR 0, A) else (IntR (int (length (A k) + length vs)), A(k := A k @ vs)))"
| "spec_cmd (LPop k c) A = (popped (take (pop_size c) (A k)), A(k := drop (pop_size c) (A k)))"
| "spec_cmd (RPop k c) A =
     (popped (take (pop_size c) (rev (A k))), A(k := take (length (A k) - pop_size c) (A k)))"
| "spec_cmd (LLen k) A = (IntR (int (length (A k))), A)"
| "spec_cmd (LIndex k i) A =
     (BulkR (if 0 \<le> norm_index (A k) i \<and> norm_index (A k) i < int (length (A k))
             then Some (A k ! nat (norm_index (A k) i)) else None), A)"
| "spec_cmd (LRange k a b) A = (ArrayR (Some (range_of (A k) a b)), A)"
| "spec_cmd (LSet k i x) A =
     (if A k = [] then (ErrR (KeyNotFound (from_utf8_lossy k)), A)
      else if 0 \<le> norm_index (A k) i \<and> norm_index (A k) i < int (length (A k))
      then (OkR, A(k := (A k)[nat (norm_index (A k) i) := x]))
      else (ErrR (InvalidFormat ''index out of range''), A))"
| "spec_cmd (LTrim k a b) A = (OkR, A(k := range_of (A k) a b))"
| "spec_cmd (LRem k c x) A =
     (IntR (int (length (A k)) - int (length (removed c x (A k)))), A(k := removed c x (A k)))"
| "spec_cmd (LInsert k w p x) A =
     (if A k = [] then (ErrR (KeyNotFound (from_utf8_lossy k)), A)
      else case last_pos p (A k) of
             None \<Rightarrow> (IntR (- 1), A)
           | Some i \<Rightarrow> (IntR (int (Suc (length (A k)))),
                       A(k := insert_at (case w of Before \<Rightarrow> i | After \<Rightarrow> i + 1) x (A k))))"
| "spec_cmd (RPopLPush s d) A =
     (if A s = [] then (BulkR None, A)
      else let x = List.last (A s); B = A(s := butlast (A s)) in (BulkR (Some x), B(d := x # B d)))"

text \<open>The arguments are machine integers, and no list grows to \<open>2 ^ 63\<close> elements. The count of
  \<open>lrem\<close> is not the smallest \<open>i64\<close>, whose absolute value overflows.\<close>

fun cmd_ok :: "list_cmd \<Rightarrow> lists \<Rightarrow> bool" where
  "cmd_ok (LPush k vs) A \<longleftrightarrow> length (A k) + length vs < 2 ^ 63"
| "cmd_ok (RPush k vs) A \<longleftrightarrow> length (A k) + length vs < 2 ^ 63"
| "cmd_ok (LPushX k vs) A \<longleftrightarrow> length (A k) + length vs < 2 ^ 63"
| "cmd_ok (RPushX k vs) A \<longleftrightarrow> length (A k) + length vs < 2 ^ 63"
| "cmd_ok (LIndex k i) A \<longleftrightarrow> in_i64 i"
| "cmd_ok (LRange k a b) A \<longleftrightarrow> in_i64 a \<and> in_i64 b"
| "cmd_ok (LSet k i x) A \<longleftrightarrow> in_i64 i"
| "cmd_ok (LTrim k a b) A \<longleftrightarrow> in_i64 a \<and> in_i64 b"
| "cmd_ok (LRem k c x) A \<longleftrightarrow> in_i64 c \<and> c \<noteq> - (2 ^ 63)"
| "cmd_ok (LInsert k w p x) A \<longleftrightarrow> Suc (length (A k)) < 2 ^ 63"
| "cmd_ok (RPopLPush s d) A \<longleftrightarrow> Suc (length (A d)) < 2 ^ 63"
| "cmd_ok _ A \<longleftrightarrow> True"

definition represents :: "contents \<Rightarrow> lists \<Rightarrow> bool" where
  "represents V A \<longleftrightarrow> (\<forall>k. is_list V k 0 (A k))"

text \<open>\<open>arrives E view out r A\<close>: the command returned \<open>r\<close> and its state represents \<open>A\<close>.\<close>

definition arrives ::
  "('db, 'c) env \<Rightarrow> ('db \<Rightarrow> contents) \<Rightarrow> 'a result \<times> ('db, 'c) redis \<Rightarrow> 'a result \<Rightarrow> lists \<Rightarrow> bool" where
  "arrives E view out r A \<longleftrightarrow> fst out = r \<and> instance_ok E view (snd out)
     \<and> represents (contents_of view (snd out)) A"

lemma ends_arrives:
  assumes "represents (contents_of view st) A"
    and "ends E view key st out r (\<lambda>V. is_list V key 0 ys)"
  shows "arrives E view out (Inr r) (A(key := ys))"
  using assms frame_is_list [of key "contents_of view st"]
  by (auto simp: arrives_def ends_def represents_def)

lemma stays_arrives:
  assumes "represents (contents_of view st) A" and "instance_ok E view st" and "out = (r, st)"
  shows "arrives E view out r A"
  using assms by (simp add: arrives_def)

lemma represents_cases:
  assumes "represents V A"
  obtains (missing) "A key = []" and "absent now V key"
    | (present) v l res ct where "A key \<noteq> []" and "list_at V key v l res ct 0 (A key)"
  using assms is_list_absent [of V key 0 now] unfolding represents_def
  by (metis is_listE)

lemma represents_length: "represents V A \<Longrightarrow> length (A key) < 2 ^ 63"
  using is_list_length [of V key 0 "A key"] by (simp add: represents_def)

lemma push_arrives:
  assumes ok: "instance_ok E view st" and R: "represents (contents_of view st) A"
    and len: "length (A key) + length vs < 2 ^ 63" and create: "create \<or> A key \<noteq> [] \<or> vs = []"
  shows "arrives E view (push_core E clk key vs position create st) (Inr (Some (int (length (A key) + length vs))))
    (A(key := if position then rev vs @ A key else A key @ vs))"
proof (cases "vs = []")
  case True
  from R have "push_core E clk key vs position create st = (Inr (Some (int (length (A key)))), st)"
  proof (cases rule: represents_cases [where key = key and now = "clk 0"])
    case missing
    then show ?thesis using push_core_nil(2) [OF ok] True by simp
  next
    case (present v l res ct)
    then show ?thesis using push_core_nil(1) [OF ok present(2)] True by simp
  qed
  then show ?thesis using ok R True by (simp add: arrives_def)
next
  case vs: False
  from R show ?thesis
  proof (cases rule: represents_cases [where key = key and now = "clk 0"])
    case missing
    have "ends E view key st (push_core E clk key vs position create st) (Some (int (length vs)))
        (\<lambda>V. is_list V key 0 (if position then rev vs else vs))"
    proof (cases position)
      case True
      with ends_mono [OF lpush_absent [where clk = clk, OF ok missing(2) vs]] missing(1) create vs len is_list_at show ?thesis
        by fastforce
    next
      case False
      with ends_mono [OF rpush_absent [where clk = clk, OF ok missing(2) vs]] missing(1) create vs len is_list_at show ?thesis
        by fastforce
    qed
    from ends_arrives [OF R this] missing(1) show ?thesis by (cases position) simp_all
  next
    case (present v l res ct)
    have "ends E view key st (push_core E clk key vs position create st)
        (Some (int (length (A key) + length vs)))
        (\<lambda>V. is_list V key 0 (if position then rev vs @ A key else A key @ vs))"
    proof (cases position)
      case True
      with ends_mono [OF lpush_present [where clk = clk, OF ok present(2) not_expired_0 vs len]] is_list_at show ?thesis
        by fastforce
    next
      case False
      with ends_mono [OF rpush_present [where clk = clk, OF ok present(2) not_expired_0 vs len]] is_list_at show ?thesis
        by fastforce
    qed
    from ends_arrives [OF R this] show ?thesis .
  qed
qed

text \<open>The remaining commands: on a missing key they return at once, otherwise they end as shown above.\<close>

lemma key_arrives:
  assumes R: "represents (contents_of view st) A" and ok: "instance_ok E view st"
    and missing: "A key = [] \<Longrightarrow> absent now (contents_of view st) key \<Longrightarrow> out = (r, st) \<and> ys = []"
    and present: "\<And>v l res ct. A key \<noteq> [] \<Longrightarrow> list_at (contents_of view st) key v l res ct 0 (A key) \<Longrightarrow>
      (\<exists>r'. r = Inr r' \<and> ends E view key st out r' (\<lambda>V. is_list V key 0 ys))
      \<or> out = (r, st) \<and> ys = A key"
  shows "arrives E view out r (A(key := ys))"
proof (cases rule: represents_cases [where key = key and now = now, OF R])
  case 1
  then show ?thesis using stays_arrives [OF R ok] missing by (metis fun_upd_triv)
next
  case (2 v l res ct)
  from present [OF this] show ?thesis using stays_arrives [OF R ok] ends_arrives [OF R]
    by (metis fun_upd_triv)
qed

lemma pops_arrive:
  assumes ok: "instance_ok E view st" and R: "represents (contents_of view st) A"
  shows "arrives E view (lpop E clk key c st)
      (Inr (if take (pop_size c) (A key) = [] then None else Some (take (pop_size c) (A key))))
      (A(key := drop (pop_size c) (A key)))"
    and "arrives E view (rpop_internal E clk key c st)
      (Inr (if A key = [] then None else Some (take (pop_size c) (rev (A key)))))
      (A(key := take (length (A key) - pop_size c) (A key)))"
proof -
  show "arrives E view (lpop E clk key c st)
      (Inr (if take (pop_size c) (A key) = [] then None else Some (take (pop_size c) (A key))))
      (A(key := drop (pop_size c) (A key)))"
  proof (rule key_arrives [where now = "clk 0", OF R ok])
    fix v l res ct
    assume "list_at (contents_of view st) key v l res ct 0 (A key)"
    from lpop_present [where clk = clk, OF ok this not_expired_0 refl, of c]
    show "(\<exists>r'. Inr (if take (pop_size c) (A key) = [] then None else Some (take (pop_size c) (A key))) = Inr r'
          \<and> ends E view key st (lpop E clk key c st) r' (\<lambda>V. is_list V key 0 (drop (pop_size c) (A key))))
        \<or> lpop E clk key c st = (Inr (if take (pop_size c) (A key) = [] then None
            else Some (take (pop_size c) (A key))), st) \<and> drop (pop_size c) (A key) = A key"
      by (auto simp: pop_size_def min_def split: if_splits option.splits)
  qed (use absent_results(2) [OF ok] in simp)
  show "arrives E view (rpop_internal E clk key c st)
      (Inr (if A key = [] then None else Some (take (pop_size c) (rev (A key)))))
      (A(key := take (length (A key) - pop_size c) (A key)))"
  proof (rule key_arrives [where now = "clk 0", OF R ok])
    fix v l res ct
    assume "A key \<noteq> []" and "list_at (contents_of view st) key v l res ct 0 (A key)"
    from rpop_internal_present [where clk = clk, OF ok this(2) not_expired_0 refl, of c] this(1)
    show "(\<exists>r'. Inr (if A key = [] then None else Some (take (pop_size c) (rev (A key)))) = Inr r'
          \<and> ends E view key st (rpop_internal E clk key c st) r'
              (\<lambda>V. is_list V key 0 (take (length (A key) - pop_size c) (A key))))
        \<or> rpop_internal E clk key c st = (Inr (if A key = [] then None
            else Some (take (pop_size c) (rev (A key)))), st)
          \<and> take (length (A key) - pop_size c) (A key) = A key"
      by (auto simp: pop_size_def min_def split: if_splits option.splits)
  qed (use absent_results(3) [OF ok] in simp)
qed

lemma updates_arrive:
  assumes ok: "instance_ok E view st" and R: "represents (contents_of view st) A"
  shows "in_i64 a \<Longrightarrow> in_i64 b \<Longrightarrow>
      arrives E view (ltrim E clk key a b st) (Inr ()) (A(key := range_of (A key) a b))"
    and "in_i64 c \<Longrightarrow> c \<noteq> - (2 ^ 63) \<Longrightarrow> arrives E view (lrem E clk key c x st)
      (Inr (int (length (A key)) - int (length (removed c x (A key))))) (A(key := removed c x (A key)))"
proof -
  assume i: "in_i64 a" "in_i64 b"
  show "arrives E view (ltrim E clk key a b st) (Inr ()) (A(key := range_of (A key) a b))"
  proof (rule key_arrives [where now = "clk 0", OF R ok])
    assume "A key = []" and A: "absent (clk 0) (contents_of view st) key"
    then show "ltrim E clk key a b st = (Inr (), st) \<and> range_of (A key) a b = []"
      using absent_results(8) [where clk = clk, OF ok A] by (simp add: range_of_def)
  qed (use ltrim_present [where clk = clk, OF ok _ not_expired_0 i] in blast)
next
  assume c: "in_i64 c" "c \<noteq> - (2 ^ 63)"
  show "arrives E view (lrem E clk key c x st)
      (Inr (int (length (A key)) - int (length (removed c x (A key))))) (A(key := removed c x (A key)))"
  proof (rule key_arrives [where now = "clk 0", OF R ok])
    assume "A key = []" and A: "absent (clk 0) (contents_of view st) key"
    then show "lrem E clk key c x st
        = (Inr (int (length (A key)) - int (length (removed c x (A key)))), st) \<and> removed c x (A key) = []"
      using absent_results(9) [where clk = clk, OF ok A] by (simp add: removed_def)
  qed (use lrem_present [where clk = clk, OF ok _ not_expired_0 c] in blast)
qed

lemma lset_arrives:
  assumes ok: "instance_ok E view st" and R: "represents (contents_of view st) A" and i: "in_i64 i"
  shows "let j = norm_index (A key) i in arrives E view (lset E clk key i x st)
      (if A key = [] then Inl (KeyNotFound (from_utf8_lossy key))
       else if 0 \<le> j \<and> j < int (length (A key)) then Inr () else Inl (InvalidFormat ''index out of range''))
      (A(key := (if 0 \<le> j \<and> j < int (length (A key)) then (A key)[nat j := x] else A key)))"
  unfolding Let_def
proof (rule key_arrives [where now = "clk 0", OF R ok])
  fix v l res ct
  assume A: "A key \<noteq> []" and L: "list_at (contents_of view st) key v l res ct 0 (A key)"
  let ?j = "norm_index (A key) i"
  show "(\<exists>r'. (if A key = [] then Inl (KeyNotFound (from_utf8_lossy key))
       else if 0 \<le> ?j \<and> ?j < int (length (A key)) then Inr () else Inl (InvalidFormat ''index out of range'')) = Inr r'
       \<and> ends E view key st (lset E clk key i x st) r' (\<lambda>V. is_list V key 0
           (if 0 \<le> ?j \<and> ?j < int (length (A key)) then (A key)[nat ?j := x] else A key)))
     \<or> lset E clk key i x st = ((if A key = [] then Inl (KeyNotFound (from_utf8_lossy key))
       else if 0 \<le> ?j \<and> ?j < int (length (A key)) then Inr () else Inl (InvalidFormat ''index out of range'')), st)
       \<and> (if 0 \<le> ?j \<and> ?j < int (length (A key)) then (A key)[nat ?j := x] else A key) = A key"
  proof (cases "0 \<le> ?j \<and> ?j < int (length (A key))")
    case True
    then have "?j = int (nat ?j)" "nat ?j < length (A key)" by (simp_all add: nat_less_iff)
    from lset_present [where clk = clk, OF ok L not_expired_0 i this] show ?thesis using A True by simp
  next
    case False
    then show ?thesis using lset_out_of_range [where clk = clk, OF ok L not_expired_0 i] A by auto
  qed
qed (use absent_results(7) [OF ok] in simp)

lemma linsert_arrives:
  assumes ok: "instance_ok E view st" and R: "represents (contents_of view st) A"
    and len: "Suc (length (A key)) < 2 ^ 63"
  shows "arrives E view (linsert E clk key w p x st)
      (if A key = [] then Inl (KeyNotFound (from_utf8_lossy key))
       else case last_pos p (A key) of None \<Rightarrow> Inr (- 1) | Some i \<Rightarrow> Inr (int (Suc (length (A key)))))
      (A(key := (case last_pos p (A key) of None \<Rightarrow> A key
         | Some i \<Rightarrow> insert_at (case w of Before \<Rightarrow> i | After \<Rightarrow> i + 1) x (A key))))"
proof (rule key_arrives [where now = "clk 0", OF R ok])
  fix v l res ct
  assume A: "A key \<noteq> []" and L: "list_at (contents_of view st) key v l res ct 0 (A key)"
  let ?r = "if A key = [] then Inl (KeyNotFound (from_utf8_lossy key))
       else case last_pos p (A key) of None \<Rightarrow> Inr (- 1) | Some i \<Rightarrow> Inr (int (Suc (length (A key))))"
  let ?ys = "case last_pos p (A key) of None \<Rightarrow> A key
         | Some i \<Rightarrow> insert_at (case w of Before \<Rightarrow> i | After \<Rightarrow> i + 1) x (A key)"
  show "(\<exists>r'. ?r = Inr r' \<and> ends E view key st (linsert E clk key w p x st) r' (\<lambda>V. is_list V key 0 ?ys))
      \<or> linsert E clk key w p x st = (?r, st) \<and> ?ys = A key"
  proof (cases "last_pos p (A key)")
    case None
    then have "linsert E clk key w p x st = (Inr (- 1), st)"
      using linsert_no_pivot [where clk = clk, OF ok L not_expired_0] by (simp add: last_pos_None)
    with None A show ?thesis by simp
  next
    case (Some i)
    from linsert_present [where clk = clk, OF ok L not_expired_0 Some len] show ?thesis
      using A Some by simp
  qed
qed (use absent_results(10) [OF ok] in simp)

end
