(* ===== verification/Lists_Simulation.thy ===== *)
theory Lists_Simulation
  imports Lists_Commands
begin

text \<open>
  The simulation between the model's list commands and the abstract machine of lists, for single
  commands and for sequences, and the properties of single commands that follow from the lemmas of
  \<open>Lists_Commands\<close>: the ranges, the insertion point, and the element lost by \<open>rpoplpush\<close>.
\<close>

lemma wrapped_arrives:
  assumes "arrives E view (m st) (Inr x) A" and "\<And>s. f x s = (r, s)"
  shows "arrives E view (obind m f st) r A"
  using assms by (cases "m st") (auto simp: arrives_def obind_def)

lemma rpop_arrives:
  assumes ok: "instance_ok E view st" and R: "represents (contents_of view st) A"
  shows "arrives E view (rpop E clk key c st)
      (Inr (if take (pop_size c) (rev (A key)) = [] then None else Some (take (pop_size c) (rev (A key)))))
      (A(key := take (length (A key) - pop_size c) (A key)))"
  unfolding rpop_def
  by (rule wrapped_arrives [where m = "rpop_internal E clk key c", OF pops_arrive(2) [OF ok R]]) (simp add: oreturn_apply)

lemma rpoplpush_arrives:
  assumes ok: "instance_ok E view st" and R: "represents (contents_of view st) A"
    and len: "Suc (length (A d)) < 2 ^ 63"
  shows "arrives E view (rpoplpush E clk clk' s d st)
      (Inr (if A s = [] then None else Some (last (A s))))
      (if A s = [] then A else let B = A(s := butlast (A s)) in B(d := last (A s) # B d))"
proof (cases "A s = []")
  case True
  then have pop: "arrives E view (rpop_internal E clk s None st) (Inr None) A"
    using pops_arrive(2) [OF ok R, of clk s None] by (simp add: fun_upd_idem)
  have "arrives E view (rpoplpush E clk clk' s d st) (Inr None) A"
    unfolding rpoplpush_def by (rule wrapped_arrives [where m = "rpop_internal E clk s None", OF pop]) (simp add: oreturn_apply)
  with True show ?thesis by simp
next
  case False
  let ?B = "A(s := butlast (A s))"
  have "take (pop_size None) (rev (A s)) = [last (A s)]"
    using False by (cases "A s" rule: rev_cases) (simp_all add: pop_size_def)
  moreover have "take (length (A s) - pop_size None) (A s) = butlast (A s)"
    by (simp add: pop_size_def butlast_conv_take)
  ultimately have pop: "arrives E view (rpop_internal E clk s None st) (Inr (Some [last (A s)])) ?B"
    using pops_arrive(2) [OF ok R, of clk s None] False by simp
  have "length (?B d) + length [last (A s)] < 2 ^ 63"
    using len False by (cases "d = s") simp_all
  then have push: "arrives E view (push_core E clk' d [last (A s)] True True st1)
      (Inr (Some (int (length (?B d) + 1)))) (?B(d := last (A s) # ?B d))"
    if "instance_ok E view st1" "represents (contents_of view st1) ?B" for st1
    using push_arrives [OF that, of d "[last (A s)]" True clk' True] by simp
  obtain st1 where st1: "instance_ok E view st1" "represents (contents_of view st1) ?B"
      "rpop_internal E clk s None st = (Inr (Some [last (A s)]), st1)"
    using pop by (cases "rpop_internal E clk s None st") (auto simp: arrives_def)
  have eq: "rpoplpush E clk clk' s d st = obind (push_core E clk' d [last (A s)] True True) (\<lambda>p.
         case p of Some _ \<Rightarrow> oreturn (Some (last (A s)))
         | None \<Rightarrow> olift (Inl (OptionNone ''Destination list creation should always succeed''))) st1"
    unfolding rpoplpush_def obind_Inr [of "rpop_internal E clk s None", OF st1(3)] by (simp only: option.case list.case)
  have "arrives E view (rpoplpush E clk clk' s d st) (Inr (Some (last (A s)))) (?B(d := last (A s) # ?B d))"
    unfolding eq by (rule wrapped_arrives [where m = "push_core E clk' d [last (A s)] True True", OF push [OF st1(1,2)]]) (simp add: oreturn_apply)
  then show ?thesis using False by (simp add: Let_def)
qed

text \<open>A command under its reply.\<close>

lemma reply_of_arrives:
  assumes "arrives E view out r A"
  shows "\<exists>st'. reply_of f out = (case r of Inr x \<Rightarrow> f x | Inl e \<Rightarrow> ErrR e, st') \<and> instance_ok E view st'
    \<and> represents (contents_of view st') A"
  using assms by (cases out; cases r) (auto simp: reply_of_def arrives_def)

lemma reads_arrive:
  assumes ok: "instance_ok E view st" and R: "represents (contents_of view st) A"
  shows "llen E clk key st = Inr (int (length (A key)))"
    and "in_i64 i \<Longrightarrow> lindex E clk key i st
      = Inr (if 0 \<le> norm_index (A key) i \<and> norm_index (A key) i < int (length (A key))
             then Some (A key ! nat (norm_index (A key) i)) else None)"
    and "in_i64 a \<Longrightarrow> in_i64 b \<Longrightarrow> lrange E clk key a b st = Inr (range_of (A key) a b)"
proof -
  note cases = represents_cases [where key = key and now = "clk 0", OF R]
  note missing = absent_results(4-6) [where clk = clk and key = key, OF ok]
  show "llen E clk key st = Inr (int (length (A key)))"
    by (rule cases) (simp_all add: missing llen_ends [OF ok _ not_expired_0])
  show "lindex E clk key i st
      = Inr (if 0 \<le> norm_index (A key) i \<and> norm_index (A key) i < int (length (A key))
             then Some (A key ! nat (norm_index (A key) i)) else None)" if "in_i64 i"
    by (rule cases) (simp_all add: missing lindex_present [OF ok _ not_expired_0 that])
  show "lrange E clk key a b st = Inr (range_of (A key) a b)" if "in_i64 a" "in_i64 b"
    by (rule cases) (simp_all add: missing range_of_def lrange_present [OF ok _ not_expired_0 that])
qed

lemma pushes_arrive:
  assumes ok: "instance_ok E view st" and R: "represents (contents_of view st) A"
    and len: "length (A key) + length vs < 2 ^ 63"
  shows "arrives E view (lpush E clk key vs st) (Inr (int (length (A key) + length vs))) (A(key := rev vs @ A key))"
    and "arrives E view (rpush E clk key vs st) (Inr (int (length (A key) + length vs))) (A(key := A key @ vs))"
proof -
  have p: "arrives E view (push_core E clk key vs True True st) (Inr (Some (int (length (A key) + length vs))))
      (A(key := rev vs @ A key))"
    using push_arrives [OF ok R len, of True clk True] by simp
  show "arrives E view (lpush E clk key vs st) (Inr (int (length (A key) + length vs))) (A(key := rev vs @ A key))"
    unfolding lpush_def by (rule wrapped_arrives [where m = "push_core E clk key vs True True", OF p])
      (simp only: option.case olift_apply)
  have p: "arrives E view (push_core E clk key vs False True st) (Inr (Some (int (length (A key) + length vs))))
      (A(key := A key @ vs))"
    using push_arrives [OF ok R len, of True clk False] by simp
  show "arrives E view (rpush E clk key vs st) (Inr (int (length (A key) + length vs))) (A(key := A key @ vs))"
    unfolding rpush_def by (rule wrapped_arrives [where m = "push_core E clk key vs False True", OF p])
      (simp only: option.case olift_apply)
qed

lemma pushx_core_arrives:
  assumes ok: "instance_ok E view st" and R: "represents (contents_of view st) A"
    and len: "length (A key) + length vs < 2 ^ 63"
  shows "\<exists>r. arrives E view (push_core E clk key vs position False st) (Inr r)
      (if A key = [] then A else A(key := if position then rev vs @ A key else A key @ vs))
    \<and> (case r of Some n \<Rightarrow> n | None \<Rightarrow> 0) = (if A key = [] then 0 else int (length (A key) + length vs))"
proof (cases "A key = [] \<and> vs \<noteq> []")
  case True
  then have "is_list (contents_of view st) key 0 []" using R by (metis represents_def)
  from absent_results(1) [where clk = clk, OF ok is_list_absent [OF this]] True
  have "push_core E clk key vs position False st = (Inr None, st)" by simp
  then show ?thesis using True ok R by (intro exI [of _ None]) (simp add: arrives_def)
next
  case False
  then have "arrives E view (push_core E clk key vs position False st)
      (Inr (Some (int (length (A key) + length vs))))
      (A(key := if position then rev vs @ A key else A key @ vs))"
    by (intro push_arrives [OF ok R len]) blast
  moreover have "A(key := if position then rev vs @ A key else A key @ vs)
      = (if A key = [] then A else A(key := if position then rev vs @ A key else A key @ vs))"
    using False by (cases "A key = []") (simp_all add: fun_upd_idem)
  ultimately show ?thesis
    using False by (intro exI [of _ "Some (int (length (A key) + length vs))"]) simp
qed

lemma pushx_arrive:
  assumes ok: "instance_ok E view st" and R: "represents (contents_of view st) A"
    and len: "length (A key) + length vs < 2 ^ 63"
  shows "arrives E view (lpushx E clk key vs st)
      (Inr (if A key = [] then 0 else int (length (A key) + length vs)))
      (if A key = [] then A else A(key := rev vs @ A key))"
    and "arrives E view (rpushx E clk key vs st)
      (Inr (if A key = [] then 0 else int (length (A key) + length vs)))
      (if A key = [] then A else A(key := A key @ vs))"
proof -
  obtain r where r: "arrives E view (push_core E clk key vs True False st) (Inr r)
      (if A key = [] then A else A(key := rev vs @ A key))"
      "(case r of Some n \<Rightarrow> n | None \<Rightarrow> 0) = (if A key = [] then 0 else int (length (A key) + length vs))"
    using pushx_core_arrives [OF ok R len, of clk True, unfolded if_True] by blast
  show "arrives E view (lpushx E clk key vs st)
      (Inr (if A key = [] then 0 else int (length (A key) + length vs)))
      (if A key = [] then A else A(key := rev vs @ A key))"
    unfolding lpushx_def by (rule wrapped_arrives [where m = "push_core E clk key vs True False", OF r(1)])
      (simp only: r(2) oreturn_apply)
  obtain r where r: "arrives E view (push_core E clk key vs False False st) (Inr r)
      (if A key = [] then A else A(key := A key @ vs))"
      "(case r of Some n \<Rightarrow> n | None \<Rightarrow> 0) = (if A key = [] then 0 else int (length (A key) + length vs))"
    using pushx_core_arrives [OF ok R len, of clk False, unfolded if_False] by blast
  show "arrives E view (rpushx E clk key vs st)
      (Inr (if A key = [] then 0 else int (length (A key) + length vs)))
      (if A key = [] then A else A(key := A key @ vs))"
    unfolding rpushx_def by (rule wrapped_arrives [where m = "push_core E clk key vs False False", OF r(1)])
      (simp only: r(2) oreturn_apply)
qed

lemma reply_arrives_eq:
  assumes "arrives E view out r A" and "run_cmd E clk clk' c st = reply_of f out"
    and "spec_cmd c B = (case r of Inr x \<Rightarrow> f x | Inl e \<Rightarrow> ErrR e, A)"
  shows "\<exists>st'. run_cmd E clk clk' c st = (fst (spec_cmd c B), st') \<and> instance_ok E view st'
    \<and> represents (contents_of view st') (snd (spec_cmd c B))"
  using reply_of_arrives [OF assms(1), of f] assms(2,3) by simp

lemma run_cmd_simulates:
  assumes ok: "instance_ok E view st" and R: "represents (contents_of view st) A" and c: "cmd_ok c A"
  shows "\<exists>st'. run_cmd E clk clk' c st = (fst (spec_cmd c A), st') \<and> instance_ok E view st'
    \<and> represents (contents_of view st') (snd (spec_cmd c A))"
proof (cases c)
  case (LPush k vs)
  with c show ?thesis by (intro reply_arrives_eq [OF pushes_arrive(1) [OF ok R, of k vs clk]]) simp_all
next
  case (RPush k vs)
  with c show ?thesis by (intro reply_arrives_eq [OF pushes_arrive(2) [OF ok R, of k vs clk]]) simp_all
next
  case (LPushX k vs)
  with c show ?thesis by (cases "A k = []"; intro reply_arrives_eq [OF pushx_arrive(1) [OF ok R, of k vs clk]]) simp_all
next
  case (RPushX k vs)
  with c show ?thesis by (cases "A k = []"; intro reply_arrives_eq [OF pushx_arrive(2) [OF ok R, of k vs clk]]) simp_all
next
  case (LPop k c)
  then show ?thesis by (intro reply_arrives_eq [OF pops_arrive(1) [OF ok R, of clk k c]]) (simp_all add: popped_def)
next
  case (RPop k c)
  then show ?thesis by (intro reply_arrives_eq [OF rpop_arrives [OF ok R, of clk k c]]) (simp_all add: popped_def)
next
  case (LLen k)
  then show ?thesis using ok R reads_arrive(1) [OF ok R] by (simp add: reply_of_def)
next
  case (LIndex k i)
  then show ?thesis using ok R c reads_arrive(2) [OF ok R] by (simp add: reply_of_def)
next
  case (LRange k a b)
  then show ?thesis using ok R c reads_arrive(3) [OF ok R] by (simp add: reply_of_def)
next
  case (LTrim k a b)
  with c show ?thesis by (intro reply_arrives_eq [OF updates_arrive(1) [OF ok R, of a b clk k]]) simp_all
next
  case (LRem k i x)
  with c show ?thesis by (intro reply_arrives_eq [OF updates_arrive(2) [OF ok R, of i clk k x]]) simp_all
next
  case (LSet k i x)
  with c show ?thesis
    by (intro reply_arrives_eq [OF lset_arrives [OF ok R, unfolded Let_def, where key = k and clk = clk and i = i and x = x]])
      (auto simp: fun_upd_idem)
next
  case (LInsert k w p x)
  with c show ?thesis
    by (intro reply_arrives_eq [OF linsert_arrives [OF ok R, of k clk w p x]])
      (auto simp: fun_upd_idem split: option.split)
next
  case (RPopLPush s d)
  with c show ?thesis
    by (intro reply_arrives_eq [OF rpoplpush_arrives [OF ok R, of d clk clk' s]]) (auto simp: Let_def)
qed

text \<open>Sequences of commands, each with its clock readings.\<close>

fun run_cmds ::
  "('db, 'c) env \<Rightarrow> ((nat \<Rightarrow> u64) \<times> (nat \<Rightarrow> u64) \<times> list_cmd) list \<Rightarrow> ('db, 'c) redis
     \<Rightarrow> list_reply list \<times> ('db, 'c) redis" where
  "run_cmds E [] st = ([], st)"
| "run_cmds E ((clk, clk', c) # cs) st =
     (let (r, st) = run_cmd E clk clk' c st; (rs, st) = run_cmds E cs st in (r # rs, st))"

fun spec_cmds :: "list_cmd list \<Rightarrow> lists \<Rightarrow> list_reply list \<times> lists" where
  "spec_cmds [] A = ([], A)"
| "spec_cmds (c # cs) A =
     (let (r, A) = spec_cmd c A; (rs, A) = spec_cmds cs A in (r # rs, A))"

fun cmds_ok :: "list_cmd list \<Rightarrow> lists \<Rightarrow> bool" where
  "cmds_ok [] A \<longleftrightarrow> True"
| "cmds_ok (c # cs) A \<longleftrightarrow> cmd_ok c A \<and> cmds_ok cs (snd (spec_cmd c A))"

text \<open>C1: the list commands refine the abstract machine of lists. From an instance whose contents
  represent a list per key, any sequence of list commands, on any keys and with any clock readings,
  returns the replies of the abstract machine and ends in an instance that represents its lists; in
  particular every command returns.\<close>

theorem list_commands_refine_lists:
  "instance_ok E view st \<Longrightarrow> represents (contents_of view st) A \<Longrightarrow>
    cmds_ok (map (snd \<circ> snd) cs) A \<Longrightarrow>
    \<exists>st'. run_cmds E cs st = (fst (spec_cmds (map (snd \<circ> snd) cs) A), st') \<and> instance_ok E view st'
      \<and> represents (contents_of view st') (snd (spec_cmds (map (snd \<circ> snd) cs) A))"
proof (induction cs arbitrary: st A)
  case (Cons e cs)
  obtain clk clk' c where e: "e = (clk, clk', c)" by (cases e)
  obtain st1 where st1: "run_cmd E clk clk' c st = (fst (spec_cmd c A), st1)" "instance_ok E view st1"
      "represents (contents_of view st1) (snd (spec_cmd c A))"
    using run_cmd_simulates [OF Cons.prems(1,2)] Cons.prems(3) e by force
  from Cons.IH [OF st1(2,3)] Cons.prems(3) st1(1) show ?case
    by (auto simp: e split: prod.splits)
qed simp

lemma represents_empty: "represents (\<lambda>_ _. None) (\<lambda>_. [])"
  by (simp add: represents_def is_list_def)

theorem list_commands_refine_lists_witness:
  "\<exists>st'. run_cmds map_env
      [(\<lambda>_. 7, \<lambda>_. 7, RPush [107] [[1], [2]]), (\<lambda>_. 8, \<lambda>_. 8, LPush [107] [[3]]),
       (\<lambda>_. 9, \<lambda>_. 9, RPopLPush [107] [108]), (\<lambda>_. 9, \<lambda>_. 9, LRange [107] 0 (- 1))]
      (map_redis (\<lambda>_ _. None))
    = ([IntR 2, IntR 3, BulkR (Some [2]), ArrayR (Some [[3], [1]])], st')"
proof -
  let ?cs = "[(\<lambda>_. 7, \<lambda>_. 7, RPush [107] [[1], [2]]), (\<lambda>_. 8, \<lambda>_. 8, LPush [107] [[3]]),
       (\<lambda>_. 9, \<lambda>_. 9, RPopLPush [107] [108]), (\<lambda>_. 9, \<lambda>_. 9, LRange [107] 0 (- 1))]
      :: ((nat \<Rightarrow> u64) \<times> (nat \<Rightarrow> u64) \<times> list_cmd) list"
  have "represents (contents_of (\<lambda>V. V) (map_redis (\<lambda>_ _. None))) (\<lambda>_. [])"
    by (simp add: represents_empty)
  moreover have "cmds_ok (map (snd \<circ> snd) ?cs) (\<lambda>_. [])"
    by (simp add: in_i64_def)
  moreover have "fst (spec_cmds (map (snd \<circ> snd) ?cs) (\<lambda>_. []))
      = [IntR 2, IntR 3, BulkR (Some [2]), ArrayR (Some [[3], [1]])]"
    by (simp add: Let_def range_of_def norm_start_def norm_stop_def)
  ultimately show ?thesis
    using list_commands_refine_lists [OF instance_ok_map, of "\<lambda>_ _. None" "\<lambda>_. []" ?cs] by auto
qed

text \<open>C23: when the destination of \<open>rpoplpush\<close> holds a value of another type, the command fails
  with the error of the type check, but the source has already lost its last element: the pop was
  committed before the push was tried.\<close>

theorem rpoplpush_wrong_type_loses_element:
  assumes "instance_ok E view st" and "list_at (contents_of view st) s v l res ct et (xs @ [x])"
    and "\<not> expired (clk 0) et" and "s \<noteq> d"
    and "meta_at (contents_of view st) d = Some b" and "check_type_state (clk' 0) b TList = Inl e"
  shows "\<exists>st'. rpoplpush E clk clk' s d st = (Inl e, st') \<and> is_list (contents_of view st') s et xs
    \<and> meta_at (contents_of view st') d = Some b"
proof -
  have "ends E view s st (rpop_internal E clk s None st) (Some [x]) (\<lambda>V. is_list V s et xs)"
    using rpop_internal_present [where clk = clk and count = None, OF assms(1-3) refl] by simp
  then obtain st1 where st1: "rpop_internal E clk s None st = (Inr (Some [x]), st1)" "instance_ok E view st1"
      "frame s (contents_of view st) (contents_of view st1)" "is_list (contents_of view st1) s et xs"
    by (auto simp: ends_def)
  have b: "meta_at (contents_of view st1) d = Some b"
    using frame_meta [OF st1(3)] assms(4,5) by simp
  have "rpoplpush E clk clk' s d st = (Inl e, st1)"
    unfolding rpoplpush_def obind_Inr [of "rpop_internal E clk s None", OF st1(1)]
    by (simp add: obind_Inl [of "push_core E clk' d [x] True True", OF wrong_type_results(1) [where clk = clk', OF st1(2) b assms(6)]])
  with st1(4) b show ?thesis by blast
qed

theorem rpoplpush_wrong_type_loses_element_witness:
  "\<exists>V st'. is_list V [1] 0 [[8], [9]]
     \<and> rpoplpush map_env (\<lambda>_. 5) (\<lambda>_. 5) [1] [2] (map_redis V) = (Inl wrong_type_error, st')
     \<and> is_list (contents_of (\<lambda>V. V) st') [1] 0 [[8]]"
proof -
  let ?res = "replicate 16 0 :: bytes" and ?b = "base_meta_bytes TSet 1 1 (replicate 16 0) 0 0"
  let ?V = "\<lambda>cf k. if cf = cf_name MetaCF then
        (if k = base_key_bytes [1] then Some (list_meta_bytes TList 2 3 0 2 ?res 0 0)
         else if k = base_key_bytes [2] then Some ?b else None)
      else if k = lists_data_key_bytes [1] 3 1 then Some (element_bytes 0 [8])
      else if k = lists_data_key_bytes [1] 3 2 then Some (element_bytes 0 [9]) else None"
  have L: "list_at ?V [1] 3 0 ?res 0 0 ([[8]] @ [[9]])"
    by (auto simp: list_at_def stored_def idx_def less_Suc_eq)
  have b: "meta_at ?V [2] = Some ?b" by simp
  have e: "check_type_state 5 ?b TList = Inl wrong_type_error" by (simp add: check_type_state_base_meta)
  from rpoplpush_wrong_type_loses_element [where E = map_env and view = "\<lambda>V. V" and st = "map_redis ?V"
      and clk = "\<lambda>_. 5" and clk' = "\<lambda>_. 5" and s = "[1]" and d = "[2]",
      unfolded contents_of_map, OF instance_ok_map L not_expired_0 _ b e]
  show ?thesis using is_list_at [OF L] by (intro exI [of _ ?V]) auto
qed

lemma take_drop_nths: "take (b - a) (drop a xs) = nths xs {i. a \<le> i \<and> i < b}"
proof -
  have "{i. a \<le> i \<and> i < b} = (+) a ` {..<b - a}"
    by (auto simp: image_iff Bex_def) presburger
  then show ?thesis by (simp add: nths_upt_eq_take flip: nths_drop)
qed

lemma nths_cong: "(\<And>i. i < length xs \<Longrightarrow> i \<in> I \<longleftrightarrow> i \<in> J) \<Longrightarrow> nths xs I = nths xs J"
  unfolding nths_def by (intro arg_cong [where f = "map fst"] filter_cong refl) (auto simp: set_zip)

text \<open>A stored list, for the examples below.\<close>

definition three_list :: contents where
  "three_list = (\<lambda>cf k. if cf = cf_name MetaCF then
        (if k = base_key_bytes [1] then Some (list_meta_bytes TList 3 4 0 3 (replicate 16 0) 0 0) else None)
      else if k = lists_data_key_bytes [1] 4 1 then Some (element_bytes 0 [7])
      else if k = lists_data_key_bytes [1] 4 2 then Some (element_bytes 0 [8])
      else if k = lists_data_key_bytes [1] 4 3 then Some (element_bytes 0 [7]) else None)"

lemma three_list_at: "list_at three_list [1] 4 0 (replicate 16 0) 0 0 [[7], [8], [7]]"
  by (auto simp: three_list_def list_at_def stored_def idx_def less_Suc_eq)

text \<open>C22: \<open>lrange\<close> returns the elements between the two positions, counted from the end when
  negative, for every start position inside the list.\<close>

theorem lrange_returns_range:
  assumes "instance_ok E view st" and "list_at (contents_of view st) key v l res ct et xs"
    and "\<not> expired (clk 0) et" and "in_i64 start" and "in_i64 stop" and start: "start < int (length xs)"
  shows "lrange E clk key start stop st
    = Inr (nths xs {i. norm_index xs start \<le> int i \<and> int i \<le> norm_index xs stop})"
proof -
  have ne: "xs \<noteq> []" using assms(2) by (simp add: list_at_def)
  obtain a b where ab: "norm_start xs start = int a" "norm_stop xs stop = int b - 1"
      "range_of xs start stop = take (b - a) (drop a xs)"
    using norm_nat [OF ne] by metis
  have "range_of xs start stop = nths xs {i. norm_index xs start \<le> int i \<and> int i \<le> norm_index xs stop}"
    unfolding ab(3) take_drop_nths
  proof (rule nths_cong)
    fix i
    assume i: "i < length xs"
    have "a \<le> i \<longleftrightarrow> norm_start xs start \<le> int i" and "i < b \<longleftrightarrow> int i \<le> norm_stop xs stop"
      using ab(1,2) by linarith+
    then show "i \<in> {i. a \<le> i \<and> i < b}
        \<longleftrightarrow> i \<in> {i. norm_index xs start \<le> int i \<and> int i \<le> norm_index xs stop}"
      using i start by (auto simp: norm_start_def norm_stop_def norm_index_def)
  qed
  then show ?thesis using lrange_present [where clk = clk, OF assms(1-5)] by simp
qed

theorem lrange_returns_range_witness:
  "lrange map_env (\<lambda>_. 5) [1] (- 2) 9 (map_redis three_list) = Inr [[8], [7]]"
proof -
  have L: "list_at (contents_of (\<lambda>V. V) (map_redis three_list)) [1] 4 0 (replicate 16 0) 0 0 [[7], [8], [7]]"
    by (simp add: three_list_at)
  have "nths [[7 :: byte], [8], [7]] {i. (1 :: int) \<le> int i \<and> int i \<le> 9} = [[8], [7]]"
    by (simp add: nths_Cons)
  then show ?thesis
    using lrange_returns_range [where clk = "\<lambda>_. 5", OF instance_ok_map L not_expired_0, of "- 2" 9]
    by (simp add: in_i64_def norm_index_def)
qed

text \<open>C25: a start position behind the end is moved onto the last element before it is compared with
  the length. So for every such start and every stop, \<open>lrange\<close> returns the last element and \<open>ltrim\<close>
  keeps it when the stop reaches the last element, counted from the front or as \<open>-1\<close>, where an empty
  range was meant; only for a stop in front of the last element is the range empty and the list
  removed by \<open>ltrim\<close>.\<close>

theorem range_behind_end_is_last_element:
  assumes ok: "instance_ok E view st" and L: "list_at (contents_of view st) key v l res ct et (ys @ [y])"
    and live: "\<not> expired (clk 0) et" and i: "in_i64 start" "in_i64 stop"
    and behind: "int (length (ys @ [y])) \<le> start"
  shows "let rest = (if stop = - 1 \<or> int (length ys) \<le> stop then [y] else []) in
    lrange E clk key start stop st = Inr rest
    \<and> (\<exists>st'. ltrim E clk key start stop st = (Inr (), st') \<and> is_list (contents_of view st') key et rest)"
proof -
  have "norm_start (ys @ [y]) start = int (length ys)"
    using behind by (simp add: norm_start_def)
  moreover have "norm_stop (ys @ [y]) stop + 1 - int (length ys)
      = (if stop = - 1 \<or> int (length ys) \<le> stop then 1 else norm_stop (ys @ [y]) stop + 1 - int (length ys))"
    and "\<not> (stop = - 1 \<or> int (length ys) \<le> stop) \<Longrightarrow> norm_stop (ys @ [y]) stop + 1 - int (length ys) \<le> 0"
    by (auto simp: norm_stop_def)
  ultimately have "range_of (ys @ [y]) start stop = (if stop = - 1 \<or> int (length ys) \<le> stop then [y] else [])"
    by (auto simp: range_of_def)
  then show ?thesis
    using lrange_present [where clk = clk, OF ok L live i] ltrim_present [where clk = clk, OF ok L live i]
    by (auto simp: ends_def Let_def)
qed

theorem range_behind_end_is_last_element_witness:
  "lrange map_env (\<lambda>_. 5) [1] 5 (- 1) (map_redis three_list) = Inr [[7]]
   \<and> lrange map_env (\<lambda>_. 5) [1] 5 0 (map_redis three_list) = Inr []"
proof -
  have L: "list_at (contents_of (\<lambda>V. V) (map_redis three_list)) [1] 4 0 (replicate 16 0) 0 0 ([[7], [8]] @ [[7]])"
    by (simp add: three_list_at)
  show ?thesis
    using range_behind_end_is_last_element [where clk = "\<lambda>_. 5", OF instance_ok_map L not_expired_0, of 5 "- 1"]
      range_behind_end_is_last_element [where clk = "\<lambda>_. 5", OF instance_ok_map L not_expired_0, of 5 0]
    by (simp add: in_i64_def Let_def)
qed

text \<open>C24: \<open>linsert\<close> keeps looking after the first match, so that the new element goes next to the last
  occurrence of the pivot.\<close>

theorem linsert_inserts_at_last_pivot:
  assumes ok: "instance_ok E view st"
    and L: "list_at (contents_of view st) key v l res ct et (xs @ p # ys)" and p: "p \<notin> set ys"
    and live: "\<not> expired (clk 0) et" and len: "Suc (length (xs @ p # ys)) < 2 ^ 63"
  shows "\<exists>st'. linsert E clk key w p x st = (Inr (int (length xs + length ys + 2)), st')
    \<and> is_list (contents_of view st') key et
        (xs @ (case w of Before \<Rightarrow> [x, p] | After \<Rightarrow> [p, x]) @ ys)"
proof -
  have "last_pos p (zs @ p # ys) = Some (length zs)" for zs
    using p by (induction zs) (simp_all add: last_pos_None split: option.split)
  from linsert_present [where clk = clk and w = w and x = x, OF ok L live this len] show ?thesis
    by (cases w) (auto simp: ends_def insert_at_def)
qed

theorem linsert_inserts_at_last_pivot_witness:
  "\<exists>st'. linsert map_env (\<lambda>_. 5) [1] Before [7] [9] (map_redis three_list) = (Inr 4, st')
    \<and> is_list (contents_of (\<lambda>V. V) st') [1] 0 [[7], [8], [9], [7]]"
proof -
  have L: "list_at (contents_of (\<lambda>V. V) (map_redis three_list)) [1] 4 0 (replicate 16 0) 0 0 ([[7], [8]] @ [7] # [])"
    by (simp add: three_list_at)
  show ?thesis
    using linsert_inserts_at_last_pivot [where clk = "\<lambda>_. 5" and w = Before and x = "[9]",
        OF instance_ok_map L _ not_expired_0] by simp
qed

end
