(* ===== verification/Number_Text.thy ===== *)
theory Number_Text
  imports Kiwi_Prelude
begin

text \<open>
  Decimal text of integers: \<open>i64::to_string\<close> and \<open>str::parse::<i64>\<close> of the standard library, which
  the counters of strings and hashes and the protocol use.
\<close>

definition digit :: "nat \<Rightarrow> byte" where
  "digit n = word_of_nat (48 + n)"

definition digit_value :: "byte \<Rightarrow> nat option" where
  "digit_value b = (if 48 \<le> b \<and> b \<le> 57 then Some (unat b - 48) else None)"

fun nat_to_text :: "nat \<Rightarrow> bytes" where
  "nat_to_text n = (if n < 10 then [digit n] else nat_to_text (n div 10) @ [digit (n mod 10)])"

declare nat_to_text.simps [simp del]

definition int_to_text :: "int \<Rightarrow> bytes" where
  "int_to_text i = (if i < 0 then 45 # nat_to_text (nat (- i)) else nat_to_text (nat i))"

fun parse_digits :: "nat \<Rightarrow> bytes \<Rightarrow> nat option" where
  "parse_digits acc [] = Some acc"
| "parse_digits acc (b # bs) =
     (case digit_value b of None \<Rightarrow> None | Some d \<Rightarrow> parse_digits (10 * acc + d) bs)"

definition parse_nat :: "bytes \<Rightarrow> nat option" where
  "parse_nat bs = (if bs = [] then None else parse_digits 0 bs)"

text \<open>An optional sign, at least one digit, and a value in range.\<close>

definition parse_i64 :: "bytes \<Rightarrow> i64 option" where
  "parse_i64 bs =
     (let (negative, ds) = (case bs of
            b # rest \<Rightarrow> if b = 45 then (True, rest) else if b = 43 then (False, rest) else (False, bs)
          | [] \<Rightarrow> (False, [])) in
      case parse_nat ds of
        None \<Rightarrow> None
      | Some n \<Rightarrow>
          if negative then (if n \<le> 2 ^ 63 then Some (- int n) else None)
          else (if n < 2 ^ 63 then Some (int n) else None))"

section \<open>Round trip\<close>

lemma unat_digit: "n < 10 \<Longrightarrow> unat (digit n) = 48 + n"
  by (simp only: digit_def unat_of_nat) simp

lemma digit_value_digit [simp]: "n < 10 \<Longrightarrow> digit_value (digit n) = Some n"
  by (simp add: digit_value_def word_le_nat_alt unat_digit)

lemma digit_range: "n < 10 \<Longrightarrow> 48 \<le> digit n \<and> digit n \<le> 57"
  by (simp add: word_le_nat_alt unat_digit)

lemma parse_digits_append:
  "parse_digits acc (xs @ ys) = (case parse_digits acc xs of None \<Rightarrow> None | Some n \<Rightarrow> parse_digits n ys)"
  by (induction acc xs rule: parse_digits.induct) (auto split: option.split)

lemma parse_digits_text: "parse_digits 0 (nat_to_text n) = Some n"
proof (induction n rule: nat_to_text.induct)
  case (1 n)
  then show ?case by (subst nat_to_text.simps) (simp add: parse_digits_append)
qed

lemma nat_to_text_not_Nil [simp]: "nat_to_text n \<noteq> []"
  by (subst nat_to_text.simps) simp

lemma parse_nat_text [simp]: "parse_nat (nat_to_text n) = Some n"
  by (simp add: parse_nat_def parse_digits_text)

lemma set_nat_to_text: "b \<in> set (nat_to_text n) \<Longrightarrow> 48 \<le> b \<and> b \<le> 57"
proof (induction n rule: nat_to_text.induct)
  case (1 n)
  show ?case
  proof (cases "n < 10")
    case True
    with 1(2) show ?thesis using digit_range by (simp add: nat_to_text.simps [of n])
  next
    case False
    then have "b \<in> set (nat_to_text (n div 10)) \<or> b = digit (n mod 10)"
      using 1(2) by (auto simp: nat_to_text.simps [of n])
    then show ?thesis using 1(1) [OF False] digit_range [of "n mod 10"] by auto
  qed
qed

lemma hd_nat_to_text: "hd (nat_to_text n) \<noteq> 45 \<and> hd (nat_to_text n) \<noteq> 43"
  using set_nat_to_text [of "hd (nat_to_text n)" n] by auto

text \<open>Every \<open>i64\<close> is read back from its text.\<close>

lemma parse_int_to_text:
  assumes "- (2 ^ 63) \<le> i" and "i < 2 ^ 63"
  shows "parse_i64 (int_to_text i) = Some i"
proof (cases "i < 0")
  case True
  then show ?thesis using assms by (simp add: parse_i64_def int_to_text_def)
next
  case False
  obtain b bs where b: "nat_to_text (nat i) = b # bs" by (cases "nat_to_text (nat i)") simp_all
  with hd_nat_to_text [of "nat i"] have "b \<noteq> 45" "b \<noteq> 43" by simp_all
  then have "parse_i64 (b # bs) = (case parse_nat (b # bs) of None \<Rightarrow> None
      | Some n \<Rightarrow> if n < 2 ^ 63 then Some (int n) else None)"
    by (simp add: parse_i64_def split: option.split)
  then show ?thesis using False assms by (simp add: int_to_text_def parse_nat_text flip: b)
qed

lemma parse_i64_range: "parse_i64 bs = Some i \<Longrightarrow> - (2 ^ 63) \<le> i \<and> i < 2 ^ 63"
  by (auto simp: parse_i64_def Let_def split: list.splits if_splits option.splits prod.splits)

lemma length_nat_to_text: "n < 10 ^ Suc k \<Longrightarrow> length (nat_to_text n) \<le> Suc k"
proof (induction k arbitrary: n)
  case 0
  then show ?case by (simp add: nat_to_text.simps)
next
  case (Suc k)
  then have "n div 10 < 10 ^ Suc k" by (simp add: div_less_iff_less_mult)
  from Suc.IH [OF this] show ?case by (subst nat_to_text.simps) simp
qed

lemma length_int_to_text:
  assumes "- (2 ^ 63) \<le> i" and "i < 2 ^ 63"
  shows "length (int_to_text i) \<le> 20"
proof -
  have "nat \<bar>i\<bar> < 10 ^ Suc 18"
    using assms by (simp add: nat_less_iff)
  then have "length (nat_to_text (nat \<bar>i\<bar>)) \<le> 19"
    using length_nat_to_text [of "nat \<bar>i\<bar>" 18] by simp
  then show ?thesis by (auto simp: int_to_text_def)
qed

end
