(* ===== verification/Redis_Strings.thy ===== *)
theory Redis_Strings
  imports Redis_Core Number_Text
begin

text \<open>
  The string commands (\<^verbatim>\<open>src/storage/src/redis_strings.rs\<close>). A string is one value in the
  default column family under the user key. The argument \<open>clk\<close> gives the readings of the clock:
  0 is the staleness check, 1 the creation time a command starts from, 2 the one of the new value, 3
  the start of a relative expiry, and the commands on several keys take one reading per key from 4 on.
  The record locks are not part of the state. \<open>incr_decr_float\<close> is not modelled: it needs the decimal
  conversions of \<open>f64\<close>.
\<close>

unbundle bit_operations_syntax

section \<open>Shared blocks\<close>

definition redis_db :: "('db, 'c) redis \<Rightarrow> 'db result" where
  "redis_db st =
     (case rd_db st of None \<Rightarrow> Inl (OptionNone ''db is not initialized'') | Some db \<Rightarrow> Inr db)"

definition string_key :: "bytes \<Rightarrow> bytes result" where
  "string_key key = base_key_encode (base_key_new key)"

text \<open>\<open>get_opt(..)?.unwrap_or_else(Vec::new)\<close>.\<close>

definition get_encoded :: "('db, 'c) env \<Rightarrow> bytes \<Rightarrow> ('db, 'c) redis \<Rightarrow> bytes result" where
  "get_encoded E key st =
     rbind (redis_db st) (\<lambda>db.
     rbind (string_key key) (\<lambda>k.
     rbind (db_get E db k) (\<lambda>r. Inr (case r of Some v \<Rightarrow> v | None \<Rightarrow> []))))"

text \<open>The type check and the parse; \<open>None\<close> when the key is missing or stale.\<close>

definition parse_string :: "u64 \<Rightarrow> bytes \<Rightarrow> parsed_internal_value option result" where
  "parse_string now encode_value =
     rbind (check_type_state now encode_value TString) (\<lambda>s.
     case s of
       Match \<Rightarrow> rbind (parsed_strings_value_new encode_value) (\<lambda>p. Inr (Some p))
     | _ \<Rightarrow> Inr None)"

text \<open>The value, creation time and expiry a read-modify-write command starts from.\<close>

definition existing_string ::
  "('db, 'c) env \<Rightarrow> (nat \<Rightarrow> u64) \<Rightarrow> bytes \<Rightarrow> ('db, 'c) redis \<Rightarrow> (bytes option \<times> u64 \<times> u64) result" where
  "existing_string E clk key st =
     rbind (get_encoded E key st) (\<lambda>encode_value.
     if encode_value = [] then Inr (None, clk 1, 0) else
     rbind (parse_string (clk 0) encode_value) (\<lambda>p.
     case p of
       None \<Rightarrow> Inr (None, clk 1, 0)
     | Some p \<Rightarrow> rbind (pv_user_value p) (\<lambda>u. Inr (Some u, pv_ctime p, pv_etime p))))"

definition put_string ::
  "('db, 'c) env \<Rightarrow> bytes \<Rightarrow> internal_value \<Rightarrow> ('db, 'c) redis \<Rightarrow> unit result \<times> ('db, 'c) redis" where
  "put_string E key v =
     obind (olift (string_key key)) (\<lambda>k. write_ops E [BPut MetaCF k (string_value_encode v)])"

definition usize_as_i32 :: "nat \<Rightarrow> int" where
  "usize_as_i32 n = sint (word_of_nat n :: 32 word)"

abbreviation I32_MAX :: nat where "I32_MAX \<equiv> 2147483647"

definition vec_resize :: "bytes \<Rightarrow> nat \<Rightarrow> bytes" where
  "vec_resize xs n = take n xs @ replicate (n - length xs) 0"

section \<open>Reads\<close>

definition strlen :: "('db, 'c) env \<Rightarrow> (nat \<Rightarrow> u64) \<Rightarrow> bytes \<Rightarrow> ('db, 'c) redis \<Rightarrow> int result" where
  "strlen E clk key st =
     rbind (get_encoded E key st) (\<lambda>encode_value.
     rbind (parse_string (clk 0) encode_value) (\<lambda>p.
     case p of
       None \<Rightarrow> Inr 0
     | Some p \<Rightarrow> rbind (pv_user_value p) (\<lambda>u. Inr (usize_as_i32 (length u)))))"

definition getrange_normalize :: "int \<Rightarrow> i64 \<Rightarrow> int" where
  "getrange_normalize len index = (if index < 0 then max (len + index) 0 else index)"

definition getrange ::
  "('db, 'c) env \<Rightarrow> (nat \<Rightarrow> u64) \<Rightarrow> bytes \<Rightarrow> i64 \<Rightarrow> i64 \<Rightarrow> ('db, 'c) redis \<Rightarrow> bytes result" where
  "getrange E clk key start stop st =
     rbind (get_encoded E key st) (\<lambda>encode_value.
     rbind (parse_string (clk 0) encode_value) (\<lambda>p.
     case p of
       None \<Rightarrow> Inr []
     | Some p \<Rightarrow>
       rbind (pv_user_value p) (\<lambda>user_value.
       if length user_value = 0 then Inr [] else
       if start < 0 \<and> stop < 0 \<and> stop < start then Inr [] else
       let len = int (length user_value);
           start_idx = min (getrange_normalize len start) len;
           end_idx = min (getrange_normalize len stop) (len - 1) in
       if end_idx < start_idx then Inr [] else
       slice user_value (nat start_idx) (nat (end_idx + 1)))))"

definition redis_get_binary ::
  "('db, 'c) env \<Rightarrow> (nat \<Rightarrow> u64) \<Rightarrow> bytes \<Rightarrow> ('db, 'c) redis \<Rightarrow> bytes result" where
  "redis_get_binary E clk key st =
     rbind (get_encoded E key st) (\<lambda>encode_value.
     rbind (parse_string (clk 0) encode_value) (\<lambda>p.
     case p of
       None \<Rightarrow> Inl (KeyNotFound (from_utf8_lossy key))
     | Some p \<Rightarrow> pv_user_value p))"

definition redis_get ::
  "('db, 'c) env \<Rightarrow> (nat \<Rightarrow> u64) \<Rightarrow> bytes \<Rightarrow> ('db, 'c) redis \<Rightarrow> bytes result" where
  "redis_get E clk key st =
     rbind (get_encoded E key st) (\<lambda>encode_value.
     rbind (parse_string (clk 0) encode_value) (\<lambda>p.
     case p of
       None \<Rightarrow> Inl (KeyNotFound (from_utf8_lossy key))
     | Some p \<Rightarrow> rbind (pv_user_value p) (\<lambda>u. Inr (from_utf8_lossy u))))"

text \<open>The error of the type check whose text contains \<open>WRONGTYPE\<close>.\<close>

definition is_wrong_type :: "error \<Rightarrow> bool" where
  "is_wrong_type e \<longleftrightarrow> e = wrong_type_error"

fun mget_loop ::
  "('db, 'c) env \<Rightarrow> (nat \<Rightarrow> u64) \<Rightarrow> nat \<Rightarrow> 'db \<Rightarrow> bytes list \<Rightarrow> bytes option list result" where
  "mget_loop E clk i db [] = Inr []"
| "mget_loop E clk i db (key # keys) =
     rbind (string_key key) (\<lambda>k.
     rbind (db_get E db k) (\<lambda>r.
     rbind
       (case r of
          None \<Rightarrow> Inr None
        | Some val \<Rightarrow>
          (case check_type_state (clk (4 + i)) val TString of
             Inl err \<Rightarrow> if is_wrong_type err then Inr None else Inl err
           | Inr Match \<Rightarrow>
               rbind (parsed_strings_value_new val) (\<lambda>p.
               rbind (pv_user_value p) (\<lambda>u. Inr (Some u)))
           | Inr _ \<Rightarrow> Inr None))
       (\<lambda>x. rbind (mget_loop E clk (Suc i) db keys) (\<lambda>xs. Inr (x # xs)))))"

definition mget_binary ::
  "('db, 'c) env \<Rightarrow> (nat \<Rightarrow> u64) \<Rightarrow> bytes list \<Rightarrow> ('db, 'c) redis \<Rightarrow> bytes option list result" where
  "mget_binary E clk keys st = rbind (redis_db st) (\<lambda>db. mget_loop E clk 0 db keys)"

definition mget ::
  "('db, 'c) env \<Rightarrow> (nat \<Rightarrow> u64) \<Rightarrow> bytes list \<Rightarrow> ('db, 'c) redis \<Rightarrow> bytes option list result" where
  "mget E clk keys st =
     rbind (mget_binary E clk keys st) (\<lambda>vs. Inr (map (map_option from_utf8_lossy) vs))"

section \<open>Writes\<close>

definition setrange_with_outcome ::
  "('db, 'c) env \<Rightarrow> (nat \<Rightarrow> u64) \<Rightarrow> bytes \<Rightarrow> i64 \<Rightarrow> bytes \<Rightarrow> ('db, 'c) redis
     \<Rightarrow> (int \<times> bool) result \<times> ('db, 'c) redis" where
  "setrange_with_outcome E clk key offset value st =
     (if offset < 0 \<or> int I32_MAX < offset then (Inl (RedisErr ''ERR offset is out of range''), st) else
      obind (olift (existing_string E clk key st)) (\<lambda>(existing, ctime, etime).
      let existing_value = (case existing of Some u \<Rightarrow> u | None \<Rightarrow> []);
          current_len = length existing_value in
      if value = [] \<and> offset \<le> usize_as_i32 current_len
      then oreturn (usize_as_i32 current_len, False) else
      let offset_usize = nat offset; required_len = usize_add offset_usize (length value) in
      if I32_MAX < required_len
      then olift (Inl (RedisErr ''ERR string exceeds maximum allowed size'')) else
      let new_value = (if current_len < offset_usize then vec_resize existing_value offset_usize
                       else existing_value);
          new_value = (if length new_value < required_len then vec_resize new_value required_len
                       else new_value) in
      obind (olift (copy_range new_value offset_usize (offset_usize + length value) value)) (\<lambda>new_value.
      obind (put_string E key ((string_value_new (clk 2) new_value)\<lparr>iv_ctime := ctime, iv_etime := etime\<rparr>)) (\<lambda>_.
      oreturn (usize_as_i32 (length new_value), True)))) st)"

definition setrange ::
  "('db, 'c) env \<Rightarrow> (nat \<Rightarrow> u64) \<Rightarrow> bytes \<Rightarrow> i64 \<Rightarrow> bytes \<Rightarrow> ('db, 'c) redis
     \<Rightarrow> int result \<times> ('db, 'c) redis" where
  "setrange E clk key offset value =
     obind (setrange_with_outcome E clk key offset value) (\<lambda>(n, _). oreturn n)"

definition redis_append ::
  "('db, 'c) env \<Rightarrow> (nat \<Rightarrow> u64) \<Rightarrow> bytes \<Rightarrow> bytes \<Rightarrow> ('db, 'c) redis \<Rightarrow> int result \<times> ('db, 'c) redis" where
  "redis_append E clk key value st =
     obind (olift (existing_string E clk key st)) (\<lambda>(existing, ctime, etime).
     let new_value = (case existing of Some u \<Rightarrow> u @ value | None \<Rightarrow> value) in
     if I32_MAX < length new_value
     then olift (Inl (RedisErr ''string exceeds maximum allowed size'')) else
     obind (put_string E key ((string_value_new (clk 2) new_value)\<lparr>iv_ctime := ctime, iv_etime := etime\<rparr>)) (\<lambda>_.
     oreturn (usize_as_i32 (length new_value)))) st"

definition redis_set ::
  "('db, 'c) env \<Rightarrow> (nat \<Rightarrow> u64) \<Rightarrow> bytes \<Rightarrow> bytes \<Rightarrow> ('db, 'c) redis \<Rightarrow> unit result \<times> ('db, 'c) redis" where
  "redis_set E clk key value = put_string E key (string_value_new (clk 2) value)"

definition setex ::
  "('db, 'c) env \<Rightarrow> (nat \<Rightarrow> u64) \<Rightarrow> bytes \<Rightarrow> i64 \<Rightarrow> bytes \<Rightarrow> ('db, 'c) redis \<Rightarrow> unit result \<times> ('db, 'c) redis" where
  "setex E clk key seconds value st =
     (if seconds \<le> 0 then (Inl (RedisErr ''ERR invalid expire time in setex''), st) else
      obind (olift (case checked_mul_u64 (i64_as_u64 seconds) 1000000 of
               Some t \<Rightarrow> Inr t
             | None \<Rightarrow> Inl (InvalidFormat ''TTL overflow when converting to microseconds''))) (\<lambda>ttl_micros.
      obind (olift (iv_set_relative_etime (clk 3) ttl_micros (string_value_new (clk 2) value))) (\<lambda>v.
      put_string E key v)) st)"

definition psetex ::
  "('db, 'c) env \<Rightarrow> (nat \<Rightarrow> u64) \<Rightarrow> bytes \<Rightarrow> i64 \<Rightarrow> bytes \<Rightarrow> ('db, 'c) redis \<Rightarrow> unit result \<times> ('db, 'c) redis" where
  "psetex E clk key milliseconds value st =
     (if milliseconds \<le> 0 then (Inl (RedisErr ''ERR invalid expire time in psetex''), st) else
      obind (olift (case checked_mul_u64 (i64_as_u64 milliseconds) 1000 of
               Some ttl_micros \<Rightarrow>
                 iv_set_relative_etime (clk 3) ttl_micros (string_value_new (clk 2) value)
             | None \<Rightarrow> Inr ((string_value_new (clk 2) value)\<lparr>iv_etime := - 1\<rparr>))) (\<lambda>v.
      put_string E key v) st)"

definition getset ::
  "('db, 'c) env \<Rightarrow> (nat \<Rightarrow> u64) \<Rightarrow> bytes \<Rightarrow> bytes \<Rightarrow> ('db, 'c) redis
     \<Rightarrow> bytes option result \<times> ('db, 'c) redis" where
  "getset E clk key value st =
     obind (olift (rbind (redis_db st) (\<lambda>db. rbind (string_key key) (db_get E db)))) (\<lambda>encode_value.
     obind (olift (case encode_value of
              None \<Rightarrow> Inr None
            | Some val \<Rightarrow>
              rbind (parse_string (clk 0) val) (\<lambda>p.
              case p of
                None \<Rightarrow> Inr None
              | Some p \<Rightarrow> rbind (pv_user_value p) (\<lambda>u. Inr (Some (from_utf8_lossy u)))))) (\<lambda>old_value.
     obind (put_string E key (string_value_new (clk 2) value)) (\<lambda>_.
     oreturn old_value))) st"

definition incr_decr ::
  "('db, 'c) env \<Rightarrow> (nat \<Rightarrow> u64) \<Rightarrow> bytes \<Rightarrow> i64 \<Rightarrow> ('db, 'c) redis \<Rightarrow> i64 result \<times> ('db, 'c) redis" where
  "incr_decr E clk key incr st =
     obind (olift (existing_string E clk key st)) (\<lambda>(existing, ctime, etime).
     obind (olift (case existing of
              None \<Rightarrow> Inr 0
            | Some u \<Rightarrow>
              (case parse_i64 (from_utf8_lossy u) of
                 Some v \<Rightarrow> Inr v
               | None \<Rightarrow> Inl (RedisErr ''value is not an integer or out of range'')))) (\<lambda>value.
     if value + incr < - (2 ^ 63) \<or> 2 ^ 63 \<le> value + incr
     then olift (Inl (RedisErr ''increment or decrement would overflow'')) else
     obind (put_string E key ((string_value_new (clk 2) (int_to_text (value + incr)))
              \<lparr>iv_ctime := ctime, iv_etime := etime\<rparr>)) (\<lambda>_.
     oreturn (value + incr)))) st"

section \<open>Bit operations\<close>

text \<open>Bit 0 of a byte is its most significant bit.\<close>

definition bit_mask :: "i64 \<Rightarrow> byte" where
  "bit_mask offset = push_bit (7 - nat (offset mod 8)) 1"

definition bit_offset_error :: error where
  "bit_offset_error = RedisErr ''ERR bit offset is not an integer or out of range''"

definition setbit ::
  "('db, 'c) env \<Rightarrow> (nat \<Rightarrow> u64) \<Rightarrow> bytes \<Rightarrow> i64 \<Rightarrow> i64 \<Rightarrow> ('db, 'c) redis
     \<Rightarrow> i64 result \<times> ('db, 'c) redis" where
  "setbit E clk key offset value st =
     (if offset < 0 then (Inl bit_offset_error, st) else
      if value \<noteq> 0 \<and> value \<noteq> 1
      then (Inl (RedisErr ''ERR bit is not an integer or out of range''), st) else
      if 2 ^ 32 - 1 < offset then (Inl bit_offset_error, st) else
      obind (olift (existing_string E clk key st)) (\<lambda>(existing, ctime, etime).
      let existing_value = (case existing of Some u \<Rightarrow> u | None \<Rightarrow> []);
          byte_offset = nat (offset div 8);
          mask = bit_mask offset;
          padded = (if length existing_value \<le> byte_offset
                    then vec_resize existing_value (byte_offset + 1) else existing_value);
          old_byte = padded ! byte_offset;
          old_bit = (if old_byte AND mask \<noteq> 0 then 1 else 0);
          new_value = (if value = 1 then padded[byte_offset := old_byte OR mask]
                       else padded[byte_offset := old_byte AND NOT mask]) in
      obind (put_string E key ((string_value_new (clk 2) new_value)\<lparr>iv_ctime := ctime, iv_etime := etime\<rparr>)) (\<lambda>_.
      oreturn old_bit)) st)"

definition getbit ::
  "('db, 'c) env \<Rightarrow> (nat \<Rightarrow> u64) \<Rightarrow> bytes \<Rightarrow> i64 \<Rightarrow> ('db, 'c) redis \<Rightarrow> i64 result" where
  "getbit E clk key offset st =
     (if offset < 0 \<or> 2 ^ 32 - 1 < offset then Inl bit_offset_error else
      rbind (get_encoded E key st) (\<lambda>encode_value.
      rbind (parse_string (clk 0) encode_value) (\<lambda>p.
      case p of
        None \<Rightarrow> Inr 0
      | Some p \<Rightarrow>
        rbind (pv_user_value p) (\<lambda>user_value.
        let byte_offset = nat (offset div 8) in
        if length user_value \<le> byte_offset then Inr 0 else
        Inr (if user_value ! byte_offset AND bit_mask offset \<noteq> 0 then 1 else 0)))))"

definition count_ones :: "byte \<Rightarrow> nat" where
  "count_ones b = length (filter (bit b) [0..<8])"

text \<open>\<open>as usize\<close> on an \<open>i64\<close>.\<close>

definition i64_as_usize :: "i64 \<Rightarrow> nat" where
  "i64_as_usize i = nat (i mod 2 ^ 64)"

definition bit_start :: "int \<Rightarrow> i64 \<Rightarrow> i64" where
  "bit_start len start = (if start < 0 then max (wrap_i64 (len + start)) 0 else start)"

definition bit_stop :: "int \<Rightarrow> i64 \<Rightarrow> i64" where
  "bit_stop len stop = (if stop < 0 then max (wrap_i64 (len + stop)) (- 1) else stop)"

definition unwrap_or :: "'a \<Rightarrow> 'a option \<Rightarrow> 'a" where
  "unwrap_or d x = (case x of Some y \<Rightarrow> y | None \<Rightarrow> d)"

definition bitcount ::
  "('db, 'c) env \<Rightarrow> (nat \<Rightarrow> u64) \<Rightarrow> bytes \<Rightarrow> i64 option \<Rightarrow> i64 option \<Rightarrow> ('db, 'c) redis \<Rightarrow> i64 result" where
  "bitcount E clk key start stop st =
     rbind (get_encoded E key st) (\<lambda>encode_value.
     rbind (parse_string (clk 0) encode_value) (\<lambda>p.
     case p of
       None \<Rightarrow> Inr 0
     | Some p \<Rightarrow>
       rbind (pv_user_value p) (\<lambda>user_value.
       let len = int (length user_value);
           range = (if start = None \<and> stop = None then Some (0, len - 1) else
                    let start_idx = bit_start len (unwrap_or 0 start);
                        end_idx = bit_stop len (unwrap_or (len - 1) stop) in
                    if end_idx < start_idx then None else Some (start_idx, end_idx)) in
       case range of
         None \<Rightarrow> Inr 0
       | Some (start_idx, end_idx) \<Rightarrow>
         let start_pos = min (i64_as_usize (max start_idx 0)) (length user_value);
             end_pos = min (i64_as_usize (max end_idx (- 1))) (length user_value - 1) in
         if length user_value \<le> start_pos then Inr 0 else
         Inr (int (sum_list (map (\<lambda>i. count_ones (user_value ! i)) [start_pos..<Suc end_pos]))))))"

text \<open>The search loop of \<open>bitpos\<close>; it stops behind the value.\<close>

fun bitpos_loop :: "bytes \<Rightarrow> byte \<Rightarrow> int list \<Rightarrow> int option" where
  "bitpos_loop user_value target [] = None"
| "bitpos_loop user_value target (bit_pos # rest) =
     (let byte_index = nat (bit_pos div 8) in
      if length user_value \<le> byte_index then None else
      if drop_bit (7 - nat (bit_pos mod 8)) (user_value ! byte_index) AND 1 = target
      then Some bit_pos else bitpos_loop user_value target rest)"

definition bitpos ::
  "('db, 'c) env \<Rightarrow> (nat \<Rightarrow> u64) \<Rightarrow> bytes \<Rightarrow> i64 \<Rightarrow> i64 option \<Rightarrow> i64 option \<Rightarrow> bool
     \<Rightarrow> ('db, 'c) redis \<Rightarrow> i64 result" where
  "bitpos E clk key b start stop is_bit_mode st =
     (let not_found = (if b = 1 then - 1 else 0) in
      if b \<noteq> 0 \<and> b \<noteq> 1 then Inl (RedisErr ''ERR The bit argument must be 1 or 0'') else
      rbind (get_encoded E key st) (\<lambda>encode_value.
      rbind (parse_string (clk 0) encode_value) (\<lambda>p.
      case p of
        None \<Rightarrow> Inr not_found
      | Some p \<Rightarrow>
        rbind (pv_user_value p) (\<lambda>user_value.
        if user_value = [] then Inr not_found else
        let len = int (length user_value);
            range =
              (if is_bit_mode then
                 let bits = wrap_i64 (len * 8);
                     start_bit = min (max (bit_start bits (unwrap_or 0 start)) 0) (bits - 1);
                     end_bit = min (max (bit_stop bits (unwrap_or (bits - 1) stop)) (- 1)) (bits - 1) in
                 Some (start_bit, end_bit)
               else
                 let start_byte = min (max (bit_start len (unwrap_or 0 start)) 0) (len - 1);
                     end_byte = min (max (bit_stop len (unwrap_or (len - 1) stop)) (- 1)) (len - 1) in
                 if end_byte < start_byte then None
                 else Some (wrap_i64 (start_byte * 8), wrap_i64 (end_byte * 8 + 7))) in
        case range of
          None \<Rightarrow> Inr not_found
        | Some (start_pos, end_pos) \<Rightarrow>
          (case bitpos_loop user_value (word_of_int b) [start_pos..end_pos] of
             Some pos \<Rightarrow> Inr pos
           | None \<Rightarrow> Inr not_found)))))"

datatype bit_operation = BitAnd | BitOr | BitXor | BitNot

definition ascii_upper :: "byte \<Rightarrow> byte" where
  "ascii_upper b = (if 97 \<le> b \<and> b \<le> 122 then b - 32 else b)"

text \<open>
  The words \<open>AND\<close>, \<open>OR\<close>, \<open>XOR\<close> and \<open>NOT\<close> in any case. No character outside ASCII has one of
  their letters as its upper case.
\<close>

definition bit_operation_of :: "bytes \<Rightarrow> bit_operation option" where
  "bit_operation_of operation =
     (let w = map ascii_upper operation in
      if w = [65, 78, 68] then Some BitAnd else
      if w = [79, 82] then Some BitOr else
      if w = [88, 79, 82] then Some BitXor else
      if w = [78, 79, 84] then Some BitNot else None)"

fun op_func :: "bit_operation \<Rightarrow> byte \<Rightarrow> byte \<Rightarrow> byte" where
  "op_func BitAnd a b = a AND b"
| "op_func BitOr a b = a OR b"
| "op_func BitXor a b = a XOR b"
| "op_func BitNot a b = NOT a"

fun bitop_sources ::
  "('db, 'c) env \<Rightarrow> (nat \<Rightarrow> u64) \<Rightarrow> nat \<Rightarrow> bytes list \<Rightarrow> ('db, 'c) redis \<Rightarrow> bytes list result" where
  "bitop_sources E clk i [] st = Inr []"
| "bitop_sources E clk i (src_key # src_keys) st =
     rbind (get_encoded E src_key st) (\<lambda>encode_value.
     rbind (parse_string (clk (4 + i)) encode_value) (\<lambda>p.
     rbind (case p of None \<Rightarrow> Inr [] | Some p \<Rightarrow> pv_user_value p) (\<lambda>u.
     rbind (bitop_sources E clk (Suc i) src_keys st) (\<lambda>us. Inr (u # us)))))"

definition bitop_byte :: "bit_operation \<Rightarrow> bytes list \<Rightarrow> nat \<Rightarrow> byte" where
  "bitop_byte op src_values i =
     foldl (op_func op) (if op = BitAnd then - 1 else 0)
       (map (\<lambda>v. if i < length v then v ! i else 0) src_values)"

definition bitop_not_arity :: error where
  "bitop_not_arity = RedisErr ''ERR BITOP NOT must be called with a single source key''"

definition store_result ::
  "('db, 'c) env \<Rightarrow> (nat \<Rightarrow> u64) \<Rightarrow> bytes \<Rightarrow> bytes \<Rightarrow> ('db, 'c) redis \<Rightarrow> i64 result \<times> ('db, 'c) redis" where
  "store_result E clk dest_key value =
     obind (put_string E dest_key ((string_value_new (clk 2) value)\<lparr>iv_ctime := clk 1, iv_etime := 0\<rparr>)) (\<lambda>_.
     oreturn (int (length value)))"

definition bitop ::
  "('db, 'c) env \<Rightarrow> (nat \<Rightarrow> u64) \<Rightarrow> bytes \<Rightarrow> bytes \<Rightarrow> bytes list \<Rightarrow> ('db, 'c) redis
     \<Rightarrow> i64 result \<times> ('db, 'c) redis" where
  "bitop E clk operation dest_key src_keys st =
     (case bit_operation_of operation of
        None \<Rightarrow> (Inl (RedisErr ''ERR syntax error''), st)
      | Some op \<Rightarrow>
        if op = BitNot \<and> length src_keys \<noteq> 1 then (Inl bitop_not_arity, st) else
        obind (olift (redis_db st)) (\<lambda>_.
        if op = BitNot then
          obind (olift (get_encoded E (hd src_keys) st)) (\<lambda>encode_value.
          obind (olift (parse_string (clk 0) encode_value)) (\<lambda>p.
          case p of
            None \<Rightarrow> store_result E clk dest_key []
          | Some p \<Rightarrow>
            if encode_value = [] then store_result E clk dest_key [] else
            obind (olift (pv_user_value p)) (\<lambda>user_value.
            store_result E clk dest_key (map (\<lambda>byte. NOT byte) user_value))))
        else if src_keys = [] then
          olift (Inl (RedisErr ''ERR wrong number of arguments for 'bitop' command''))
        else
          obind (olift (bitop_sources E clk 0 src_keys st)) (\<lambda>src_values.
          let max_len = foldl max 0 (map length src_values) in
          if max_len = 0 then store_result E clk dest_key []
          else store_result E clk dest_key (map (bitop_byte op src_values) [0..<max_len]))) st)"

end
