(* ===== verification/Redis_Keys.thy ===== *)
theory Redis_Keys
  imports Redis_Strings
begin

text \<open>
  The operations on keys of any type (\<^verbatim>\<open>src/storage/src/redis_strings.rs\<close>): type, expiry, removal,
  and the conditional string writes that need the type. The readings of the clock are counted as in
  \<open>Redis_Strings\<close>. The walks over the whole keyspace are in \<open>Keyspace_Scan\<close>.
\<close>

section \<open>Reading the meta value\<close>

definition meta_handle :: "('db, 'c) env \<Rightarrow> ('db, 'c) redis \<Rightarrow> string result" where
  "meta_handle E st =
     (case redis_get_cf_handle E st MetaCF of
        Some h \<Rightarrow> Inr h | None \<Rightarrow> Inl (OptionNone ''MetaCF is not initialized''))"

definition read_meta :: "('db, 'c) env \<Rightarrow> bytes \<Rightarrow> ('db, 'c) redis \<Rightarrow> bytes option result" where
  "read_meta E key st =
     rbind (redis_db st) (\<lambda>db.
     rbind (meta_handle E st) (\<lambda>meta_cf.
     rbind (base_key_encode (base_key_new key)) (\<lambda>meta_key.
     db_get_cf E db meta_cf meta_key)))"

text \<open>The liveness of a non-empty meta value, by the parser of its type.\<close>

definition meta_live :: "u64 \<Rightarrow> bytes \<Rightarrow> bool result" where
  "meta_live now value =
     rbind (data_type_try_from (hd value)) (\<lambda>dt.
     case dt of
       TString \<Rightarrow> rbind (parsed_strings_value_new value) (\<lambda>p. Inr (\<not> pv_is_stale now p))
     | TList \<Rightarrow> rbind (parsed_lists_meta_value_new value) (\<lambda>m. Inr (list_is_valid now m))
     | TNone \<Rightarrow> Inr False
     | TAll \<Rightarrow> Inr False
     | _ \<Rightarrow> rbind (parsed_base_meta_value_new value) (\<lambda>m. Inr (base_meta_is_valid now m)))"

definition get_key_type ::
  "('db, 'c) env \<Rightarrow> (nat \<Rightarrow> u64) \<Rightarrow> bytes \<Rightarrow> ('db, 'c) redis \<Rightarrow> data_type result" where
  "get_key_type E clk key st =
     rbind (read_meta E key st) (\<lambda>v.
     case v of
       None \<Rightarrow> Inl (KeyNotFound (from_utf8_lossy key))
     | Some value \<Rightarrow>
       rbind (if value = [] then Inr False else meta_live (clk 0) value) (\<lambda>is_live.
       if \<not> is_live then Inl (KeyNotFound (from_utf8_lossy key)) else
       data_type_try_from (hd value)))"

definition is_key_not_found :: "error \<Rightarrow> bool" where
  "is_key_not_found e = (case e of KeyNotFound _ \<Rightarrow> True | _ \<Rightarrow> False)"

definition key_exists_live ::
  "('db, 'c) env \<Rightarrow> (nat \<Rightarrow> u64) \<Rightarrow> bytes \<Rightarrow> ('db, 'c) redis \<Rightarrow> bool result" where
  "key_exists_live E clk key st =
     (case get_key_type E clk key st of
        Inr _ \<Rightarrow> Inr True
      | Inl err \<Rightarrow> if is_key_not_found err then Inr False else Inl err)"

definition key_etime ::
  "('db, 'c) env \<Rightarrow> (nat \<Rightarrow> u64) \<Rightarrow> bytes \<Rightarrow> ('db, 'c) redis \<Rightarrow> u64 option result" where
  "key_etime E clk key st =
     rbind (read_meta E key st) (\<lambda>v.
     case v of
       None \<Rightarrow> Inr None
     | Some value \<Rightarrow>
       rbind (is_stale_static (clk 0) value) (\<lambda>stale.
       if stale then Inr None else
       rbind (slice value (usize_sub (length value) 8) (length value)) (\<lambda>etime_bytes.
       if length etime_bytes = 8 then Inr (Some (u64_of_le etime_bytes))
       else Inl (InvalidFormat ''Failed to decode key etime''))))"

section \<open>Conditional and multiple string writes\<close>

definition setnx ::
  "('db, 'c) env \<Rightarrow> (nat \<Rightarrow> u64) \<Rightarrow> bytes \<Rightarrow> bytes \<Rightarrow> ('db, 'c) redis \<Rightarrow> int result \<times> ('db, 'c) redis" where
  "setnx E clk key value st =
     obind (olift (key_exists_live E clk key st)) (\<lambda>live.
     if live then oreturn 0 else
     obind (put_string E key (string_value_new (clk 2) value)) (\<lambda>_. oreturn 1)) st"

text \<open>The operations \<open>mset\<close> and \<open>msetnx\<close> put into their batch; the reading of the clock is the one of
  each new value.\<close>

fun mset_ops :: "(nat \<Rightarrow> u64) \<Rightarrow> nat \<Rightarrow> (bytes \<times> bytes) list \<Rightarrow> batch_op list result" where
  "mset_ops clk i [] = Inr []"
| "mset_ops clk i ((key, value) # kvs) =
     rbind (string_key key) (\<lambda>k.
     rbind (mset_ops clk (Suc i) kvs) (\<lambda>ops.
     Inr (BPut MetaCF k (string_value_encode (string_value_new (clk (4 + i)) value)) # ops)))"

definition mset ::
  "('db, 'c) env \<Rightarrow> (nat \<Rightarrow> u64) \<Rightarrow> (bytes \<times> bytes) list \<Rightarrow> ('db, 'c) redis
     \<Rightarrow> unit result \<times> ('db, 'c) redis" where
  "mset E clk kvs = obind (olift (mset_ops clk 0 kvs)) (write_ops E)"

fun any_live ::
  "('db, 'c) env \<Rightarrow> (nat \<Rightarrow> u64) \<Rightarrow> nat \<Rightarrow> (bytes \<times> bytes) list \<Rightarrow> ('db, 'c) redis \<Rightarrow> bool result" where
  "any_live E clk i [] st = Inr False"
| "any_live E clk i ((key, _) # kvs) st =
     rbind (key_exists_live E (\<lambda>_. clk (4 + i)) key st) (\<lambda>live.
     if live then Inr True else any_live E clk (Suc i) kvs st)"

definition msetnx ::
  "('db, 'c) env \<Rightarrow> (nat \<Rightarrow> u64) \<Rightarrow> (bytes \<times> bytes) list \<Rightarrow> ('db, 'c) redis
     \<Rightarrow> bool result \<times> ('db, 'c) redis" where
  "msetnx E clk kvs st =
     obind (olift (any_live E clk 0 kvs st)) (\<lambda>live.
     if live then oreturn False else
     obind (olift (mset_ops clk (length kvs) kvs)) (\<lambda>ops.
     obind (write_ops E ops) (\<lambda>_. oreturn True))) st"

section \<open>Expiry and removal\<close>

text \<open>The meta value with a new expiry, or \<open>None\<close> for a type no meta value has.\<close>

definition retimed :: "u64 \<Rightarrow> bytes \<Rightarrow> bytes option result" where
  "retimed etime value =
     (if value = [] then Inl (Panic ''index out of bounds'') else
      rbind (data_type_try_from (hd value)) (\<lambda>dt.
      case dt of
        TString \<Rightarrow>
          rbind (parsed_strings_value_new value) (\<lambda>p.
          rbind (strings_set_etime etime p) (\<lambda>p. Inr (Some (pv_value p))))
      | TList \<Rightarrow>
          rbind (parsed_lists_meta_value_new value) (\<lambda>p.
          rbind (list_set_etime etime p) (\<lambda>p. Inr (Some (pv_value p))))
      | TNone \<Rightarrow> Inr None
      | TAll \<Rightarrow> Inr None
      | _ \<Rightarrow>
          rbind (parsed_base_meta_value_new value) (\<lambda>p.
          rbind (base_meta_set_etime etime p) (\<lambda>p. Inr (Some (pv_value p))))))"

definition set_key_etime ::
  "('db, 'c) env \<Rightarrow> (nat \<Rightarrow> u64) \<Rightarrow> bytes \<Rightarrow> u64 \<Rightarrow> ('db, 'c) redis \<Rightarrow> bool result \<times> ('db, 'c) redis" where
  "set_key_etime E clk key etime st =
     obind (olift (read_meta E key st)) (\<lambda>v.
     case v of
       None \<Rightarrow> oreturn False
     | Some value \<Rightarrow>
       obind (olift (is_stale_static (clk 0) value)) (\<lambda>stale.
       if stale then oreturn False else
       obind (olift (retimed etime value)) (\<lambda>w.
       case w of
         None \<Rightarrow> oreturn False
       | Some w \<Rightarrow>
         obind (olift (base_key_encode (base_key_new key))) (\<lambda>k.
         obind (write_ops E [BPut MetaCF k w]) (\<lambda>_. oreturn True))))) st"

text \<open>A failed update of the statistics is only logged.\<close>

definition statistics_logged ::
  "('db, 'c) env \<Rightarrow> data_type \<Rightarrow> bytes \<Rightarrow> u64 \<Rightarrow> ('db, 'c) redis \<Rightarrow> unit result \<times> ('db, 'c) redis" where
  "statistics_logged E dtype key count st =
     (Inr (), snd (update_specific_key_statistics E dtype (from_utf8_lossy key) count st))"

definition del_key ::
  "('db, 'c) env \<Rightarrow> (nat \<Rightarrow> u64) \<Rightarrow> bytes \<Rightarrow> ('db, 'c) redis \<Rightarrow> bool result \<times> ('db, 'c) redis" where
  "del_key E clk key st =
     obind (olift (read_meta E key st)) (\<lambda>v.
     case v of
       None \<Rightarrow> oreturn False
     | Some value \<Rightarrow>
       if value = [] then oreturn False else
       obind (olift (base_key_encode (base_key_new key))) (\<lambda>k.
       obind (olift (data_type_try_from (hd value))) (\<lambda>dt.
       case dt of
         TString \<Rightarrow>
           obind (olift (parsed_strings_value_new value)) (\<lambda>parsed.
           if pv_is_stale (clk 0) parsed then oreturn False else
           obind (write_ops E [BDelete MetaCF k]) (\<lambda>_.
           obind (statistics_logged E TString key 1) (\<lambda>_. oreturn True)))
       | TList \<Rightarrow>
           obind (olift (parsed_lists_meta_value_new value)) (\<lambda>parsed.
           if \<not> list_is_valid (clk 0) parsed then oreturn False else
           obind (olift (list_set_count 0 parsed)) (\<lambda>m.
           obind (olift (list_update_version (clk 2) m)) (\<lambda>(_, m).
           obind (olift (list_set_etime 0 m)) (\<lambda>m.
           obind (write_ops E [BPut MetaCF k (pv_value m)]) (\<lambda>_.
           obind (statistics_logged E TList key (list_count parsed)) (\<lambda>_. oreturn True))))))
       | TNone \<Rightarrow> oreturn False
       | TAll \<Rightarrow> oreturn False
       | _ \<Rightarrow>
           obind (olift (parsed_base_meta_value_new value)) (\<lambda>parsed.
           if \<not> base_meta_is_valid (clk 0) parsed then oreturn False else
           obind (olift (base_meta_set_count 0 parsed)) (\<lambda>m.
           obind (olift (base_meta_parsed_update_version (clk 2) m)) (\<lambda>(_, m).
           obind (olift (base_meta_set_etime 0 m)) (\<lambda>m.
           obind (write_ops E [BPut MetaCF k (pv_value m)]) (\<lambda>_.
           obind (statistics_logged E dt key (meta_count parsed)) (\<lambda>_. oreturn True)))))))))  st"

end
