(* ===== verification/Strings_Refinement.thy ===== *)
theory Strings_Refinement
  imports Redis_Keys Key_Frame
begin

text \<open>
  The string commands against an abstract store of strings with an expiry. A stored string is the
  bytes of its encoding under the user key; a command sees it unless its expiry has passed at the
  command's reading of the clock. For each command the theory gives its reply and the string it leaves.
\<close>

section \<open>Stored strings\<close>

definition string_bytes :: "bytes \<Rightarrow> u64 \<Rightarrow> u64 \<Rightarrow> bytes" where
  "string_bytes x ct et = [data_type_u8 TString] @ x @ replicate 16 0 @ u64_le ct @ u64_le et"

definition string_parsed :: "bytes \<Rightarrow> u64 \<Rightarrow> u64 \<Rightarrow> parsed_internal_value" where
  "string_parsed x ct et =
     \<lparr>pv_value = string_bytes x ct et, pv_data_type = TString, pv_user_value_range = (1, 1 + length x),
      pv_reserve_range = (1 + length x, 17 + length x), pv_version = 0, pv_ctime = ct, pv_etime = et\<rparr>"

text \<open>The longest string a command accepts.\<close>

definition fits :: "bytes \<Rightarrow> bool" where
  "fits x \<longleftrightarrow> length x \<le> I32_MAX"

lemma string_bytes_not_Nil [simp]: "string_bytes x ct et \<noteq> []" "[] \<noteq> string_bytes x ct et"
  by (simp_all add: string_bytes_def)

lemma hd_string_bytes [simp]: "hd (string_bytes x ct et) = data_type_u8 TString"
  by (simp add: string_bytes_def)

lemma string_value_encode_bytes [simp]:
  "string_value_encode ((string_value_new now x)\<lparr>iv_ctime := ct, iv_etime := et\<rparr>) = string_bytes x ct et"
  "string_value_encode ((string_value_new now x)\<lparr>iv_etime := et\<rparr>) = string_bytes x now et"
  "string_value_encode (string_value_new now x) = string_bytes x now 0"
  by (simp_all add: string_value_encode_def string_value_new_def internal_value_new_def string_bytes_def)

lemma parsed_string_bytes [simp]:
  "fits x \<Longrightarrow> parsed_strings_value_new (string_bytes x ct et) = Inr (string_parsed x ct et)"
  unfolding string_bytes_def string_parsed_def fits_def by (subst parsed_strings_value_encode) simp_all

lemma string_parsed_sel [simp]:
  "pv_user_value (string_parsed x ct et) = Inr x" "pv_ctime (string_parsed x ct et) = ct"
  "pv_etime (string_parsed x ct et) = et" "pv_value (string_parsed x ct et) = string_bytes x ct et"
  by (simp_all add: string_parsed_def pv_user_value_def string_bytes_def slice_def)

lemma is_stale_string_bytes [simp]: "fits x \<Longrightarrow> is_stale_static now (string_bytes x ct et) = Inr (expired now et)"
  using is_stale_string [of x now ct et] by (simp add: string_bytes_def fits_def)

lemma pv_is_stale_string [simp]: "pv_is_stale now (string_parsed x ct et) = expired now et"
  by (simp add: pv_is_stale_def expired_def)

lemma check_type_state_string [simp]:
  "fits x \<Longrightarrow> check_type_state now (string_bytes x ct et) dt
     = (if expired now et then Inr Stale else if dt = TString then Inr Match else Inl wrong_type_error)"
  by (auto simp: check_type_state_def simp del: data_type_u8.simps)

lemma parse_string_bytes [simp]:
  "fits x \<Longrightarrow> parse_string now (string_bytes x ct et)
     = Inr (if expired now et then None else Some (string_parsed x ct et))"
  by (simp add: parse_string_def)

lemma parse_string_Nil [simp]: "parse_string now [] = Inr None"
  by (simp add: parse_string_def check_type_state_def)

text \<open>
  A key holds a string with its expiry, or nothing. The creation time of a string is not observable
  by a string command.
\<close>

definition holds :: "contents \<Rightarrow> bytes \<Rightarrow> (bytes \<times> u64) option \<Rightarrow> bool" where
  "holds V key s \<longleftrightarrow>
     (case s of
        None \<Rightarrow> meta_at V key = None
      | Some (x, et) \<Rightarrow> fits x \<and> (\<exists>ct. meta_at V key = Some (string_bytes x ct et)))"

definition seen :: "u64 \<Rightarrow> (bytes \<times> u64) option \<Rightarrow> (bytes \<times> u64) option" where
  "seen now s = (case s of Some (x, et) \<Rightarrow> if expired now et then None else Some (x, et) | None \<Rightarrow> None)"

lemma frame_holds: "frame key V V' \<Longrightarrow> key' \<noteq> key \<Longrightarrow> holds V key' s \<Longrightarrow> holds V' key' s"
  using frame_meta [of key V V' key'] by (cases s) (auto simp: holds_def)

section \<open>The shared blocks\<close>

lemma redis_db_ok: "instance_ok E view st \<Longrightarrow> redis_db st = Inr (the (rd_db st))"
  by (auto simp: redis_db_def instance_ok_def)

lemma get_encoded_ok:
  assumes "instance_ok E view st"
  shows "get_encoded E key st
    = Inr (case meta_at (contents_of view st) key of Some v \<Rightarrow> v | None \<Rightarrow> [])"
  using redis_db_ok [OF assms] db_get_ok(1) [OF assms]
  by (simp add: get_encoded_def string_key_def del: cf_name.simps)

lemma parse_holds:
  assumes "instance_ok E view st" "holds (contents_of view st) key s"
  obtains ct where "\<And>now (f :: parsed_internal_value option \<Rightarrow> 'a result).
    rbind (get_encoded E key st) (\<lambda>v. rbind (parse_string now v) f)
      = (case seen now s of None \<Rightarrow> f None | Some (x, et) \<Rightarrow> f (Some (string_parsed x ct et)))"
proof (cases s)
  case None
  then show ?thesis
    using assms by (intro that [of 0]) (simp add: get_encoded_ok holds_def seen_def del: cf_name.simps)
next
  case (Some y)
  then obtain x et ct where "s = Some (x, et)" "fits x"
      "meta_at (contents_of view st) key = Some (string_bytes x ct et)"
    using assms(2) by (cases y) (auto simp: holds_def)
  then show ?thesis
    using assms(1) by (intro that [of ct]) (simp add: get_encoded_ok seen_def del: cf_name.simps)
qed

lemma existing_holds:
  assumes "instance_ok E view st" "holds (contents_of view st) key s"
  obtains ct where "existing_string E clk key st
    = Inr (case seen (clk 0) s of None \<Rightarrow> (None, clk 1, 0) | Some (x, et) \<Rightarrow> (Some x, ct, et))"
proof (cases s)
  case None
  then show ?thesis
    using assms by (intro that) (simp add: existing_string_def get_encoded_ok holds_def seen_def del: cf_name.simps)
next
  case (Some y)
  then obtain x et ct where "s = Some (x, et)" "fits x"
      "meta_at (contents_of view st) key = Some (string_bytes x ct et)"
    using assms(2) by (cases y) (auto simp: holds_def)
  then show ?thesis
    using assms(1)
    by (intro that [of ct]) (simp add: existing_string_def get_encoded_ok seen_def del: cf_name.simps)
qed

lemma put_string_ends:
  assumes ok: "instance_ok E view st" and "string_value_encode v = string_bytes x ct et" "fits x"
  shows "ends E view key st (obind (put_string E key v) (\<lambda>_. oreturn r) st) r (\<lambda>V. holds V key (Some (x, et)))"
proof -
  have "ends E view key st (write_ops E [BPut MetaCF (base_key_bytes key) (string_bytes x ct et)] st) ()
      (\<lambda>V. holds V key (Some (x, et)))"
    using assms(3) by (intro write_then_return [OF ok]) (auto simp: holds_def simp del: cf_name.simps)
  moreover have "put_string E key v = write_ops E [BPut MetaCF (base_key_bytes key) (string_bytes x ct et)]"
    by (simp add: put_string_def string_key_def assms(2) fun_eq_iff)
  ultimately show ?thesis
    by (auto simp: ends_def obind_def oreturn_def)
qed

lemma put_string_ends_unit:
  assumes "instance_ok E view st" and "string_value_encode v = string_bytes x ct et" "fits x"
  shows "ends E view key st (put_string E key v st) () (\<lambda>V. holds V key (Some (x, et)))"
proof -
  have "obind (put_string E key v) (\<lambda>_. oreturn ()) st = put_string E key v st"
    by (cases "put_string E key v st") (auto simp: obind_def oreturn_def split: sum.split)
  then show ?thesis
    using put_string_ends [OF assms, of key "()"] by simp
qed

lemma usize_as_i32_fits: "n \<le> I32_MAX \<Longrightarrow> usize_as_i32 n = int n"
  by (simp add: usize_as_i32_def signed_of_nat signed_take_bit_int_eq_self)

section \<open>Reads\<close>

text \<open>The bytes between two inclusive offsets, as \<open>getrange\<close> normalises them.\<close>

definition byte_range :: "bytes \<Rightarrow> int \<Rightarrow> int \<Rightarrow> bytes" where
  "byte_range x a b =
     (let n = int (length x); i = (if a < 0 then max (n + a) 0 else a);
          j = (if b < 0 then max (n + b) 0 else b) in
      if a < 0 \<and> b < 0 \<and> b < a then [] else take (nat (j + 1) - nat i) (drop (nat i) x))"

lemma seen_fits: "holds V key s \<Longrightarrow> seen now s = Some (x, et) \<Longrightarrow> fits x"
  by (auto simp: seen_def holds_def split: option.splits if_splits)

definition not_found :: "bytes \<Rightarrow> error" where
  "not_found key = KeyNotFound (from_utf8_lossy key)"

lemma getrange_slice:
  assumes "x \<noteq> []" and "\<not> (a < 0 \<and> b < 0 \<and> b < a)"
  shows "(let len = int (length x); start_idx = min (getrange_normalize len a) len;
              end_idx = min (getrange_normalize len b) (len - 1) in
          if end_idx < start_idx then Inr [] else slice x (nat start_idx) (nat (end_idx + 1)))
    = Inr (byte_range x a b)"
proof -
  define i where "i = getrange_normalize (int (length x)) a"
  define j where "j = getrange_normalize (int (length x)) b"
  have nonneg: "0 \<le> i" "0 \<le> j"
    by (auto simp: i_def j_def getrange_normalize_def)
  have br: "byte_range x a b = take (nat (j + 1) - nat i) (drop (nat i) x)"
    unfolding byte_range_def i_def j_def getrange_normalize_def Let_def using assms(2) by (simp only: if_False)
  show ?thesis
  proof (cases "min j (int (length x) - 1) < min i (int (length x))")
    case True
    then have "nat (j + 1) - nat i = 0 \<or> length x \<le> nat i"
      using nonneg by (auto simp: min_def split: if_splits)
    then have "byte_range x a b = []"
      unfolding br by auto
    then show ?thesis
      using True by (simp add: i_def j_def Let_def)
  next
    case False
    have "0 < int (length x)"
      using assms(1) by simp
    then have i: "nat i < length x" "min i (int (length x)) = i" "nat i \<le> nat (min j (int (length x) - 1) + 1)"
      "nat (min j (int (length x) - 1) + 1) \<le> length x"
      using False nonneg by (auto simp: min_def split: if_splits)
    have "slice x (nat i) (nat (min j (int (length x) - 1) + 1))
        = Inr (take (nat (min j (int (length x) - 1) + 1) - nat i) (drop (nat i) x))"
      using i by (simp add: slice_def)
    also have "take (nat (min j (int (length x) - 1) + 1) - nat i) (drop (nat i) x) = byte_range x a b"
      unfolding br using nonneg by (auto simp: min_def)
    finally show ?thesis
      unfolding Let_def i_def [symmetric] j_def [symmetric] using False by (simp only: if_False i(2))
  qed
qed

lemma string_reads:
  assumes "instance_ok E view st" and S: "holds (contents_of view st) key s"
  shows "strlen E clk key st = Inr (case seen (clk 0) s of None \<Rightarrow> 0 | Some (x, _) \<Rightarrow> int (length x))"
    and "getrange E clk key a b st
      = Inr (case seen (clk 0) s of None \<Rightarrow> [] | Some (x, _) \<Rightarrow> byte_range x a b)"
    and "redis_get_binary E clk key st
      = (case seen (clk 0) s of None \<Rightarrow> Inl (not_found key) | Some (x, _) \<Rightarrow> Inr x)"
    and "redis_get E clk key st
      = (case seen (clk 0) s of None \<Rightarrow> Inl (not_found key) | Some (x, _) \<Rightarrow> Inr (from_utf8_lossy x))"
proof -
  obtain ct where ct: "\<And>now (f :: parsed_internal_value option \<Rightarrow> int result).
      rbind (get_encoded E key st) (\<lambda>v. rbind (parse_string now v) f)
      = (case seen now s of None \<Rightarrow> f None | Some (x, et) \<Rightarrow> f (Some (string_parsed x ct et)))"
    by (rule parse_holds [OF assms]) blast
  show "strlen E clk key st = Inr (case seen (clk 0) s of None \<Rightarrow> 0 | Some (x, _) \<Rightarrow> int (length x))"
    unfolding strlen_def ct using seen_fits [OF S]
    by (auto simp: usize_as_i32_fits fits_def split: option.split)
next
  obtain ct where ct: "\<And>now (f :: parsed_internal_value option \<Rightarrow> bytes result).
      rbind (get_encoded E key st) (\<lambda>v. rbind (parse_string now v) f)
      = (case seen now s of None \<Rightarrow> f None | Some (x, et) \<Rightarrow> f (Some (string_parsed x ct et)))"
    by (rule parse_holds [OF assms]) blast
  have "(if length x = 0 then Inr [] else if a < 0 \<and> b < 0 \<and> b < a then Inr [] else
      let len = int (length x); start_idx = min (getrange_normalize len a) len;
          end_idx = min (getrange_normalize len b) (len - 1) in
      if end_idx < start_idx then Inr [] else slice x (nat start_idx) (nat (end_idx + 1)))
    = Inr (byte_range x a b)" for x
    using getrange_slice [of x a b] by (simp add: byte_range_def)
  then show "getrange E clk key a b st
      = Inr (case seen (clk 0) s of None \<Rightarrow> [] | Some (x, _) \<Rightarrow> byte_range x a b)"
    unfolding getrange_def ct by (simp split: option.split)
  show "redis_get_binary E clk key st
      = (case seen (clk 0) s of None \<Rightarrow> Inl (not_found key) | Some (x, _) \<Rightarrow> Inr x)"
    unfolding redis_get_binary_def ct by (simp add: not_found_def split: option.split)
  show "redis_get E clk key st
      = (case seen (clk 0) s of None \<Rightarrow> Inl (not_found key) | Some (x, _) \<Rightarrow> Inr (from_utf8_lossy x))"
    unfolding redis_get_def ct by (simp add: not_found_def split: option.split)
qed

section \<open>Writes\<close>

text \<open>The string after \<open>v\<close> has been written at offset \<open>n\<close>, zero bytes filling a gap.\<close>

definition overwrite :: "nat \<Rightarrow> bytes \<Rightarrow> bytes \<Rightarrow> bytes" where
  "overwrite n v x = take n (x @ replicate (n - length x) 0) @ v @ drop (n + length v) x"

definition value_of :: "(bytes \<times> u64) option \<Rightarrow> bytes" where
  "value_of s = (case s of Some (x, _) \<Rightarrow> x | None \<Rightarrow> [])"

definition expiry_of :: "(bytes \<times> u64) option \<Rightarrow> u64" where
  "expiry_of s = (case s of Some (_, et) \<Rightarrow> et | None \<Rightarrow> 0)"

lemma value_of_fits: "holds V key s \<Longrightarrow> fits (value_of (seen now s))"
  using seen_fits [of V key s now] by (auto simp: value_of_def fits_def split: option.split)

lemma unwrap_existing: "(case map_option fst s of Some u \<Rightarrow> u | None \<Rightarrow> []) = value_of s"
  by (auto simp: value_of_def split: option.split)

lemma existing_obtain:
  assumes "instance_ok E view st" "holds (contents_of view st) key s"
  obtains ct where "existing_string E clk key st
    = Inr (map_option fst (seen (clk 0) s), ct, expiry_of (seen (clk 0) s))"
proof -
  obtain ct where ct: "existing_string E clk key st
      = Inr (case seen (clk 0) s of None \<Rightarrow> (None, clk 1, 0) | Some (x, et) \<Rightarrow> (Some x, ct, et))"
    using existing_holds [OF assms] .
  show thesis
    by (rule that [of "case seen (clk 0) s of None \<Rightarrow> clk 1 | Some _ \<Rightarrow> ct"])
      (auto simp: ct expiry_of_def split: option.split)
qed

lemma length_overwrite: "length (overwrite n v x) = max (n + length v) (length x)"
  by (simp add: overwrite_def)

lemma copy_range_overwrite:
  assumes "n + length v \<le> I32_MAX"
  shows "(let new = (if length x < n then vec_resize x n else x);
              new = (if length new < n + length v then vec_resize new (n + length v) else new) in
          copy_range new n (n + length v) v)
    = Inr (overwrite n v x)"
proof -
  define y where "y = (if length x < n then vec_resize x n else x)"
  have y: "y = x @ replicate (n - length x) 0"
    by (simp add: y_def vec_resize_def)
  define z where "z = (if length y < n + length v then vec_resize y (n + length v) else y)"
  have z: "z = y @ replicate (n + length v - length y) 0"
    by (simp add: z_def vec_resize_def)
  have "copy_range z n (n + length v) v = Inr (take n z @ v @ drop (n + length v) z)"
    using z by (simp add: copy_range_def)
  moreover have "take n z = take n y"
    using y z by simp
  moreover have "drop (n + length v) z = drop (n + length v) x"
    using y z by (cases "length x < n") (auto simp: not_less)
  ultimately show ?thesis
    unfolding y_def [symmetric] z_def [symmetric] Let_def overwrite_def using y by simp
qed

lemma setrange_ends:
  assumes ok: "instance_ok E view st" and S: "holds (contents_of view st) key s"
    and "0 \<le> offset" and "nat offset + length v \<le> I32_MAX"
    and "\<not> (v = [] \<and> nat offset \<le> length (value_of (seen (clk 0) s)))"
  shows "ends E view key st (setrange_with_outcome E clk key offset v st)
    (int (length (overwrite (nat offset) v (value_of (seen (clk 0) s)))), True)
    (\<lambda>V. holds V key (Some (overwrite (nat offset) v (value_of (seen (clk 0) s)), expiry_of (seen (clk 0) s))))"
proof -
  let ?x = "value_of (seen (clk 0) s)" and ?et = "expiry_of (seen (clk 0) s)"
  define w where "w = overwrite (nat offset) v ?x"
  obtain ct' where ex: "existing_string E clk key st
      = Inr (map_option fst (seen (clk 0) s), ct', ?et)"
    using existing_obtain [OF ok S] .
  have fits: "fits ?x" "fits w"
    using value_of_fits [OF S, of "clk 0"] assms(4) by (auto simp: fits_def w_def length_overwrite)
  have len: "usize_add (nat offset) (length v) = nat offset + length v"
    using assms(4) by (simp add: usize_add_small)
  have stay: "\<not> (v = [] \<and> offset \<le> usize_as_i32 (length ?x))"
    using assms(3,5) fits by (auto simp: usize_as_i32_fits fits_def nat_le_iff)
  have range: "\<not> (offset < 0 \<or> int I32_MAX < offset)"
    using assms(3,4) by auto
  have "setrange_with_outcome E clk key offset v st
      = obind (put_string E key ((string_value_new (clk 2) w)\<lparr>iv_ctime := ct', iv_etime := ?et\<rparr>))
          (\<lambda>_. oreturn (usize_as_i32 (length w), True)) st"
  proof -
    note cr = copy_range_overwrite [OF assms(4), of ?x, unfolded Let_def, folded w_def]
    show ?thesis
      unfolding setrange_with_outcome_def ex obind_olift_Inr prod.case unwrap_existing Let_def len
      using range stay assms(4) by (simp only: if_False not_less [symmetric] obind_olift_Inr simp_thms cr)
  qed
  also have "ends E view key st \<dots> (usize_as_i32 (length w), True) (\<lambda>V. holds V key (Some (w, ?et)))"
    by (rule put_string_ends [OF ok string_value_encode_bytes(1) fits(2)])
  finally show ?thesis
    using fits(2) by (simp add: usize_as_i32_fits fits_def w_def)
qed

lemma setrange_stays:
  assumes ok: "instance_ok E view st" and S: "holds (contents_of view st) key s"
    and "0 \<le> offset" and "nat offset \<le> length (value_of (seen (clk 0) s))"
  shows "setrange_with_outcome E clk key offset [] st
    = (Inr (int (length (value_of (seen (clk 0) s))), False), st)"
proof -
  let ?x = "value_of (seen (clk 0) s)"
  obtain ct where ex: "existing_string E clk key st
      = Inr (map_option fst (seen (clk 0) s), ct, expiry_of (seen (clk 0) s))"
    using existing_obtain [OF ok S] .
  have x: "usize_as_i32 (length ?x) = int (length ?x)" "length ?x \<le> I32_MAX"
    using value_of_fits [OF S, of "clk 0"] by (simp_all add: fits_def usize_as_i32_fits)
  then have "\<not> (offset < 0 \<or> int I32_MAX < offset)" "offset \<le> int (length ?x)"
    using assms(3,4) by (auto simp: nat_le_iff)
  then show ?thesis
    unfolding setrange_with_outcome_def ex obind_olift_Inr prod.case unwrap_existing Let_def x(1)
    by (simp only: if_False if_True simp_thms oreturn_apply)
qed

lemma redis_append_unfold:
  assumes "instance_ok E view st" "holds (contents_of view st) key s"
  obtains ct where "redis_append E clk key v st
    = (let w = value_of (seen (clk 0) s) @ v in
       if I32_MAX < length w then olift (Inl (RedisErr ''string exceeds maximum allowed size'')) else
       obind (put_string E key ((string_value_new (clk 2) w)\<lparr>iv_ctime := ct, iv_etime := expiry_of (seen (clk 0) s)\<rparr>))
         (\<lambda>_. oreturn (usize_as_i32 (length w)))) st"
proof -
  obtain ct where ex: "existing_string E clk key st
      = Inr (map_option fst (seen (clk 0) s), ct, expiry_of (seen (clk 0) s))"
    using existing_obtain [OF assms] .
  have "(case map_option fst (seen (clk 0) s) of Some u \<Rightarrow> u @ v | None \<Rightarrow> v) = value_of (seen (clk 0) s) @ v"
    by (auto simp: value_of_def split: option.split)
  then show thesis
    by (intro that [of ct]) (simp only: redis_append_def ex obind_olift_Inr prod.case)
qed

lemma redis_append_ends:
  assumes ok: "instance_ok E view st" and S: "holds (contents_of view st) key s"
    and "length (value_of (seen (clk 0) s) @ v) \<le> I32_MAX"
  shows "ends E view key st (redis_append E clk key v st) (int (length (value_of (seen (clk 0) s) @ v)))
    (\<lambda>V. holds V key (Some (value_of (seen (clk 0) s) @ v, expiry_of (seen (clk 0) s))))"
proof -
  let ?w = "value_of (seen (clk 0) s) @ v"
  obtain ct where U: "redis_append E clk key v st
    = (let w = ?w in
       if I32_MAX < length w then olift (Inl (RedisErr ''string exceeds maximum allowed size'')) else
       obind (put_string E key ((string_value_new (clk 2) w)\<lparr>iv_ctime := ct, iv_etime := expiry_of (seen (clk 0) s)\<rparr>))
         (\<lambda>_. oreturn (usize_as_i32 (length w)))) st"
    by (rule redis_append_unfold [OF ok S])
  have "fits ?w"
    using assms(3) by (simp only: fits_def)
  then show ?thesis
    unfolding U Let_def usize_as_i32_fits [OF assms(3)] if_not_P [OF leD [OF assms(3)]]
    by (rule put_string_ends [OF ok string_value_encode_bytes(1)])
qed

lemma redis_append_too_long:
  assumes "instance_ok E view st" and "holds (contents_of view st) key s"
    and "I32_MAX < length (value_of (seen (clk 0) s) @ v)"
  shows "redis_append E clk key v st = (Inl (RedisErr ''string exceeds maximum allowed size''), st)"
proof -
  obtain ct where U: "redis_append E clk key v st
    = (let w = value_of (seen (clk 0) s) @ v in
       if I32_MAX < length w then olift (Inl (RedisErr ''string exceeds maximum allowed size'')) else
       obind (put_string E key ((string_value_new (clk 2) w)\<lparr>iv_ctime := ct, iv_etime := expiry_of (seen (clk 0) s)\<rparr>))
         (\<lambda>_. oreturn (usize_as_i32 (length w)))) st"
    by (rule redis_append_unfold [OF assms(1,2)])
  show ?thesis
    unfolding U Let_def if_P [OF assms(3)] by (rule olift_apply)
qed

lemma redis_set_ends:
  assumes "instance_ok E view st" and "fits v"
  shows "ends E view key st (redis_set E clk key v st) () (\<lambda>V. holds V key (Some (v, 0)))"
  unfolding redis_set_def by (rule put_string_ends_unit [OF assms(1) string_value_encode_bytes(3) assms(2)])

text \<open>The expiry of SETEX and PSETEX, in microseconds of the clock.\<close>

definition after :: "u64 \<Rightarrow> nat \<Rightarrow> u64 result" where
  "after now ttl =
     (if unat now + ttl < 2 ^ 64 then Inr (now + word_of_nat ttl)
      else Inl (InvalidFormat ''Timestamp overflow when calculating relative etime''))"

definition setex_deadline :: "u64 \<Rightarrow> i64 \<Rightarrow> u64 result" where
  "setex_deadline now seconds =
     (if seconds \<le> 0 then Inl (RedisErr ''ERR invalid expire time in setex'')
      else if 2 ^ 64 \<le> nat seconds * 1000000
      then Inl (InvalidFormat ''TTL overflow when converting to microseconds'')
      else after now (nat seconds * 1000000))"

definition psetex_deadline :: "u64 \<Rightarrow> i64 \<Rightarrow> u64 result" where
  "psetex_deadline now milliseconds =
     (if milliseconds \<le> 0 then Inl (RedisErr ''ERR invalid expire time in psetex'')
      else if 2 ^ 64 \<le> nat milliseconds * 1000 then Inr (- 1)
      else after now (nat milliseconds * 1000))"

lemma checked_mul_i64:
  assumes "0 < n" "n < 2 ^ 63" "k < 2 ^ 64"
  shows "checked_mul_u64 (i64_as_u64 n) (word_of_nat k :: u64)
    = (if nat n * k < 2 ^ 64 then Some (word_of_nat (nat n * k)) else None)"
proof -
  have w: "i64_as_u64 n = word_of_nat (nat n)"
    using assms by (simp add: i64_as_u64_def)
  have "nat n < 2 ^ 64"
    using assms(1,2) by (simp add: nat_less_iff)
  then have "unat (word_of_nat (nat n) :: u64) = nat n" "unat (word_of_nat k :: u64) = k"
    using assms(3) unat_of_nat_u64 by blast+
  then show ?thesis
    unfolding w checked_mul_u64_def by (simp only: of_nat_mult)
qed

lemma relative_etime_after:
  "t < 2 ^ 64 \<Longrightarrow> obind (olift (iv_set_relative_etime now (word_of_nat t) v)) f st
     = obind (olift (after now t)) (\<lambda>et. f (v\<lparr>iv_etime := et\<rparr>)) st"
  by (simp add: iv_set_relative_etime_def checked_add_u64_def after_def unat_of_nat)

lemma setex_eq:
  assumes "in_i64 n"
  shows "setex E clk key n v st = obind (olift (setex_deadline (clk 3) n))
    (\<lambda>et. put_string E key ((string_value_new (clk 2) v)\<lparr>iv_etime := et\<rparr>)) st"
proof (cases "n \<le> 0")
  case True
  then show ?thesis by (simp add: setex_def setex_deadline_def)
next
  case False
  define t where "t = nat n * 1000000"
  have mul: "checked_mul_u64 (i64_as_u64 n) 1000000 = (if t < 2 ^ 64 then Some (word_of_nat t) else None)"
    using checked_mul_i64 [of n 1000000] False assms by (simp add: in_i64_def t_def)
  show ?thesis
  proof (cases "t < 2 ^ 64")
    case t: True
    then have "\<not> 2 ^ 64 \<le> t" by simp
    then show ?thesis
      unfolding setex_def setex_deadline_def mul t_def [symmetric] if_not_P [OF False] if_P [OF t]
        option.case obind_olift_Inr relative_etime_after [OF t] by (simp only: if_False)
  next
    case t: False
    then have "2 ^ 64 \<le> t" by simp
    then show ?thesis
      unfolding setex_def setex_deadline_def mul t_def [symmetric] if_not_P [OF False] if_not_P [OF t]
        option.case by (simp only: if_True obind_olift_Inl obind_olift_Inr)
  qed
qed

lemma psetex_eq:
  assumes "in_i64 n"
  shows "psetex E clk key n v st = obind (olift (psetex_deadline (clk 3) n))
    (\<lambda>et. put_string E key ((string_value_new (clk 2) v)\<lparr>iv_etime := et\<rparr>)) st"
proof (cases "n \<le> 0")
  case True
  then show ?thesis by (simp add: psetex_def psetex_deadline_def)
next
  case False
  define t where "t = nat n * 1000"
  have mul: "checked_mul_u64 (i64_as_u64 n) 1000 = (if t < 2 ^ 64 then Some (word_of_nat t) else None)"
    using checked_mul_i64 [of n 1000] False assms by (simp add: in_i64_def t_def)
  show ?thesis
  proof (cases "t < 2 ^ 64")
    case t: True
    then have "\<not> 2 ^ 64 \<le> t" by simp
    then show ?thesis
      unfolding psetex_def psetex_deadline_def mul t_def [symmetric] if_not_P [OF False] if_P [OF t]
        option.case obind_olift_Inr relative_etime_after [OF t] by (simp only: if_False)
  next
    case t: False
    then have "2 ^ 64 \<le> t" by simp
    then show ?thesis
      unfolding psetex_def psetex_deadline_def mul t_def [symmetric] if_not_P [OF False] if_not_P [OF t]
        option.case by (simp only: if_True obind_olift_Inl obind_olift_Inr)
  qed
qed

text \<open>A write of a string whose expiry may be refused.\<close>

definition leaves ::
  "('db, 'c) env \<Rightarrow> ('db \<Rightarrow> contents) \<Rightarrow> bytes \<Rightarrow> ('db, 'c) redis \<Rightarrow> 'a result \<times> ('db, 'c) redis
     \<Rightarrow> 'a result \<Rightarrow> (bytes \<times> u64) option \<Rightarrow> bool" where
  "leaves E view key st out r s \<longleftrightarrow>
     (case r of Inl e \<Rightarrow> out = (Inl e, st)
              | Inr x \<Rightarrow> ends E view key st out x (\<lambda>V. holds V key s))"

lemma deadline_leaves:
  assumes "instance_ok E view st" and "fits v"
  shows "leaves E view key st
    (obind (olift d) (\<lambda>et. put_string E key ((string_value_new now v)\<lparr>iv_etime := et\<rparr>)) st)
    (map_sum id (\<lambda>_. ()) d) (Some (v, projr d))"
  using put_string_ends_unit [OF assms(1) string_value_encode_bytes(2) assms(2)]
  by (cases d) (simp_all add: leaves_def)

lemma getset_ends:
  assumes ok: "instance_ok E view st" and S: "holds (contents_of view st) key s" and "fits v"
  shows "ends E view key st (getset E clk key v st)
    (map_option (\<lambda>(x, _). from_utf8_lossy x) (seen (clk 0) s)) (\<lambda>V. holds V key (Some (v, 0)))"
proof -
  let ?r = "map_option (\<lambda>(x, _). from_utf8_lossy x) (seen (clk 0) s)"
  have get: "rbind (redis_db st) (\<lambda>db. rbind (string_key key) (db_get E db))
      = Inr (meta_at (contents_of view st) key)"
    using redis_db_ok [OF ok] db_get_ok(1) [OF ok] by (simp add: string_key_def del: cf_name.simps)
  have old: "(case meta_at (contents_of view st) key of
        None \<Rightarrow> Inr None
      | Some val \<Rightarrow> rbind (parse_string (clk 0) val) (\<lambda>p.
          case p of None \<Rightarrow> Inr None | Some p \<Rightarrow> rbind (pv_user_value p) (\<lambda>u. Inr (Some (from_utf8_lossy u)))))
      = Inr ?r"
    using S by (auto simp: holds_def seen_def split: option.splits)
  have "getset E clk key v st = obind (put_string E key (string_value_new (clk 2) v)) (\<lambda>_. oreturn ?r) st"
    unfolding getset_def get obind_olift_Inr old ..
  then show ?thesis
    using put_string_ends [OF ok string_value_encode_bytes(3) assms(3)] by simp
qed

text \<open>The value a counter has, and the one it gets.\<close>

definition counter_of :: "(bytes \<times> u64) option \<Rightarrow> i64 result" where
  "counter_of s =
     (case s of
        None \<Rightarrow> Inr 0
      | Some (x, _) \<Rightarrow>
        (case parse_i64 (from_utf8_lossy x) of
           Some n \<Rightarrow> Inr n
         | None \<Rightarrow> Inl (RedisErr ''value is not an integer or out of range'')))"

definition incremented :: "i64 \<Rightarrow> (bytes \<times> u64) option \<Rightarrow> i64 result" where
  "incremented i s =
     rbind (counter_of s) (\<lambda>n.
     if in_i64 (n + i) then Inr (n + i)
     else Inl (RedisErr ''increment or decrement would overflow''))"

lemma counter_existing:
  "(case map_option fst s of
      None \<Rightarrow> Inr 0
    | Some u \<Rightarrow> (case parse_i64 (from_utf8_lossy u) of
        Some v \<Rightarrow> Inr v | None \<Rightarrow> Inl (RedisErr ''value is not an integer or out of range'')))
   = counter_of s"
  by (auto simp: counter_of_def split: option.split)

lemma incr_decr_leaves:
  assumes ok: "instance_ok E view st" and S: "holds (contents_of view st) key s"
  shows "leaves E view key st (incr_decr E clk key i st) (incremented i (seen (clk 0) s))
    (Some (int_to_text (projr (incremented i (seen (clk 0) s))), expiry_of (seen (clk 0) s)))"
proof -
  obtain ct where ex: "existing_string E clk key st
      = Inr (map_option fst (seen (clk 0) s), ct, expiry_of (seen (clk 0) s))"
    using existing_obtain [OF ok S] .
  have range: "(m < - (2 ^ 63) \<or> 2 ^ 63 \<le> m) \<longleftrightarrow> \<not> in_i64 m" for m
    by (auto simp: in_i64_def)
  have eq: "incr_decr E clk key i st = obind (olift (counter_of (seen (clk 0) s))) (\<lambda>n.
      if \<not> in_i64 (n + i) then olift (Inl (RedisErr ''increment or decrement would overflow'')) else
      obind (put_string E key ((string_value_new (clk 2) (int_to_text (n + i)))
              \<lparr>iv_ctime := ct, iv_etime := expiry_of (seen (clk 0) s)\<rparr>)) (\<lambda>_. oreturn (n + i))) st"
    unfolding incr_decr_def ex obind_olift_Inr prod.case counter_existing range ..
  show ?thesis
  proof (cases "incremented i (seen (clk 0) s)")
    case (Inl e)
    then show ?thesis
      unfolding eq by (cases "counter_of (seen (clk 0) s)")
        (auto simp: incremented_def leaves_def olift_apply split: if_splits)
  next
    case (Inr m)
    then obtain n where n: "counter_of (seen (clk 0) s) = Inr n" "in_i64 (n + i)" "m = n + i"
      by (auto simp: incremented_def rbind_eq_Inr split: if_splits)
    have "fits (int_to_text m)"
      using length_int_to_text [of m] n(2,3) by (simp add: fits_def in_i64_def)
    then show ?thesis
      using put_string_ends [OF ok string_value_encode_bytes(1)] n Inr
      unfolding eq leaves_def by simp
  qed
qed

section \<open>Bits\<close>

text \<open>Bit \<open>i\<close> of a string, counted from the most significant bit of its first byte.\<close>

definition bit_at :: "bytes \<Rightarrow> nat \<Rightarrow> bool" where
  "bit_at x i \<longleftrightarrow> i div 8 < length x \<and> bit (x ! (i div 8)) (7 - i mod 8)"

definition with_bit :: "nat \<Rightarrow> bool \<Rightarrow> bytes \<Rightarrow> bytes" where
  "with_bit i b x =
     (let y = x @ replicate (i div 8 + 1 - length x) 0;
          m = push_bit (7 - i mod 8) 1 in
      y[i div 8 := (if b then y ! (i div 8) OR m else y ! (i div 8) AND NOT m)])"

lemma and_mask_nonzero: "n < 8 \<Longrightarrow> (w :: byte) AND push_bit n 1 \<noteq> 0 \<longleftrightarrow> bit w n"
  by (simp add: push_bit_of_1 and_exp_eq_0_iff_not_bit)

lemma length_with_bit: "length (with_bit i b x) = max (length x) (i div 8 + 1)"
  by (simp add: with_bit_def Let_def)

text \<open>Writing a bit changes that bit alone; bits behind the end of a string are zero.\<close>

lemma bit_at_with_bit: "bit_at (with_bit i b x) j \<longleftrightarrow> (if j = i then b else bit_at x j)"
proof -
  define y where "y = x @ replicate (i div 8 + 1 - length x) (0 :: byte)"
  have y: "bit_at y k \<longleftrightarrow> bit_at x k" for k
    by (auto simp: bit_at_def y_def nth_append)
  have len: "i div 8 < length y"
    by (simp add: y_def)
  let ?m = "push_bit (7 - i mod 8) 1 :: byte"
  let ?w = "if b then y ! (i div 8) OR ?m else y ! (i div 8) AND NOT ?m"
  have with_bit: "with_bit i b x = y[i div 8 := ?w]"
    by (simp add: with_bit_def y_def Let_def)
  show ?thesis
  proof (cases "j div 8 = i div 8")
    case True
    have "j = i \<longleftrightarrow> 7 - j mod 8 = 7 - i mod 8"
    proof -
      have "j mod 8 \<le> 7" "i mod 8 \<le> 7" by simp_all
      then have "7 - j mod 8 = 7 - i mod 8 \<longleftrightarrow> j mod 8 = i mod 8" by linarith
      then show ?thesis using True by (metis div_mult_mod_eq)
    qed
    moreover have "bit ?w (7 - j mod 8) \<longleftrightarrow> (if 7 - j mod 8 = 7 - i mod 8 then b else bit (y ! (i div 8)) (7 - j mod 8))"
      by (auto simp: bit_simps)
    ultimately show ?thesis
      using len True y [of j] by (auto simp: with_bit bit_at_def)
  next
    case False
    then show ?thesis
      using y [of j] by (auto simp: with_bit bit_at_def)
  qed
qed

definition bit_offset_ok :: "i64 \<Rightarrow> bool" where
  "bit_offset_ok offset \<longleftrightarrow> 0 \<le> offset \<and> offset \<le> 2 ^ 32 - 1"

lemma nat_div_mod_8: "0 \<le> (o' :: int) \<Longrightarrow> nat (o' div 8) = nat o' div 8 \<and> nat (o' mod 8) = nat o' mod 8"
  by (simp add: nat_div_distrib nat_mod_distrib)

lemma masked_bit:
  assumes "0 \<le> offset" and "nat offset div 8 < length x"
  shows "x ! nat (offset div 8) AND bit_mask offset \<noteq> 0 \<longleftrightarrow> bit_at x (nat offset)"
  using nat_div_mod_8 [OF assms(1)] assms(2) and_mask_nonzero [of "7 - nat offset mod 8"]
  by (simp add: bit_mask_def bit_at_def)

lemma getbit_holds:
  assumes ok: "instance_ok E view st" and S: "holds (contents_of view st) key s"
  shows "getbit E clk key offset st
    = (if bit_offset_ok offset then Inr (if bit_at (value_of (seen (clk 0) s)) (nat offset) then 1 else 0)
       else Inl bit_offset_error)"
proof (cases "bit_offset_ok offset")
  case True
  then have o: "0 \<le> offset" "\<not> (offset < 0 \<or> 2 ^ 32 - 1 < offset)"
    by (auto simp: bit_offset_ok_def)
  obtain ct where ct: "\<And>now (f :: parsed_internal_value option \<Rightarrow> int result).
      rbind (get_encoded E key st) (\<lambda>v. rbind (parse_string now v) f)
      = (case seen now s of None \<Rightarrow> f None | Some (x, et) \<Rightarrow> f (Some (string_parsed x ct et)))"
    by (rule parse_holds [OF assms]) blast
  have no: "\<not> bit_at [] i" for i
    by (simp add: bit_at_def)
  have eq: "(let byte_offset = nat (offset div 8) in
      if length x \<le> byte_offset then Inr 0 else
      Inr (if x ! byte_offset AND bit_mask offset \<noteq> 0 then 1 else 0))
    = Inr (if bit_at x (nat offset) then 1 else 0 :: int)" for x
    using masked_bit [OF o(1), of x] nat_div_mod_8 [OF o(1)] by (auto simp: bit_at_def Let_def not_le)
  show ?thesis
    unfolding getbit_def ct if_not_P [OF o(2)] if_P [OF True]
    by (cases "seen (clk 0) s")
      (simp_all only: value_of_def option.case no if_False eq string_parsed_sel rbind_simps split: prod.split, auto)
next
  case False
  then show ?thesis
    by (auto simp: getbit_def bit_offset_ok_def)
qed

lemma setbit_ends:
  assumes ok: "instance_ok E view st" and S: "holds (contents_of view st) key s"
    and o: "bit_offset_ok offset" and b: "b = 0 \<or> b = 1"
  shows "ends E view key st (setbit E clk key offset b st)
    (if bit_at (value_of (seen (clk 0) s)) (nat offset) then 1 else 0)
    (\<lambda>V. holds V key (Some (with_bit (nat offset) (b = 1) (value_of (seen (clk 0) s)), expiry_of (seen (clk 0) s))))"
proof -
  let ?x = "value_of (seen (clk 0) s)"
  obtain ct where ex: "existing_string E clk key st
      = Inr (map_option fst (seen (clk 0) s), ct, expiry_of (seen (clk 0) s))"
    using existing_obtain [OF ok S] .
  have o': "0 \<le> offset" "\<not> offset < 0" "\<not> 2 ^ 32 - 1 < offset"
    using o by (auto simp: bit_offset_ok_def)
  define i where "i = nat offset"
  have i: "nat (offset div 8) = i div 8" "bit_mask offset = push_bit (7 - i mod 8) 1"
    using nat_div_mod_8 [OF o'(1)] by (simp_all add: i_def bit_mask_def)
  define y where "y = (if length ?x \<le> i div 8 then vec_resize ?x (i div 8 + 1) else ?x)"
  have y: "y = ?x @ replicate (i div 8 + 1 - length ?x) 0"
    by (simp add: y_def vec_resize_def)
  then have len: "i div 8 < length y" by simp
  have old: "(if y ! (i div 8) AND push_bit (7 - i mod 8) 1 \<noteq> 0 then 1 else 0 :: int)
      = (if bit_at ?x i then 1 else 0)"
    using and_mask_nonzero [of "7 - i mod 8" "y ! (i div 8)"] len
    by (auto simp: bit_at_def y nth_append)
  have new: "(if b = 1 then y[i div 8 := y ! (i div 8) OR push_bit (7 - i mod 8) 1]
       else y[i div 8 := y ! (i div 8) AND NOT (push_bit (7 - i mod 8) 1)]) = with_bit i (b = 1) ?x"
    by (simp add: with_bit_def y Let_def)
  have fits: "fits (with_bit i (b = 1) ?x)"
  proof -
    have "i div 8 + 1 \<le> I32_MAX"
      using o div_le_mono [of "nat offset" 4294967295 8] by (auto simp: i_def bit_offset_ok_def nat_le_iff)
    then show ?thesis
      using value_of_fits [OF S, of "clk 0"] by (simp add: fits_def length_with_bit)
  qed
  have eq: "setbit E clk key offset b st
      = obind (put_string E key ((string_value_new (clk 2) (with_bit i (b = 1) ?x))
            \<lparr>iv_ctime := ct, iv_etime := expiry_of (seen (clk 0) s)\<rparr>))
          (\<lambda>_. oreturn (if bit_at ?x i then 1 else 0)) st"
    unfolding setbit_def ex obind_olift_Inr prod.case unwrap_existing i if_not_P [OF o'(2)] if_not_P [OF o'(3)]
    using b unfolding Let_def y_def [symmetric] old new by (elim disjE) simp_all
  show ?thesis
    unfolding eq i_def [symmetric] by (rule put_string_ends [OF ok string_value_encode_bytes(1) fits])
qed

lemma setbit_refuses:
  "\<not> bit_offset_ok offset \<Longrightarrow> b = 0 \<or> b = 1 \<Longrightarrow> setbit E clk key offset b st = (Inl bit_offset_error, st)"
  by (auto simp: setbit_def bit_offset_ok_def)

section \<open>Keys\<close>

lemma read_meta_ok:
  assumes "instance_ok E view st"
  shows "read_meta E key st = Inr (meta_at (contents_of view st) key)"
  using redis_db_ok [OF assms] db_get_ok(2) [OF assms] redis_get_cf_handle_ok [OF assms]
  by (simp add: read_meta_def meta_handle_def del: cf_name.simps)

lemma meta_live_string: "fits x \<Longrightarrow> meta_live now (string_bytes x ct et) = Inr (\<not> expired now et)"
  by (simp add: meta_live_def del: data_type_u8.simps)

lemma get_key_type_holds:
  assumes ok: "instance_ok E view st" and S: "holds (contents_of view st) key s"
  shows "get_key_type E clk key st
    = (case seen (clk 0) s of None \<Rightarrow> Inl (not_found key) | Some _ \<Rightarrow> Inr TString)"
  using S unfolding get_key_type_def read_meta_ok [OF ok]
  by (auto simp: holds_def seen_def not_found_def meta_live_string split: option.splits simp del: data_type_u8.simps cf_name.simps)

lemma key_exists_live_holds:
  assumes "instance_ok E view st" and "holds (contents_of view st) key s"
  shows "key_exists_live E clk key st = Inr (seen (clk 0) s \<noteq> None)"
  unfolding key_exists_live_def get_key_type_holds [OF assms]
  by (simp add: not_found_def is_key_not_found_def split: option.split)

lemma setnx_holds:
  assumes ok: "instance_ok E view st" and S: "holds (contents_of view st) key s" and v: "fits v"
  shows "seen (clk 0) s = None \<Longrightarrow>
      ends E view key st (setnx E clk key v st) 1 (\<lambda>V. holds V key (Some (v, 0)))"
    and "seen (clk 0) s \<noteq> None \<Longrightarrow> setnx E clk key v st = (Inr 0, st)"
proof -
  note live = key_exists_live_holds [OF ok S, of clk]
  show "ends E view key st (setnx E clk key v st) 1 (\<lambda>V. holds V key (Some (v, 0)))"
    if "seen (clk 0) s = None"
    using put_string_ends [OF ok string_value_encode_bytes(3) v] that by (simp add: setnx_def live)
  show "setnx E clk key v st = (Inr 0, st)" if "seen (clk 0) s \<noteq> None"
    using that by (auto simp: setnx_def live oreturn_apply)
qed

lemma strings_set_etime_parsed:
  assumes "fits x"
  shows "strings_set_etime t (string_parsed x ct et) = Inr ((string_parsed x ct et)\<lparr>pv_etime := t, pv_value := string_bytes x ct t\<rparr>)"
proof -
  define pre where "pre = [data_type_u8 TString] @ x @ replicate 16 0 @ u64_le ct"
  have bytes: "string_bytes x ct e = pre @ u64_le e" for e
    by (simp add: string_bytes_def pre_def)
  have pre: "length pre = 25 + length x"
    by (simp add: pre_def)
  have "usize_sub (length (string_bytes x ct et)) 32 = 1 + length x"
    using assms by (simp add: bytes pre usize_sub_le fits_def)
  moreover have "usize_add (usize_add (1 + length x) 16) 8 = length pre" "usize_add (length pre) 8 = length pre + 8"
    using assms by (simp_all add: fits_def usize_add_small pre)
  moreover have "copy_range (string_bytes x ct et) (length pre) (length pre + 8) (u64_le t) = Inr (string_bytes x ct t)"
    by (simp add: copy_range_def bytes)
  ultimately show ?thesis
    by (simp add: strings_set_etime_def string_parsed_def Let_def)
qed

lemma set_key_etime_holds:
  assumes ok: "instance_ok E view st" and S: "holds (contents_of view st) key s"
  shows "seen (clk 0) s = Some (x, et) \<Longrightarrow>
      ends E view key st (set_key_etime E clk key t st) True (\<lambda>V. holds V key (Some (x, t)))"
    and "seen (clk 0) s = None \<Longrightarrow> set_key_etime E clk key t st = (Inr False, st)"
proof -
  show "ends E view key st (set_key_etime E clk key t st) True (\<lambda>V. holds V key (Some (x, t)))"
    if seen: "seen (clk 0) s = Some (x, et)"
  proof -
    obtain ct where s: "fits x" "\<not> expired (clk 0) et" "meta_at (contents_of view st) key = Some (string_bytes x ct et)"
      using S seen by (auto simp: holds_def seen_def split: option.splits if_splits)
    have "retimed t (string_bytes x ct et) = Inr (Some (string_bytes x ct t))"
      using s(1) by (simp add: retimed_def strings_set_etime_parsed del: data_type_u8.simps)
    then have eq: "set_key_etime E clk key t st
        = obind (write_ops E [BPut MetaCF (base_key_bytes key) (string_bytes x ct t)]) (\<lambda>_. oreturn True) st"
      using s by (simp add: set_key_etime_def read_meta_ok [OF ok] del: cf_name.simps)
    have "ends E view key st (write_ops E [BPut MetaCF (base_key_bytes key) (string_bytes x ct t)] st) ()
        (\<lambda>V. holds V key (Some (x, t)))"
      using s(1) by (intro write_then_return [OF ok]) (auto simp: holds_def simp del: cf_name.simps)
    then show ?thesis
      unfolding eq by (auto simp: ends_def obind_def oreturn_def)
  qed
  show "set_key_etime E clk key t st = (Inr False, st)" if seen: "seen (clk 0) s = None"
    using S seen unfolding set_key_etime_def read_meta_ok [OF ok]
    by (auto simp: holds_def seen_def oreturn_apply split: option.splits if_splits simp del: cf_name.simps)
qed

lemma key_etime_holds:
  assumes ok: "instance_ok E view st" and S: "holds (contents_of view st) key s"
  shows "key_etime E clk key st = Inr (map_option snd (seen (clk 0) s))"
proof (cases "meta_at (contents_of view st) key")
  case None
  then show ?thesis
    using S by (auto simp: key_etime_def read_meta_ok [OF ok] holds_def seen_def split: option.splits simp del: cf_name.simps)
next
  case (Some b)
  then obtain x et ct where s: "s = Some (x, et)" "fits x" "b = string_bytes x ct et"
    using S by (auto simp: holds_def split: option.splits)
  define pre where "pre = [data_type_u8 TString] @ x @ replicate 16 0 @ u64_le ct"
  have bytes: "string_bytes x ct et = pre @ u64_le et" and pre: "length pre = 25 + length x"
    by (simp_all add: string_bytes_def pre_def)
  have "slice (string_bytes x ct et) (usize_sub (length (string_bytes x ct et)) 8) (length (string_bytes x ct et))
      = Inr (u64_le et)"
    using s(2) unfolding bytes by (simp add: usize_sub_le slice_def fits_def pre)
  then show ?thesis
    using Some s by (simp add: key_etime_def read_meta_ok [OF ok] seen_def del: cf_name.simps)
qed

lemma del_key_holds:
  assumes ok: "instance_ok E view st" and S: "holds (contents_of view st) key s"
  shows "seen (clk 0) s \<noteq> None \<Longrightarrow>
      ends E view key st (del_key E clk key st) True (\<lambda>V. holds V key None)"
    and "seen (clk 0) s = None \<Longrightarrow> del_key E clk key st = (Inr False, st)"
proof -
  show "ends E view key st (del_key E clk key st) True (\<lambda>V. holds V key None)"
    if seen: "seen (clk 0) s \<noteq> None"
  proof -
    obtain x et ct where s: "fits x" "\<not> expired (clk 0) et" "meta_at (contents_of view st) key = Some (string_bytes x ct et)"
      using S seen by (auto simp: holds_def seen_def split: option.splits if_splits)
    then have eq: "del_key E clk key st
        = obind (write_ops E [BDelete MetaCF (base_key_bytes key)]) (\<lambda>_.
          obind (statistics_logged E TString key 1) (\<lambda>_. oreturn True)) st"
      by (simp add: del_key_def read_meta_ok [OF ok] del: cf_name.simps data_type_u8.simps)
    have "statistics_logged E TString key 1 st' = update_specific_key_statistics E TString (from_utf8_lossy key) 1 st'" for st'
      using update_statistics_frame [of E TString "from_utf8_lossy key" 1 st'] by (auto simp: statistics_logged_def)
    then have eq': "statistics_logged E TString key 1 = update_specific_key_statistics E TString (from_utf8_lossy key) 1"
      by (rule ext)
    show ?thesis
      unfolding eq eq' by (rule write_then_statistics [OF ok]) (auto simp: holds_def simp del: cf_name.simps)
  qed
  show "del_key E clk key st = (Inr False, st)" if seen: "seen (clk 0) s = None"
    using S seen unfolding del_key_def read_meta_ok [OF ok]
    by (auto simp: holds_def seen_def oreturn_apply split: option.splits if_splits simp del: cf_name.simps data_type_u8.simps)
qed

end
