(* ===== verification/Strings_Several.thy ===== *)
theory Strings_Several
  imports Strings_Refinement
begin

text \<open>
  The string commands on several keys and on ranges of bits: MGET, MSET and MSETNX, whose batch is
  refused behind the Raft log when its keys lie in different slots, and BITCOUNT, BITPOS and BITOP
  against their meaning for the single bits of a string. The mode of an instance, standalone or behind
  the Raft log, is kept by every command.
\<close>

unbundle bit_operations_syntax

section \<open>The mode of an instance\<close>

text \<open>No command changes whether an instance writes through the Raft log.\<close>

definition keeps_mode :: "(('db, 'c) redis \<Rightarrow> 'a \<times> ('db, 'c) redis) \<Rightarrow> bool" where
  "keeps_mode f \<longleftrightarrow> (\<forall>st. rd_append_log_fn (snd (f st)) = rd_append_log_fn st)"

lemma keeps_modeD: "keeps_mode f \<Longrightarrow> rd_append_log_fn (snd (f st)) = rd_append_log_fn st"
  by (simp add: keeps_mode_def)

named_theorems mode_intros

lemma keeps_mode_olift [mode_intros]: "keeps_mode (olift r)"
  by (simp add: keeps_mode_def olift_def)

lemma keeps_mode_oreturn [mode_intros]: "keeps_mode (oreturn x)"
  by (simp add: keeps_mode_def oreturn_def)

lemma keeps_mode_obind [mode_intros]:
  assumes "keeps_mode m" and "\<And>x. keeps_mode (f x)"
  shows "keeps_mode (obind m f)"
  unfolding keeps_mode_def
proof
  fix st
  show "rd_append_log_fn (snd (obind m f st)) = rd_append_log_fn st"
    using keeps_modeD [OF assms(1), of st] keeps_modeD [OF assms(2)]
    by (auto simp: obind_def split: prod.split sum.split)
qed

lemma keeps_mode_if [mode_intros]: "keeps_mode f \<Longrightarrow> keeps_mode g \<Longrightarrow> keeps_mode (if b then f else g)"
  by simp

lemma keeps_mode_prod [mode_intros]: "(\<And>a b. keeps_mode (f a b)) \<Longrightarrow> keeps_mode (case p of (a, b) \<Rightarrow> f a b)"
  by (simp split: prod.split)

lemma keeps_mode_option [mode_intros]:
  "keeps_mode f \<Longrightarrow> (\<And>x. keeps_mode (g x)) \<Longrightarrow> keeps_mode (case r of None \<Rightarrow> f | Some x \<Rightarrow> g x)"
  by (simp split: option.split)

lemma keeps_mode_commit [mode_intros]: "keeps_mode (commit_batch E b)"
  by (simp add: keeps_mode_def commit_batch_def Let_def split: option.split prod.split)

lemma keeps_mode_write_ops [mode_intros]: "keeps_mode (write_ops E ops)"
proof -
  have "write_ops E ops st
      = obind (olift (rbind (create_batch E st) (add_ops batch_put batch_delete ops))) (commit_batch E) st" for st
    by (simp add: write_ops_def)
  moreover have "keeps_mode (obind (olift r) (commit_batch E))" for r
    by (intro mode_intros)
  ultimately show ?thesis
    by (simp add: keeps_mode_def)
qed

lemma keeps_mode_put_string [mode_intros]: "keeps_mode (put_string E key v)"
  unfolding put_string_def by (intro mode_intros)

lemma keeps_mode_statistics [mode_intros]: "keeps_mode (statistics_logged E dt key n)"
  unfolding keeps_mode_def
proof
  fix st
  obtain s ts where "update_specific_key_statistics E dt (from_utf8_lossy key) n st
      = (Inr (), st\<lparr>rd_statistics_store := s, rd_bg_tasks := ts\<rparr>)"
    using update_statistics_frame [of E dt "from_utf8_lossy key" n st] by (elim exE)
  then show "rd_append_log_fn (snd (statistics_logged E dt key n st)) = rd_append_log_fn st"
    by (simp add: statistics_logged_def)
qed

text \<open>A guard that refuses without touching the state.\<close>

lemma mode_guard:
  "rd_append_log_fn (snd x) = rd_append_log_fn st \<Longrightarrow>
     rd_append_log_fn (snd (if b then (r, st) else x)) = rd_append_log_fn st"
  by simp

lemma setrange_with_outcome_keeps_mode [mode_intros]: "keeps_mode (setrange_with_outcome E clk key i v)"
  unfolding keeps_mode_def setrange_with_outcome_def Let_def
  by (rule allI, rule mode_guard, rule keeps_modeD) (intro mode_intros)

lemma string_writes_keep_mode [mode_intros]:
  "keeps_mode (redis_set E clk key v)" "keeps_mode (setrange E clk key i v)" "keeps_mode (mset E clk kvs)"
  unfolding redis_set_def setrange_def mset_def by (intro mode_intros)+

lemma guarded_writes_keep_mode [mode_intros]:
  "keeps_mode (setex E clk key n v)" "keeps_mode (psetex E clk key n v)" "keeps_mode (setbit E clk key i b)"
  unfolding keeps_mode_def setex_def psetex_def setbit_def Let_def
  by ((rule allI, (rule mode_guard)+, rule keeps_modeD, intro mode_intros)+)

lemma updates_keep_mode [mode_intros]:
  "keeps_mode (setnx E clk key v)" "keeps_mode (getset E clk key v)" "keeps_mode (redis_append E clk key v)"
  "keeps_mode (incr_decr E clk key i)" "keeps_mode (set_key_etime E clk key t)" "keeps_mode (msetnx E clk kvs)"
  unfolding keeps_mode_def setnx_def getset_def redis_append_def incr_decr_def set_key_etime_def
    msetnx_def Let_def
  by ((rule allI, rule keeps_modeD, intro mode_intros)+)

lemma bitop_keeps_mode [mode_intros]: "keeps_mode (bitop E clk opn dest srcs)"
proof -
  have store: "keeps_mode (store_result E clk dest v)" for v
    unfolding store_result_def by (intro mode_intros)
  show ?thesis
    unfolding keeps_mode_def
  proof
    fix st
    show "rd_append_log_fn (snd (bitop E clk opn dest srcs st)) = rd_append_log_fn st"
    proof (cases "bit_operation_of opn")
      case None
      then show ?thesis by (simp add: bitop_def)
    next
      case (Some op)
      show ?thesis
        unfolding bitop_def Some option.case Let_def
        by (rule mode_guard, rule keeps_modeD) (intro mode_intros store)
    qed
  qed
qed

lemma keeps_mode_data_type [mode_intros]:
  assumes "keeps_mode s" "keeps_mode h" "keeps_mode t" "keeps_mode l" "keeps_mode z" "keeps_mode n"
    "keeps_mode a" "keeps_mode v"
  shows "keeps_mode (case dt of TString \<Rightarrow> s | THash \<Rightarrow> h | TSet \<Rightarrow> t | TList \<Rightarrow> l | TZSet \<Rightarrow> z
    | TNone \<Rightarrow> n | TAll \<Rightarrow> a | TVectorSet \<Rightarrow> v)"
  using assms by (cases dt) simp_all

lemma del_key_keeps_mode [mode_intros]: "keeps_mode (del_key E clk key)"
  unfolding keeps_mode_def del_key_def
  by (rule allI, rule keeps_modeD) (intro mode_intros)

lemmas mode_kept =
  string_writes_keep_mode [THEN keeps_modeD] guarded_writes_keep_mode [THEN keeps_modeD]
  updates_keep_mode [THEN keeps_modeD] bitop_keeps_mode [THEN keeps_modeD] del_key_keeps_mode [THEN keeps_modeD]

section \<open>Batches over several keys\<close>

type_synonym strings = "bytes \<Rightarrow> (bytes \<times> u64) option"

definition stores :: "contents \<Rightarrow> strings \<Rightarrow> bool" where
  "stores V A \<longleftrightarrow> (\<forall>k. holds V k (A k))"

text \<open>Keys that one batch may write: any on a standalone instance, those of one slot behind the Raft
  log.\<close>

definition batchable :: "('db, 'c) env \<Rightarrow> ('db, 'c) redis \<Rightarrow> bytes list \<Rightarrow> bool" where
  "batchable E st ks \<longleftrightarrow> rd_append_log_fn st = None
     \<or> (\<forall>k \<in> set ks. \<forall>k' \<in> set ks. key_to_slot_id (en_crc16 E) k = key_to_slot_id (en_crc16 E) k')"

definition crossslot_error :: error where
  "crossslot_error = error.Batch ''CROSSSLOT binlog batch contains multiple slots''"

definition string_put :: "bytes \<times> bytes \<times> u64 \<Rightarrow> batch_op" where
  "string_put = (\<lambda>(k, v, ct). BPut MetaCF (base_key_bytes k) (string_bytes v ct 0))"

lemma mset_ops_puts:
  "mset_ops clk i kvs = Inr (map (\<lambda>(j, k, v). string_put (k, v, clk (4 + j))) (enumerate i kvs))"
  by (induction kvs arbitrary: i) (auto simp: string_key_def string_put_def)

lemma string_put_stores:
  assumes "stores V A" and "fits v"
  shows "stores (apply_op (write_op_of (string_put (k, v, ct))) V) (A(k := Some (v, 0)))"
  unfolding stores_def
proof
  fix k'
  let ?V = "apply_op (write_op_of (string_put (k, v, ct))) V"
  have "frame k V ?V"
    by (rule apply_op_frame) (simp add: string_put_def)
  moreover have "holds ?V k (Some (v, 0))"
    using assms(2) by (auto simp: holds_def string_put_def simp del: cf_name.simps)
  ultimately show "holds ?V k' ((A(k := Some (v, 0))) k')"
    using assms(1) frame_holds [of k V ?V k' "A k'"] by (simp add: stores_def)
qed

text \<open>The strings after MSET: of two values for one key the later one.\<close>

definition mset_state :: "(bytes \<times> bytes) list \<Rightarrow> strings \<Rightarrow> strings" where
  "mset_state kvs A = foldl (\<lambda>A (k, v). A(k := Some (v, 0))) A kvs"

lemma mset_state_simps [simp]:
  "mset_state [] A = A"
  "mset_state ((k, v) # kvs) A = mset_state kvs (A(k := Some (v, 0)))"
  by (simp_all add: mset_state_def)

lemma puts_store:
  assumes "stores V A" and "list_all (fits \<circ> snd) kvs"
  shows "stores (apply_ops (map write_op_of (map (\<lambda>(j, k, v). string_put (k, v, c j)) (enumerate i kvs))) V)
    (mset_state kvs A)"
  using assms
proof (induction kvs arbitrary: i V A)
  case (Cons kv kvs)
  obtain k v where kv: "kv = (k, v)" by (cases kv)
  have "stores (apply_op (write_op_of (string_put (k, v, c i))) V) (A(k := Some (v, 0)))"
    using Cons.prems kv by (intro string_put_stores) auto
  from Cons.IH [OF this, of "Suc i"] Cons.prems(2) show ?case
    by (simp add: kv del: fun_upd_apply)
qed simp

lemma slot_same: "slot_of crc16 k = slot_of crc16 k' \<longleftrightarrow> key_to_slot_id crc16 k = key_to_slot_id crc16 k'"
  using key_to_slot_id_u32 [of crc16 k "slot_of crc16 k'"] key_to_slot_id_u32 [of crc16 k' "slot_of crc16 k'"]
  by (simp add: slot_of_def)

definition put_entry :: "bytes \<times> bytes \<times> u64 \<Rightarrow> binlog_entry" where
  "put_entry = (\<lambda>(k, v, ct). \<lparr>be_cf_idx = cf_u32 MetaCF, be_op_type = Put, be_key = base_key_bytes k,
     be_value = Some (string_bytes v ct 0)\<rparr>)"

lemma infer_loop_puts:
  "infer_slot_idx_loop crc16 (Some s) (map put_entry ps)
    = (if \<forall>p \<in> set ps. slot_of crc16 (fst p) = s then Inr (Some s) else Inl crossslot_error)"
proof (induction ps)
  case (Cons p ps)
  obtain k v ct where "p = (k, v, ct)" by (cases p)
  then show ?case
    using Cons.IH infer_user_key_meta [of k]
    by (cases "slot_of crc16 k = s")
      (simp_all add: put_entry_def crossslot_error_def slot_of_def Let_def del: infer_user_key_meta)
qed simp

lemma infer_puts:
  "infer_slot_idx crc16 (map put_entry (p # ps))
    = (if \<forall>q \<in> set ps. slot_of crc16 (fst q) = slot_of crc16 (fst p) then Inr (slot_of crc16 (fst p))
       else Inl crossslot_error)"
proof -
  obtain k v ct where p: "p = (k, v, ct)" by (cases p)
  have "infer_slot_idx_loop crc16 None (map put_entry (p # ps))
      = infer_slot_idx_loop crc16 (Some (slot_of crc16 k)) (map put_entry ps)"
    using infer_user_key_meta [of k] by (simp add: p put_entry_def slot_of_def Let_def del: infer_user_key_meta)
  then show ?thesis
    unfolding infer_slot_idx_def by (simp add: infer_loop_puts p)
qed

lemma add_puts_binlog:
  "add_ops batch_put batch_delete (map string_put ps) (BinlogB b)
    = Inr (BinlogB (b\<lparr>bb_entries := bb_entries b @ map put_entry ps\<rparr>))"
proof (induction ps arbitrary: b)
  case (Cons p ps)
  obtain k v ct where "p = (k, v, ct)" by (cases p)
  then show ?case
    using Cons.IH by (simp add: string_put_def put_entry_def binlog_batch_put_def)
qed simp

lemma put_slot_ok: "slot_of crc16 (fst p) = s \<Longrightarrow> batch_op_key_ok (slot_key_ok crc16 s) (string_put p)"
  using own_op_slot [of "fst p" "string_put p" crc16] by (cases p) (simp add: string_put_def)

text \<open>The puts of one batch are all written, or refused together when they cross slots.\<close>

lemma write_puts:
  assumes ok: "instance_ok E view st"
  shows "batchable E st (map fst ps) \<Longrightarrow> \<exists>st'. write_ops E (map string_put ps) st = (Inr (), st')
      \<and> instance_ok E view st'
      \<and> contents_of view st' = apply_ops (map write_op_of (map string_put ps)) (contents_of view st)"
    and "\<not> batchable E st (map fst ps) \<Longrightarrow> write_ops E (map string_put ps) st = (Inl crossslot_error, st)"
proof -
  show "\<exists>st'. write_ops E (map string_put ps) st = (Inr (), st') \<and> instance_ok E view st'
      \<and> contents_of view st' = apply_ops (map write_op_of (map string_put ps)) (contents_of view st)"
    if b: "batchable E st (map fst ps)"
  proof (cases "rd_append_log_fn st")
    case None
    then show ?thesis using write_ops_standalone [OF ok, of "map string_put ps"] by blast
  next
    case (Some f)
    have "list_all (batch_op_key_ok (slot_key_ok (en_crc16 E) (slot_of (en_crc16 E) (fst (hd ps))))) (map string_put ps)"
      using b Some by (cases ps) (auto simp: list_all_iff batchable_def slot_same intro!: put_slot_ok)
    from write_ops_slot [OF ok this] show ?thesis by blast
  qed
  show "write_ops E (map string_put ps) st = (Inl crossslot_error, st)"
    if b: "\<not> batchable E st (map fst ps)"
  proof -
    obtain f where f: "rd_append_log_fn st = Some f"
      using b by (auto simp: batchable_def)
    obtain p ps' where ps: "ps = p # ps'"
      using b by (cases ps) (auto simp: batchable_def)
    have "\<not> (\<forall>q \<in> set ps'. slot_of (en_crc16 E) (fst q) = slot_of (en_crc16 E) (fst p))"
    proof
      assume "\<forall>q \<in> set ps'. slot_of (en_crc16 E) (fst q) = slot_of (en_crc16 E) (fst p)"
      then have "\<forall>k \<in> set (map fst ps). key_to_slot_id (en_crc16 E) k = key_to_slot_id (en_crc16 E) (fst p)"
        by (simp add: ps slot_same)
      then have "batchable E st (map fst ps)"
        unfolding batchable_def by metis
      with b show False ..
    qed
    then have "infer_slot_idx (en_crc16 E) (map put_entry ps) = Inl crossslot_error"
      by (simp only: ps infer_puts if_False)
    moreover obtain db where "rd_db st = Some db"
      using ok by (rule instance_okE)
    moreover have "ps \<noteq> []" by (simp add: ps)
    ultimately show ?thesis
      by (simp add: write_ops_def create_batch_def f add_puts_binlog binlog_batch_new_def
          commit_batch_def binlog_batch_commit_def)
  qed
qed

lemma mset_outcome:
  assumes ok: "instance_ok E view st" and A: "stores (contents_of view st) A" and v: "list_all (fits \<circ> snd) kvs"
    and ops: "mset_ops clk i kvs = Inr ops"
  shows "batchable E st (map fst kvs) \<Longrightarrow> \<exists>st'. write_ops E ops st = (Inr (), st') \<and> instance_ok E view st'
      \<and> stores (contents_of view st') (mset_state kvs A)"
    and "\<not> batchable E st (map fst kvs) \<Longrightarrow> write_ops E ops st = (Inl crossslot_error, st)"
proof -
  let ?ps = "map (\<lambda>(j, k, v). (k, v, clk (4 + j))) (enumerate i kvs)"
  have eq: "ops = map string_put ?ps"
    using ops by (auto simp: mset_ops_puts)
  have fst: "map fst ?ps = map fst kvs"
    by (induction kvs arbitrary: i) auto
  have "stores (apply_ops (map write_op_of ops) (contents_of view st)) (mset_state kvs A)"
    using puts_store [OF A v, of "\<lambda>j. clk (4 + j)" i] ops by (auto simp: mset_ops_puts simp del: map_map)
  then show "batchable E st (map fst kvs) \<Longrightarrow> \<exists>st'. write_ops E ops st = (Inr (), st') \<and> instance_ok E view st'
      \<and> stores (contents_of view st') (mset_state kvs A)"
    and "\<not> batchable E st (map fst kvs) \<Longrightarrow> write_ops E ops st = (Inl crossslot_error, st)"
    using write_puts [OF ok, of ?ps] unfolding fst eq by auto
qed

lemma any_live_holds:
  assumes "instance_ok E view st" and "stores (contents_of view st) A"
  shows "any_live E clk i kvs st = Inr (\<exists>(j, k, _) \<in> set (enumerate i kvs). seen (clk (4 + j)) (A k) \<noteq> None)"
proof (induction kvs arbitrary: i)
  case (Cons kv kvs)
  obtain k v where kv: "kv = (k, v)" by (cases kv)
  have "holds (contents_of view st) k (A k)"
    using assms(2) by (simp add: stores_def)
  then show ?case
    using key_exists_live_holds [OF assms(1), of k "A k" "\<lambda>_. clk (4 + i)"] Cons.IH [of "Suc i"]
    by (auto simp: kv)
qed simp

lemma mget_loop_holds:
  assumes ok: "instance_ok E view st" and A: "stores (contents_of view st) A"
  shows "mget_loop E clk i (the (rd_db st)) ks
    = Inr (map (\<lambda>(j, k). map_option fst (seen (clk (4 + j)) (A k))) (enumerate i ks))"
proof (induction ks arbitrary: i)
  case (Cons k ks)
  have "holds (contents_of view st) k (A k)"
    using A by (simp add: stores_def)
  then show ?case
    using Cons.IH [of "Suc i"] db_get_ok(1) [OF ok, of "base_key_bytes k"]
    by (auto simp: string_key_def holds_def seen_def split: option.splits simp del: cf_name.simps)
qed simp

lemma mget_holds:
  assumes "instance_ok E view st" and "stores (contents_of view st) A"
  shows "mget_binary E clk ks st = Inr (map (\<lambda>(j, k). map_option fst (seen (clk (4 + j)) (A k))) (enumerate 0 ks))"
  unfolding mget_binary_def redis_db_ok [OF assms(1)] rbind_simps mget_loop_holds [OF assms] ..

section \<open>Bits of a range\<close>

definition from_end :: "int \<Rightarrow> int \<Rightarrow> int" where
  "from_end n i = (if i < 0 then n + i else i)"

text \<open>The bit positions of a string whose unit, a byte or a bit, lies between two offsets.\<close>

definition positions :: "nat \<Rightarrow> bytes \<Rightarrow> int \<Rightarrow> int \<Rightarrow> nat list" where
  "positions u x a b = filter (\<lambda>p. a \<le> int (p div u) \<and> int (p div u) \<le> b) [0..<8 * length x]"

definition bit_count :: "bytes \<Rightarrow> i64 option \<Rightarrow> i64 option \<Rightarrow> int" where
  "bit_count x start stop =
     (let n = int (length x);
          a = max 0 (from_end n (case start of None \<Rightarrow> 0 | Some i \<Rightarrow> i));
          b = from_end n (case stop of None \<Rightarrow> n - 1 | Some i \<Rightarrow> i) in
      int (length (filter (bit_at x) (positions 8 x a b))))"

text \<open>A start behind the end is moved onto the last unit.\<close>

definition bit_position :: "bool \<Rightarrow> bytes \<Rightarrow> bool \<Rightarrow> i64 option \<Rightarrow> i64 option \<Rightarrow> nat option" where
  "bit_position b x in_bits start stop =
     (let u = (if in_bits then 1 else 8); n = int (8 * length x div u);
          a = min (max 0 (from_end n (case start of None \<Rightarrow> 0 | Some i \<Rightarrow> i))) (n - 1);
          e = from_end n (case stop of None \<Rightarrow> n - 1 | Some i \<Rightarrow> i) in
      find (\<lambda>p. bit_at x p = b) (positions u x a e))"

lemma filter_upt: "filter (\<lambda>p. lo \<le> p \<and> p < hi) [0..<n] = [lo..<min hi n]"
proof (induction n)
  case (Suc n)
  then show ?case by (cases "lo \<le> n"; cases "n < hi") (auto simp: min_def not_le le_Suc_eq)
qed simp

lemma positions_upt:
  assumes "0 < u" and "0 \<le> a"
  shows "positions u x a b = [u * nat a..<min (u * nat (b + 1)) (8 * length x)]"
proof -
  have "a \<le> int (p div u) \<and> int (p div u) \<le> b \<longleftrightarrow> u * nat a \<le> p \<and> p < u * nat (b + 1)" for p
  proof -
    have "a \<le> int (p div u) \<longleftrightarrow> nat a \<le> p div u" using assms(2) by linarith
    also have "\<dots> \<longleftrightarrow> u * nat a \<le> p" using assms(1) by (simp add: less_eq_div_iff_mult_less_eq mult.commute)
    finally have "a \<le> int (p div u) \<longleftrightarrow> u * nat a \<le> p" .
    moreover have "int (p div u) \<le> b \<longleftrightarrow> p div u < nat (b + 1)" by linarith
    then have "int (p div u) \<le> b \<longleftrightarrow> p < u * nat (b + 1)"
      using assms(1) by (simp add: div_less_iff_less_mult mult.commute)
    ultimately show ?thesis by blast
  qed
  then show ?thesis by (simp add: positions_def filter_upt)
qed

lemma count_byte_bits:
  assumes "i < length x"
  shows "length (filter (bit_at x) [8 * i..<8 * Suc i]) = count_ones (x ! i)"
proof -
  have upt: "[8 * i..<8 * Suc i] = map (\<lambda>j. 8 * i + j) [0..<8]"
    using map_add_upt [of "8 * i" 8] by (simp add: add.commute)
  have "bit_at x (8 * i + j) \<longleftrightarrow> bit (x ! i) (7 - j)" if "j < 8" for j
    using that assms by (simp add: bit_at_def)
  then have "filter (\<lambda>j. bit_at x (8 * i + j)) [0..<8] = filter (\<lambda>j. bit (x ! i) (7 - j)) [0..<8]"
    by (intro filter_cong) auto
  moreover have "[0..<8] = [0, 1, 2, 3, 4, 5, 6, 7 :: nat]"
    by (simp add: upt_rec)
  ultimately show ?thesis
    unfolding upt filter_map length_map comp_def count_ones_def by simp
qed

lemma count_bits_range:
  assumes "b < length x"
  shows "length (filter (bit_at x) [8 * a..<8 * Suc b]) = sum_list (map (\<lambda>i. count_ones (x ! i)) [a..<Suc b])"
proof (cases "a \<le> Suc b")
  case True
  have "length (filter (bit_at x) [8 * a..<8 * c]) = sum_list (map (\<lambda>i. count_ones (x ! i)) [a..<c])"
    if "a \<le> c" "c \<le> length x" for c
    using that
  proof (induction c rule: dec_induct)
    case (step c)
    have "[8 * a..<8 * Suc c] = [8 * a..<8 * c] @ [8 * c..<8 * Suc c]"
      using step(1) upt_add_eq_append [of "8 * a" "8 * c" 8] by (simp add: add.commute)
    then show ?case
      using step count_byte_bits [of c x] by simp
  qed simp
  from this [OF True] assms show ?thesis by simp
qed simp


lemma bitcount_value:
  assumes "length x \<le> I32_MAX" and "pred_option in_i64 start" and "pred_option in_i64 stop"
  shows "(let len = int (length x);
           range = (if start = None \<and> stop = None then Some (0, len - 1) else
                    let start_idx = bit_start len (unwrap_or 0 start);
                        end_idx = bit_stop len (unwrap_or (len - 1) stop) in
                    if end_idx < start_idx then None else Some (start_idx, end_idx)) in
       case range of
         None \<Rightarrow> Inr 0
       | Some (start_idx, end_idx) \<Rightarrow>
         let start_pos = min (i64_as_usize (max start_idx 0)) (length x);
             end_pos = min (i64_as_usize (max end_idx (- 1))) (length x - 1) in
         if length x \<le> start_pos then Inr 0 else
         Inr (int (sum_list (map (\<lambda>i. count_ones (x ! i)) [start_pos..<Suc end_pos]))))
    = (Inr (bit_count x start stop) :: i64 result)"
proof -
  define n where "n = int (length x)"
  define a where "a = max 0 (from_end n (case start of None \<Rightarrow> 0 | Some i \<Rightarrow> i))"
  define b where "b = from_end n (case stop of None \<Rightarrow> n - 1 | Some i \<Rightarrow> i)"
  have n: "0 \<le> n" "n < 2 ^ 31" using assms(1) by (simp_all add: n_def)
  have wrap: "wrap_i64 (n + i) = n + i" if "in_i64 i" "i < 0" for i
    using that n by (simp add: wrap_i64_id in_i64_def)
  have start: "bit_start n (unwrap_or 0 start) = a"
    using assms(2) wrap by (cases start) (auto simp: bit_start_def unwrap_or_def a_def from_end_def)
  have stop: "bit_stop n (unwrap_or (n - 1) stop) = max b (- 1)"
  proof (cases stop)
    case None
    have "n = 0 \<or> 0 < n" and "wrap_i64 (- 1) = - 1" using n by (auto simp: wrap_i64_id)
    then show ?thesis using None by (auto simp: bit_stop_def unwrap_or_def b_def from_end_def)
  next
    case (Some i)
    then show ?thesis
      using assms(3) wrap n by (auto simp: bit_stop_def unwrap_or_def b_def from_end_def)
  qed
  have a: "0 \<le> a" by (simp add: a_def)
  have lt: "a < 2 ^ 63" "b < 2 ^ 63"
    using assms(2,3) n by (auto simp: a_def b_def from_end_def in_i64_def split: option.split)
  have whole: "start = None \<Longrightarrow> stop = None \<Longrightarrow> (0, n - 1) = (a, max b (- 1))"
    using n by (auto simp: a_def b_def from_end_def)
  have usize: "i64_as_usize i = nat i" if "0 \<le> i" "i < 2 ^ 63" for i
    using that by (simp add: i64_as_usize_def)
  have count: "bit_count x start stop = int (length (filter (bit_at x) [8 * nat a..<min (8 * nat (b + 1)) (8 * length x)]))"
    using positions_upt [of 8 a x b] a
    unfolding bit_count_def Let_def n_def [symmetric] a_def [symmetric] b_def [symmetric] by simp
  have empty: "bit_count x start stop = 0" if "b < a \<or> length x \<le> nat a"
    unfolding count using that a by (auto simp: nat_le_iff)
  have full: "bit_count x start stop
      = int (sum_list (map (\<lambda>i. count_ones (x ! i)) [nat a..<Suc (min (nat b) (length x - 1))]))"
    if ab: "a \<le> b" "nat a < length x"
  proof -
    have "min (8 * nat (b + 1)) (8 * length x) = 8 * Suc (min (nat b) (length x - 1))"
    proof -
      obtain m k where "length x = Suc m" "nat b = k" "nat (b + 1) = Suc k"
        using ab a by (cases "length x") (auto simp: nat_add_distrib)
      then show ?thesis by (simp add: min_def)
    qed
    then show ?thesis
      unfolding count using count_bits_range [of "min (nat b) (length x - 1)" x "nat a"] that by simp
  qed
  show ?thesis
  proof (cases "n = 0 \<or> length x \<le> nat a")
    case True
    then have "length x \<le> nat a" by (auto simp: n_def)
    then show ?thesis
      using empty start stop whole usize [OF a lt(1)] a
      by (auto simp: Let_def n_def [symmetric])
  next
    case False
    then have nb: "start = None \<Longrightarrow> stop = None \<Longrightarrow> a \<le> b" and na: "nat a < length x"
      using n by (auto simp: a_def b_def from_end_def)
    have "(if start = None \<and> stop = None then Some (0, n - 1) else
          if max b (- 1) < a then None else Some (a, max b (- 1))) = (if b < a then None else Some (a, b))"
      using nb whole a by auto
    then show ?thesis
      unfolding Let_def n_def [symmetric] start stop
      using empty full na a usize [OF a lt(1)] usize [of b] lt(2) by auto
  qed
qed

lemma bitcount_holds:
  assumes ok: "instance_ok E view st" and S: "holds (contents_of view st) key s"
    and "pred_option in_i64 start" and "pred_option in_i64 stop"
  shows "bitcount E clk key start stop st = Inr (bit_count (value_of (seen (clk 0) s)) start stop)"
proof -
  obtain ct where ct: "\<And>now (f :: parsed_internal_value option \<Rightarrow> int result).
      rbind (get_encoded E key st) (\<lambda>v. rbind (parse_string now v) f)
      = (case seen now s of None \<Rightarrow> f None | Some (x, et) \<Rightarrow> f (Some (string_parsed x ct et)))"
    by (rule parse_holds [OF ok S]) blast
  show ?thesis
  proof (cases "seen (clk 0) s")
    case None
    then show ?thesis
      unfolding bitcount_def ct by (simp add: value_of_def bit_count_def positions_def Let_def)
  next
    case (Some y)
    then obtain x et where y: "seen (clk 0) s = Some (x, et)" by (cases y) auto
    then have "length x \<le> I32_MAX" using seen_fits [OF S] by (simp add: fits_def)
    from bitcount_value [OF this assms(3,4)] show ?thesis
      unfolding bitcount_def ct y option.case prod.case string_parsed_sel rbind_simps value_of_def .
  qed
qed

lemma bitpos_loop_find:
  assumes "\<forall>p \<in> set ps. p < 8 * length x" and "b = 0 \<or> b = 1"
  shows "bitpos_loop x (word_of_int b) (map int ps) = map_option int (find (\<lambda>p. bit_at x p = (b = 1)) ps)"
  using assms(1)
proof (induction ps)
  case (Cons p ps)
  then have p: "p div 8 < length x" by (simp add: div_less_iff_less_mult mult.commute)
  have "(drop_bit (7 - p mod 8) (x ! (p div 8)) AND 1 = word_of_int b) \<longleftrightarrow> bit_at x p = (b = 1)"
    using assms(2) p by (auto simp: bit_at_def bit_iff_odd_drop_bit and_one_eq mod_2_eq_odd)
  then show ?case
    using Cons p by (simp add: nat_div_distrib nat_mod_distrib zdiv_int [symmetric] zmod_int [symmetric] Let_def)
qed simp


lemma upto_nat: "0 \<le> a \<Longrightarrow> [a..b] = map int [nat a..<nat (b + 1)]"
proof (induction a b rule: upto.induct)
  case (1 a b)
  show ?case
  proof (cases "a \<le> b")
    case True
    then have "nat a < nat (b + 1)" "nat (a + 1) = Suc (nat a)" using 1(2) by auto
    then show ?thesis
      using 1 True upto.simps [of a b] by (simp add: upt_conv_Cons)
  qed simp
qed

lemma bitpos_range:
  assumes N: "0 < N" "N < 2 ^ 62" and "pred_option in_i64 start" and "pred_option in_i64 stop"
  shows "min (max (bit_start N (unwrap_or 0 start)) 0) (N - 1)
      = min (max 0 (from_end N (case start of None \<Rightarrow> 0 | Some i \<Rightarrow> i))) (N - 1)"
    and "min (max (bit_stop N (unwrap_or (N - 1) stop)) (- 1)) (N - 1)
      = min (max (from_end N (case stop of None \<Rightarrow> N - 1 | Some i \<Rightarrow> i)) (- 1)) (N - 1)"
proof -
  have wrap: "wrap_i64 (N + i) = N + i" if "in_i64 i" "i < 0" for i
    using that N by (simp add: wrap_i64_id in_i64_def)
  show "min (max (bit_start N (unwrap_or 0 start)) 0) (N - 1)
      = min (max 0 (from_end N (case start of None \<Rightarrow> 0 | Some i \<Rightarrow> i))) (N - 1)"
    using assms(3) wrap by (cases start) (auto simp: bit_start_def unwrap_or_def from_end_def max.commute)
  show "min (max (bit_stop N (unwrap_or (N - 1) stop)) (- 1)) (N - 1)
      = min (max (from_end N (case stop of None \<Rightarrow> N - 1 | Some i \<Rightarrow> i)) (- 1)) (N - 1)"
    using assms(4) wrap N by (cases stop) (auto simp: bit_stop_def unwrap_or_def from_end_def)
qed

lemma positions_upto:
  assumes u: "0 < u" "8 * length x = u * nat N" and a: "0 \<le> a"
  shows "map int (positions u x a e) = [int u * a..int u * min (max e (- 1)) (N - 1) + (int u - 1)]"
proof -
  have "nat (int u * min (max e (- 1)) (N - 1) + (int u - 1) + 1) = u * nat (min (max e (- 1)) (N - 1) + 1)"
  proof -
    have "int u * m + (int u - 1) + 1 = int u * (m + 1)" for m by (simp add: algebra_simps)
    then show ?thesis by (simp only: nat_mult_distrib [of "int u"] of_nat_0_le_iff nat_int)
  qed
  also have "min (max e (- 1)) (N - 1) + 1 = min (max (e + 1) 0) N"
    by linarith
  also have "u * nat (min (max (e + 1) 0) N) = min (u * nat (e + 1)) (8 * length x)"
    using u by (auto simp: min_def max_def nat_mono)
  finally show ?thesis
    using upto_nat [of "int u * a" "int u * min (max e (- 1)) (N - 1) + (int u - 1)"] a
    by (simp add: positions_upt [OF u(1) a] nat_mult_distrib)
qed


lemma bitpos_value:
  assumes x: "x \<noteq> []" "length x \<le> I32_MAX" and b: "b = 0 \<or> b = 1"
    and io: "pred_option in_i64 start" "pred_option in_i64 stop"
  shows "(let len = int (length x);
            range =
              (if is_bit_mode then
                 let bits = wrap_i64 (len * 8);
                     start_bit = min (max (bit_start bits (unwrap_or 0 start)) 0) (bits - 1);
                     end_bit = min (max (bit_stop bits (unwrap_or (bits - 1) stop)) (- 1)) (bits - 1) in
                 Some (start_bit, end_bit)
               else
                 let start_byte = min (max (bit_start len (unwrap_or 0 start)) 0) (len - 1);
                     end_byte = min (max (bit_stop len (unwrap_or (len - 1) stop)) (- 1)) (len - 1) in
                 if end_byte < start_byte then None
                 else Some (wrap_i64 (start_byte * 8), wrap_i64 (end_byte * 8 + 7))) in
        case range of
          None \<Rightarrow> Inr none
        | Some (start_pos, end_pos) \<Rightarrow>
          (case bitpos_loop x (word_of_int b) [start_pos..end_pos] of
             Some pos \<Rightarrow> Inr pos
           | None \<Rightarrow> Inr none))
    = Inr (case bit_position (b = 1) x is_bit_mode start stop of Some p \<Rightarrow> int p | None \<Rightarrow> none)"
proof -
  define u :: nat where "u = (if is_bit_mode then 1 else 8)"
  define N where "N = int (8 * length x div u)"
  define a where "a = min (max 0 (from_end N (case start of None \<Rightarrow> 0 | Some i \<Rightarrow> i))) (N - 1)"
  define e where "e = from_end N (case stop of None \<Rightarrow> N - 1 | Some i \<Rightarrow> i)"
  define m where "m = min (max e (- 1)) (N - 1)"
  have N: "0 < N" "N < 2 ^ 62" and u: "0 < u" "8 * length x = u * nat N"
    using x by (auto simp: N_def u_def)
  note range = bitpos_range [OF N io, folded a_def e_def, folded m_def]
  have a: "0 \<le> a" using N by (simp add: a_def)
  have "\<forall>p \<in> set (positions u x a e). p < 8 * length x"
    by (auto simp: positions_def)
  then have loop: "bitpos_loop x (word_of_int b) [int u * a..int u * m + (int u - 1)]
      = map_option int (bit_position (b = 1) x is_bit_mode start stop)"
    using bitpos_loop_find [of "positions u x a e" x b] b positions_upto [OF u a, of e]
    unfolding bit_position_def Let_def u_def [symmetric] N_def [symmetric] a_def [symmetric] e_def [symmetric] m_def
    by simp
  show ?thesis
  proof (cases is_bit_mode)
    case True
    then have "wrap_i64 (int (length x) * 8) = N" "int u = 1"
      using x by (simp_all add: N_def u_def wrap_i64_id)
    then show ?thesis
      using True loop range by (auto simp: Let_def split: option.split)
  next
    case False
    then have N8: "int (length x) = N" and u8: "int u = 8"
      by (simp_all add: N_def u_def)
    have m: "m < N" "- 1 \<le> m" and aN: "a < N" using N by (auto simp: m_def a_def)
    have wrap: "wrap_i64 (a * 8) = int u * a" "wrap_i64 (m * 8 + 7) = int u * m + (int u - 1)"
    proof -
      have "N < 2 ^ 32" using x N8 by simp
      then show "wrap_i64 (a * 8) = int u * a" "wrap_i64 (m * 8 + 7) = int u * m + (int u - 1)"
        using m aN a by (simp_all add: u8 wrap_i64_id)
    qed
    have none: "bit_position (b = 1) x is_bit_mode start stop = None" if "m < a"
    proof -
      have "[int u * a..int u * m + (int u - 1)] = []" using that by (simp add: u8)
      then show ?thesis using loop by simp
    qed
    show ?thesis
      unfolding Let_def N8 if_not_P [OF False] range
      using none loop wrap by (auto split: option.split)
  qed
qed

lemma bitpos_holds:
  assumes ok: "instance_ok E view st" and S: "holds (contents_of view st) key s"
    and "pred_option in_i64 start" and "pred_option in_i64 stop" and b: "b = 0 \<or> b = 1"
  shows "bitpos E clk key b start stop in_bits st
    = Inr (case bit_position (b = 1) (value_of (seen (clk 0) s)) in_bits start stop of
             Some p \<Rightarrow> int p | None \<Rightarrow> if b = 1 then - 1 else 0)"
proof -
  obtain ct where ct: "\<And>now (f :: parsed_internal_value option \<Rightarrow> int result).
      rbind (get_encoded E key st) (\<lambda>v. rbind (parse_string now v) f)
      = (case seen now s of None \<Rightarrow> f None | Some (x, et) \<Rightarrow> f (Some (string_parsed x ct et)))"
    by (rule parse_holds [OF ok S]) blast
  have empty: "bit_position c [] in_bits start stop = None" for c
    by (simp add: bit_position_def positions_def Let_def)
  have ok01: "\<not> (b \<noteq> 0 \<and> b \<noteq> 1)" using b by auto
  show ?thesis
  proof (cases "seen (clk 0) s")
    case None
    then show ?thesis
      unfolding bitpos_def ct Let_def using b empty by (auto simp: value_of_def)
  next
    case (Some y)
    then obtain x et where y: "seen (clk 0) s = Some (x, et)" by (cases y) auto
    then have len: "length x \<le> I32_MAX" using seen_fits [OF S] by (simp add: fits_def)
    show ?thesis
    proof (cases "x = []")
      case True
      then show ?thesis
        unfolding bitpos_def ct y Let_def using b empty by (auto simp: value_of_def)
    next
      case False
      show ?thesis
        using bitpos_value [OF False len b assms(3,4), of in_bits "if b = 1 then - 1 else 0"]
        unfolding bitpos_def ct y option.case prod.case string_parsed_sel rbind_simps value_of_def
          Let_def if_not_P [OF ok01] if_not_P [OF False] .
    qed
  qed
qed

section \<open>Combining strings bit by bit\<close>

fun bit_result :: "bit_operation \<Rightarrow> bool list \<Rightarrow> bool" where
  "bit_result BitAnd bs = list_all id bs"
| "bit_result BitOr bs = list_ex id bs"
| "bit_result BitXor bs = odd (length (filter id bs))"
| "bit_result BitNot bs = (\<not> hd bs)"

text \<open>The byte with given bits, the most significant first.\<close>

definition byte_of :: "(nat \<Rightarrow> bool) \<Rightarrow> byte" where
  "byte_of f = horner_sum of_bool 2 (map (\<lambda>k. f (7 - k)) [0..<8])"

text \<open>The bitwise combination of strings; behind its end a string has zeros.\<close>

definition combined :: "bit_operation \<Rightarrow> bytes list \<Rightarrow> bytes" where
  "combined op vs = map (\<lambda>i. byte_of (\<lambda>j. bit_result op (map (\<lambda>v. bit_at v (8 * i + j)) vs)))
     [0..<foldl max 0 (map length vs)]"

lemma bit_byte_of: "k < 8 \<Longrightarrow> bit (byte_of f) k \<longleftrightarrow> f (7 - k)"
  by (simp add: byte_of_def bit_horner_sum_bit_iff)

lemma byte_eq_byte_of: "(\<And>k. k < 8 \<Longrightarrow> bit w k \<longleftrightarrow> f (7 - k)) \<Longrightarrow> w = byte_of f"
  by (rule bit_eqI) (use bit_byte_of [of _ f] in \<open>auto dest: bit_imp_le_length\<close>)

lemma foldl_ops:
  fixes acc :: byte
  assumes "k < 8"
  shows "bit (foldl (op_func BitAnd) acc bs) k \<longleftrightarrow> bit acc k \<and> (\<forall>w \<in> set bs. bit w k)"
    and "bit (foldl (op_func BitOr) acc bs) k \<longleftrightarrow> bit acc k \<or> (\<exists>w \<in> set bs. bit w k)"
    and "bit (foldl (op_func BitXor) acc bs) k \<longleftrightarrow> bit acc k \<noteq> odd (length (filter (\<lambda>w. bit w k) bs))"
  by (induction bs arbitrary: acc) (auto simp: bit_simps)

lemma bit_place: "j < 8 \<Longrightarrow> (8 * i + j) div 8 = i" "j < 8 \<Longrightarrow> (8 * i + j) mod 8 = (j :: nat)"
  by simp_all

lemma bitop_byte_combined:
  assumes "op \<noteq> BitNot"
  shows "bitop_byte op vs i = byte_of (\<lambda>j. bit_result op (map (\<lambda>v. bit_at v (8 * i + j)) vs))"
proof (rule byte_eq_byte_of)
  fix k :: nat
  assume k: "k < 8"
  define c where "c v = (if i < length v then v ! i else 0 :: byte)" for v
  have "bit_at v (8 * i + (7 - k)) \<longleftrightarrow> bit (c v) k" for v
    using k bit_place [of "7 - k" i] by (simp add: bit_at_def c_def del: add_diff_assoc)
  then show "bit (bitop_byte op vs i) k \<longleftrightarrow> bit_result op (map (\<lambda>v. bit_at v (8 * i + (7 - k))) vs)"
    using assms k unfolding bitop_byte_def c_def [symmetric]
    by (cases op) (simp_all add: foldl_ops [OF k] list_all_iff list_ex_iff filter_map comp_def bit_minus_1_iff
        del: add_diff_assoc)
qed

lemma bitop_store:
  assumes "op \<noteq> BitNot"
  shows "(if foldl max 0 (map length vs) = 0 then store_result E clk dest []
      else store_result E clk dest (map (bitop_byte op vs) [0..<foldl max 0 (map length vs)]))
    = store_result E clk dest (combined op vs)"
  by (simp add: combined_def bitop_byte_combined [OF assms, symmetric])

lemma map_not_combined: "map (\<lambda>byte. NOT byte) x = combined BitNot [x]"
proof (rule nth_equalityI)
  show "length (map (\<lambda>byte. NOT byte) x) = length (combined BitNot [x])"
    by (simp add: combined_def)
  fix i
  assume "i < length (map (\<lambda>byte. NOT byte) x)"
  then have i: "i < length x" by simp
  have "NOT (x ! i) = byte_of (\<lambda>j. \<not> bit_at x (8 * i + j))"
  proof (rule byte_eq_byte_of)
    fix k :: nat
    assume k: "k < 8"
    show "bit (NOT (x ! i)) k \<longleftrightarrow> \<not> bit_at x (8 * i + (7 - k))"
      using i k bit_place [of "7 - k" i] by (simp add: bit_at_def bit_not_iff del: add_diff_assoc)
  qed
  then show "map (\<lambda>byte. NOT byte) x ! i = combined BitNot [x] ! i"
    using i by (simp add: combined_def)
qed

lemma foldl_max_le: "m \<le> n \<Longrightarrow> \<forall>k \<in> set ns. k \<le> n \<Longrightarrow> foldl max m ns \<le> (n :: nat)"
  by (induction ns arbitrary: m) simp_all

lemma combined_fits: "\<forall>v \<in> set vs. fits v \<Longrightarrow> fits (combined op vs)"
  using foldl_max_le [of 0 I32_MAX "map length vs"] by (simp add: combined_def fits_def)

lemma bitop_sources_holds:
  assumes "instance_ok E view st" and "stores (contents_of view st) A"
  shows "bitop_sources E clk i ks st
    = Inr (map (\<lambda>(j, k). value_of (seen (clk (4 + j)) (A k))) (enumerate i ks))"
proof (induction ks arbitrary: i)
  case (Cons k ks)
  have S: "holds (contents_of view st) k (A k)"
    using assms(2) by (simp add: stores_def)
  obtain ct where ct: "\<And>now (f :: parsed_internal_value option \<Rightarrow> bytes list result).
      rbind (get_encoded E k st) (\<lambda>v. rbind (parse_string now v) f)
      = (case seen now (A k) of None \<Rightarrow> f None | Some (x, et) \<Rightarrow> f (Some (string_parsed x ct et)))"
    by (rule parse_holds [OF assms(1) S]) blast
  show ?case
    unfolding bitop_sources.simps ct Cons.IH [of "Suc i"]
    by (auto simp: value_of_def split: option.split)
qed simp

text \<open>The sources of BITOP and the string it stores.\<close>

definition bitop_result ::
  "(nat \<Rightarrow> u64) \<Rightarrow> bytes \<Rightarrow> bytes list \<Rightarrow> (bytes \<Rightarrow> (bytes \<times> u64) option) \<Rightarrow> bytes result" where
  "bitop_result clk operation src_keys A =
     (case bit_operation_of operation of
        None \<Rightarrow> Inl (RedisErr ''ERR syntax error'')
      | Some op \<Rightarrow>
        if op = BitNot \<and> length src_keys \<noteq> 1 then Inl bitop_not_arity
        else if src_keys = [] then Inl (RedisErr ''ERR wrong number of arguments for 'bitop' command'')
        else Inr (combined op (map (\<lambda>(j, k). value_of (seen (clk (if op = BitNot then 0 else 4 + j)) (A k)))
                    (enumerate 0 src_keys))))"

lemma store_result_ends:
  assumes "instance_ok E view st" and "fits v"
  shows "ends E view dest st (store_result E clk dest v st) (int (length v)) (\<lambda>V. holds V dest (Some (v, 0)))"
  unfolding store_result_def by (rule put_string_ends [OF assms(1) string_value_encode_bytes(1) assms(2)])

lemma bitop_not_holds:
  assumes ok: "instance_ok E view st" and S: "holds (contents_of view st) key s"
    and not: "bit_operation_of operation = Some BitNot"
  shows "bitop E clk operation dest [key] st
    = store_result E clk dest (combined BitNot [value_of (seen (clk 0) s)]) st"
proof -
  have "combined BitNot [[]] = []" by (simp add: combined_def)
  then show ?thesis
    using S redis_db_ok [OF ok] get_encoded_ok [OF ok, of key]
    by (cases s) (auto simp: bitop_def not holds_def seen_def value_of_def map_not_combined obind_olift_Inr)
qed

lemma bitop_leaves:
  assumes ok: "instance_ok E view st" and A: "stores (contents_of view st) A"
  shows "case bitop_result clk operation srcs A of
      Inl e \<Rightarrow> bitop E clk operation dest srcs st = (Inl e, st)
    | Inr v \<Rightarrow> ends E view dest st (bitop E clk operation dest srcs st) (int (length v)) (\<lambda>V. holds V dest (Some (v, 0)))"
proof -
  have S: "holds (contents_of view st) k (A k)" for k
    using A by (simp add: stores_def)
  have vf: "fits (value_of (seen now (A k)))" for now k
    using value_of_fits [OF S] .
  show ?thesis
  proof (cases "bit_operation_of operation")
    case None
    then show ?thesis by (simp add: bitop_result_def bitop_def)
  next
    case (Some op)
    show ?thesis
    proof (cases "op = BitNot")
      case True
      show ?thesis
      proof (cases "length srcs = 1")
        case True1: True
        then obtain k where k: "srcs = [k]" by (cases srcs) auto
        show ?thesis
          using store_result_ends [OF ok, of "combined BitNot [value_of (seen (clk 0) (A k))]" dest clk] vf
            combined_fits [of "[value_of (seen (clk 0) (A k))]" BitNot]
            bitop_not_holds [OF ok S, of operation clk dest k] Some True k
          by (simp add: bitop_result_def)
      next
        case False
        then show ?thesis using Some True by (simp add: bitop_result_def bitop_def)
      qed
    next
      case False
      let ?vs = "map (\<lambda>(j, k). value_of (seen (clk (4 + j)) (A k))) (enumerate 0 srcs)"
      have "fits (combined op ?vs)"
        by (rule combined_fits) (auto simp: vf)
      note e = store_result_ends [OF ok this, of dest clk]
      show ?thesis
      proof (cases "srcs = []")
        case True
        then show ?thesis
          using Some False redis_db_ok [OF ok] by (simp add: bitop_result_def bitop_def olift_apply)
      next
        case ne: False
        have "bitop E clk operation dest srcs st = store_result E clk dest (combined op ?vs) st"
          unfolding bitop_def Some option.case redis_db_ok [OF ok] bitop_sources_holds [OF ok A] Let_def bitop_store [OF False]
          using False ne by simp
        then show ?thesis
          using e Some False ne by (simp add: bitop_result_def)
      qed
    qed
  qed
qed

end
