(* ===== verification/Strings_Simulation.thy ===== *)
theory Strings_Simulation
  imports Strings_Several
begin

text \<open>
  Sequences of string commands against the abstract machine of strings with an expiry, for any
  readings of the clock; and what SETBIT does to the bits of a string.
\<close>

section \<open>Commands\<close>





section \<open>The abstract machine\<close>







section \<open>The simulation\<close>














section \<open>Properties\<close>







text \<open>C26: SETBIT changes one bit. On a key that holds a string with any expiry, or nothing, it returns the
  old value of the bit; as long as the expiry the string had has not passed, GETBIT on that offset
  then returns the bit written, and on every other offset what it returned before, also behind the
  end of the old string. A missing or expired key counts as a string of zeros without expiry.\<close>

theorem setbit_changes_one_bit:
  assumes ok: "instance_ok E view st" and S: "holds (contents_of view st) key s"
    and i: "bit_offset_ok i" and b: "b = 0 \<or> b = 1"
  shows "\<exists>st'. setbit E clk key i b st = (getbit E clk key i st, st') \<and>
    (\<forall>j clk'. bit_offset_ok j \<longrightarrow> \<not> expired (clk' 0) (expiry_of (seen (clk 0) s)) \<longrightarrow>
       getbit E clk' key j st' = (if j = i then Inr b else getbit E clk key j st))"
proof -
  let ?x = "value_of (seen (clk 0) s)" and ?et = "expiry_of (seen (clk 0) s)"
  obtain st' where st': "setbit E clk key i b st = (Inr (if bit_at ?x (nat i) then 1 else 0), st')"
      "instance_ok E view st'" "holds (contents_of view st') key (Some (with_bit (nat i) (b = 1) ?x, ?et))"
    using setbit_ends [OF ok S i b, of clk] by (auto simp: ends_def)
  have get: "getbit E clk key j st = Inr (if bit_at ?x (nat j) then 1 else 0)" if "bit_offset_ok j" for j
    using getbit_holds [OF ok S] that by simp
  have get': "getbit E clk' key j st' = Inr (if bit_at (with_bit (nat i) (b = 1) ?x) (nat j) then 1 else 0)"
    if "bit_offset_ok j" "\<not> expired (clk' 0) ?et" for j clk'
    using getbit_holds [OF st'(2,3)] that by (simp add: seen_def value_of_def)
  have "nat j = nat i \<longleftrightarrow> j = i" if "bit_offset_ok j" for j
    using that i by (auto simp: bit_offset_ok_def)
  then show ?thesis
    using st'(1) get get' i b by (auto simp: bit_at_with_bit)
qed

text \<open>A string that expires at 9, and a key that is missing.\<close>

theorem setbit_changes_one_bit_witness:
  "\<exists>V st' st''. setbit map_env (\<lambda>_. 5) [107] 9 1 (map_redis V)
      = (getbit map_env (\<lambda>_. 5) [107] 9 (map_redis V), st')
    \<and> getbit map_env (\<lambda>_. 9) [107] 9 st' = Inr 1
    \<and> getbit map_env (\<lambda>_. 9) [107] 3 st' = getbit map_env (\<lambda>_. 5) [107] 3 (map_redis V)
    \<and> setbit map_env (\<lambda>_. 5) [108] 3 1 (map_redis V) = (getbit map_env (\<lambda>_. 5) [108] 3 (map_redis V), st'')
    \<and> getbit map_env (\<lambda>_. 6) [108] 3 st'' = Inr 1"
proof -
  let ?V = "\<lambda>cf k. if cf = cf_name MetaCF \<and> k = base_key_bytes [107] then Some (string_bytes [255] 0 9) else None"
  have S: "holds (contents_of (\<lambda>V. V) (map_redis ?V)) [107] (Some ([255], 9))"
      "holds (contents_of (\<lambda>V. V) (map_redis ?V)) [108] None"
    by (auto simp: holds_def fits_def simp del: cf_name.simps)
  have o: "bit_offset_ok 9" "bit_offset_ok 3"
    by (simp_all add: bit_offset_ok_def)
  obtain st' where st': "setbit map_env (\<lambda>_. 5) [107] 9 1 (map_redis ?V)
        = (getbit map_env (\<lambda>_. 5) [107] 9 (map_redis ?V), st')"
      "\<And>j clk'. bit_offset_ok j \<Longrightarrow> \<not> expired (clk' 0) 9 \<Longrightarrow> getbit map_env clk' [107] j st'
        = (if j = 9 then Inr 1 else getbit map_env (\<lambda>_. 5) [107] j (map_redis ?V))"
    using setbit_changes_one_bit [OF instance_ok_map S(1) o(1), of 1 "\<lambda>_. 5"]
    by (auto simp: seen_def expired_def expiry_of_def)
  obtain st'' where st'': "setbit map_env (\<lambda>_. 5) [108] 3 1 (map_redis ?V)
        = (getbit map_env (\<lambda>_. 5) [108] 3 (map_redis ?V), st'')"
      "\<And>clk'. getbit map_env clk' [108] 3 st'' = Inr 1"
    using setbit_changes_one_bit [OF instance_ok_map S(2) o(2), of 1 "\<lambda>_. 5"] o(2)
    by (auto simp: seen_def expiry_of_def)
  have "\<not> expired 9 9" by (simp add: expired_def)
  then show ?thesis
    using st'(1) st'(2) [OF o(1), of "\<lambda>_. 9"] st'(2) [OF o(2), of "\<lambda>_. 9"] st''
    by (intro exI [of _ ?V] exI [of _ st'] exI [of _ st'']) simp
qed

lemma from_utf8_lossy_ascii: "\<forall>b \<in> set bs. b < 0x80 \<Longrightarrow> from_utf8_lossy bs = bs"
  by (induction bs) (simp_all add: utf8_step_def)

lemma int_to_text_ascii: "\<forall>b \<in> set (int_to_text n). b < 0x80"
proof -
  have "b < 0x80" if "b \<in> set (nat_to_text k)" for b k
    using set_nat_to_text [OF that] by (simp add: word_le_nat_alt word_less_nat_alt)
  then show ?thesis
    by (auto simp: int_to_text_def)
qed

text \<open>C27: a counter is exact and never wraps. From a key that holds the text of \<open>n\<close>, adding \<open>i\<close>
  answers \<open>n + i\<close> and leaves its text and the expiry when the sum is an \<open>i64\<close>, and otherwise answers
  the overflow error and leaves the instance as it was.\<close>

theorem counter_exact:
  assumes "instance_ok E view st" and "holds (contents_of view st) key (Some (int_to_text n, t))"
    and "\<not> expired (clk 0) t" and "in_i64 n"
  shows "if in_i64 (n + i)
    then \<exists>st'. incr_decr E clk key i st = (Inr (n + i), st')
      \<and> holds (contents_of view st') key (Some (int_to_text (n + i), t))
    else incr_decr E clk key i st = (Inl (RedisErr ''increment or decrement would overflow''), st)"
proof -
  have "seen (clk 0) (Some (int_to_text n, t)) = Some (int_to_text n, t)"
    using assms(3) by (simp add: seen_def)
  moreover have "incremented i (Some (int_to_text n, t))
      = (if in_i64 (n + i) then Inr (n + i) else Inl (RedisErr ''increment or decrement would overflow''))"
    using assms(4) from_utf8_lossy_ascii [OF int_to_text_ascii, of n] parse_int_to_text [of n]
    by (simp add: incremented_def counter_of_def in_i64_def)
  ultimately show ?thesis
    using incr_decr_leaves [OF assms(1,2), of clk i]
    by (auto simp: leaves_def ends_def expiry_of_def)
qed

theorem counter_exact_witness:
  "\<exists>V. incr_decr map_env (\<lambda>_. 5) [107] 1 (map_redis V)
    = (Inl (RedisErr ''increment or decrement would overflow''), map_redis V)"
proof -
  let ?t = "int_to_text (2 ^ 63 - 1)"
  let ?V = "\<lambda>cf k. if cf = cf_name MetaCF \<and> k = base_key_bytes [107] then Some (string_bytes ?t 0 0) else None"
  have "fits ?t"
    using length_int_to_text [of "2 ^ 63 - 1"] by (simp add: fits_def)
  then have "holds (contents_of (\<lambda>V. V) (map_redis ?V)) [107] (Some (?t, 0))"
    by (auto simp: holds_def simp del: cf_name.simps)
  from counter_exact [OF instance_ok_map this, of "\<lambda>_. 5" 1] show ?thesis
    by (intro exI [of _ ?V]) (simp add: in_i64_def expired_def)
qed

end
