(* ===== verification/Custom_Comparator.thy ===== *)
theory Custom_Comparator
  imports Format_Keys
begin

text \<open>
  The two comparators RocksDB is configured with (\<^verbatim>\<open>src/storage/src/custom_comparator.rs\<close>):
  \<open>lists_data_key_compare\<close> orders the \<open>list_data_cf\<close> column family and
  \<open>zsets_score_key_compare\<close> the \<open>zset_score_cf\<close> one. A failed \<open>assert!\<close> or an out-of-range
  slice is \<open>Panic\<close>. RocksDB requires a comparator to be a total preorder on the keys of its column
  family; the locale \<open>key_comparator\<close> states that contract, and the two comparators and the default
  bytewise one are proved to satisfy it on the keys the encoders write.
\<close>

section \<open>Comparison of IEEE 754 doubles given by their bits\<close>

definition f64_is_nan :: "f64 \<Rightarrow> bool" where
  "f64_is_nan w \<longleftrightarrow> 0x7FF0000000000000 < unat w mod 2 ^ 63"

text \<open>For a number that is not a NaN the low 63 bits order the magnitude and the top bit is the sign;
  the two zeros have the same rank.\<close>

definition f64_rank :: "f64 \<Rightarrow> int" where
  "f64_rank w = (if 2 ^ 63 \<le> unat w then - int (unat w mod 2 ^ 63) else int (unat w mod 2 ^ 63))"

definition f64_partial_cmp :: "f64 \<Rightarrow> f64 \<Rightarrow> ordering option" where
  "f64_partial_cmp a b =
     (if f64_is_nan a \<or> f64_is_nan b then None else Some (cmp_of (f64_rank a) (f64_rank b)))"

section \<open>The comparators\<close>

text \<open>\<open>decode_fixed::<u64>(&a[start..])\<close>.\<close>

definition decode_u64_from :: "bytes \<Rightarrow> nat \<Rightarrow> u64 result" where
  "decode_u64_from a start =
     rbind (slice a start (length a)) (\<lambda>s. decode_fixed 8 u64_from_le_bytes s)"

definition lists_data_key_compare :: "bytes \<Rightarrow> bytes \<Rightarrow> ordering result" where
  "lists_data_key_compare a b =
     rbind (ensure (a \<noteq> [] \<and> b \<noteq> []) (Panic ''assertion failed'')) (\<lambda>_.
     let a_size = length a; b_size = length b in
     if a_size \<le> PREFIX_RESERVE_LENGTH \<or> b_size \<le> PREFIX_RESERVE_LENGTH then Inr (bytes_cmp a b) else
     rbind (slice a PREFIX_RESERVE_LENGTH a_size) (\<lambda>a_ptr.
     rbind (slice b PREFIX_RESERVE_LENGTH b_size) (\<lambda>b_ptr.
     let a_userkey_end = seek_userkey_delim a_ptr; b_userkey_end = seek_userkey_delim b_ptr in
     rbind (slice a 0 (PREFIX_RESERVE_LENGTH + a_userkey_end)) (\<lambda>a_prefix.
     rbind (slice b 0 (PREFIX_RESERVE_LENGTH + b_userkey_end)) (\<lambda>b_prefix.
     if bytes_cmp a_prefix b_prefix \<noteq> Equal then Inr (bytes_cmp a_prefix b_prefix) else
     if PREFIX_RESERVE_LENGTH + a_userkey_end = a_size \<and> PREFIX_RESERVE_LENGTH + b_userkey_end = b_size
     then Inr Equal else
     if PREFIX_RESERVE_LENGTH + a_userkey_end = a_size then Inr Less else
     if PREFIX_RESERVE_LENGTH + b_userkey_end = b_size then Inr Greater else
     let a_version_start = PREFIX_RESERVE_LENGTH + a_userkey_end;
         b_version_start = PREFIX_RESERVE_LENGTH + b_userkey_end in
     if a_version_start + VERSION_LENGTH > a_size \<or> b_version_start + VERSION_LENGTH > b_size
     then Inr (bytes_cmp a b) else
     rbind (decode_u64_from a a_version_start) (\<lambda>version_a.
     rbind (decode_u64_from b b_version_start) (\<lambda>version_b.
     if cmp_of version_a version_b \<noteq> Equal then Inr (cmp_of version_a version_b) else
     let a_index_start = a_version_start + VERSION_LENGTH;
         b_index_start = b_version_start + VERSION_LENGTH in
     if a_index_start + VERSION_LENGTH > a_size \<or> b_index_start + VERSION_LENGTH > b_size
     then Inr (bytes_cmp a b) else
     rbind (decode_u64_from a a_index_start) (\<lambda>index_a.
     rbind (decode_u64_from b b_index_start) (\<lambda>index_b.
     Inr (cmp_of index_a index_b))))))))))"

text \<open>The \<open>match\<close> on \<open>partial_cmp\<close>: \<open>Some\<close> of the ordering that is returned, or \<open>None\<close> when the
  comparison goes on with the members.\<close>

definition score_decides :: "f64 \<Rightarrow> f64 \<Rightarrow> ordering option" where
  "score_decides score_a score_b =
     (case f64_partial_cmp score_a score_b of
        Some ord \<Rightarrow> if ord \<noteq> Equal then Some ord else None
      | None \<Rightarrow>
          if f64_is_nan score_a \<and> \<not> f64_is_nan score_b then Some Greater
          else if \<not> f64_is_nan score_a \<and> f64_is_nan score_b then Some Less
          else None)"

definition zsets_score_key_compare :: "bytes \<Rightarrow> bytes \<Rightarrow> ordering result" where
  "zsets_score_key_compare a b =
     rbind (ensure (length a > PREFIX_RESERVE_LENGTH) (Panic ''assertion failed'')) (\<lambda>_.
     rbind (ensure (length b > PREFIX_RESERVE_LENGTH) (Panic ''assertion failed'')) (\<lambda>_.
     let a_size = length a; b_size = length b in
     rbind (slice a PREFIX_RESERVE_LENGTH a_size) (\<lambda>a_ptr.
     rbind (slice b PREFIX_RESERVE_LENGTH b_size) (\<lambda>b_ptr.
     let a_userkey_end = seek_userkey_delim a_ptr; b_userkey_end = seek_userkey_delim b_ptr in
     rbind (slice a PREFIX_RESERVE_LENGTH (PREFIX_RESERVE_LENGTH + a_userkey_end)) (\<lambda>a_prefix.
     rbind (slice b PREFIX_RESERVE_LENGTH (PREFIX_RESERVE_LENGTH + b_userkey_end)) (\<lambda>b_prefix.
     if bytes_cmp a_prefix b_prefix \<noteq> Equal then Inr (bytes_cmp a_prefix b_prefix) else
     let a_version_start = PREFIX_RESERVE_LENGTH + a_userkey_end;
         b_version_start = PREFIX_RESERVE_LENGTH + b_userkey_end in
     if a_version_start + VERSION_LENGTH > a_size \<or> b_version_start + VERSION_LENGTH > b_size
     then Inr (bytes_cmp a b) else
     rbind (decode_u64_from a a_version_start) (\<lambda>version_a.
     rbind (decode_u64_from b b_version_start) (\<lambda>version_b.
     if cmp_of version_a version_b \<noteq> Equal then Inr (cmp_of version_a version_b) else
     let a_score_start = a_version_start + VERSION_LENGTH;
         b_score_start = b_version_start + VERSION_LENGTH in
     if a_score_start + VERSION_LENGTH > a_size \<or> b_score_start + VERSION_LENGTH > b_size
     then Inr (bytes_cmp a b) else
     rbind (decode_u64_from a a_score_start) (\<lambda>score_a.
     rbind (decode_u64_from b b_score_start) (\<lambda>score_b.
     case score_decides score_a score_b of
       Some ord \<Rightarrow> Inr ord
     | None \<Rightarrow>
       rbind (slice a (a_score_start + VERSION_LENGTH) a_size) (\<lambda>a_rest.
       rbind (slice b (b_score_start + VERSION_LENGTH) b_size) (\<lambda>b_rest.
       Inr (bytes_cmp a_rest b_rest)))))))))))))"

section \<open>Lexicographic combination of preorders\<close>

definition cmp_preorder :: "('a \<Rightarrow> 'a \<Rightarrow> ordering) \<Rightarrow> bool" where
  "cmp_preorder f \<longleftrightarrow> (\<forall>a b. f b a = reverse_ordering (f a b))
     \<and> (\<forall>a b c. f a b \<noteq> Greater \<longrightarrow> f b c \<noteq> Greater \<longrightarrow> f a c \<noteq> Greater)"

lemma cmp_preorderI:
  assumes "\<And>a b. f b a = reverse_ordering (f a b)"
    and "\<And>a b c. f a b \<noteq> Greater \<Longrightarrow> f b c \<noteq> Greater \<Longrightarrow> f a c \<noteq> Greater"
  shows "cmp_preorder f"
  using assms unfolding cmp_preorder_def by blast

lemma cmp_preorder_flip: "cmp_preorder f \<Longrightarrow> f b a = reverse_ordering (f a b)"
  unfolding cmp_preorder_def by blast

lemma cmp_preorder_trans:
  "cmp_preorder f \<Longrightarrow> f a b \<noteq> Greater \<Longrightarrow> f b c \<noteq> Greater \<Longrightarrow> f a c \<noteq> Greater"
  unfolding cmp_preorder_def by blast

lemma reverse_ordering_eq [simp]:
  "reverse_ordering x = Less \<longleftrightarrow> x = Greater"
  "reverse_ordering x = Greater \<longleftrightarrow> x = Less"
  "reverse_ordering x = Equal \<longleftrightarrow> x = Equal"
  "Less = reverse_ordering x \<longleftrightarrow> x = Greater"
  "Greater = reverse_ordering x \<longleftrightarrow> x = Less"
  by (cases x; simp)+

lemma cmp_preorder_strict:
  assumes "cmp_preorder f" and "f a b = Less" and "f b c \<noteq> Greater"
  shows "f a c = Less"
proof (rule ccontr)
  assume "f a c \<noteq> Less"
  then have "f c a \<noteq> Greater" using cmp_preorder_flip [OF assms(1), where a = a and b = c] by simp
  then have "f b a \<noteq> Greater" using cmp_preorder_trans [OF assms(1), of b c a] assms(3) by simp
  then show False using cmp_preorder_flip [OF assms(1), where a = a and b = b] assms(2) by simp
qed

lemma cmp_preorder_strict':
  assumes "cmp_preorder f" and "f a b \<noteq> Greater" and "f b c = Less"
  shows "f a c = Less"
proof -
  have "f c b = Greater" using cmp_preorder_flip [OF assms(1), where a = b and b = c] assms(3) by simp
  then have "f c a = Greater"
    using cmp_preorder_trans [OF assms(1), of c a b] assms(2) by auto
  then show ?thesis using cmp_preorder_flip [OF assms(1), where a = a and b = c] by simp
qed

lemma cmp_preorder_lex:
  assumes f: "cmp_preorder f" and g: "cmp_preorder g"
  shows "cmp_preorder (\<lambda>x y. then_cmp (f (p x) (p y)) (g (q x) (q y)))"
proof (rule cmp_preorderI)
  show "then_cmp (f (p b) (p a)) (g (q b) (q a))
      = reverse_ordering (then_cmp (f (p a) (p b)) (g (q a) (q b)))" for a b
    by (simp add: reverse_then_cmp cmp_preorder_flip [OF f, where a = "p a" and b = "p b"]
        cmp_preorder_flip [OF g, where a = "q a" and b = "q b"])
next
  fix a b c
  assume ab: "then_cmp (f (p a) (p b)) (g (q a) (q b)) \<noteq> Greater"
    and bc: "then_cmp (f (p b) (p c)) (g (q b) (q c)) \<noteq> Greater"
  then have fab: "f (p a) (p b) \<noteq> Greater" and fbc: "f (p b) (p c) \<noteq> Greater"
    by (auto simp: then_cmp_def split: if_splits)
  show "then_cmp (f (p a) (p c)) (g (q a) (q c)) \<noteq> Greater"
  proof (cases "f (p a) (p b) = Less \<or> f (p b) (p c) = Less")
    case True
    then have "f (p a) (p c) = Less"
      using cmp_preorder_strict [OF f _ fbc] cmp_preorder_strict' [OF f fab] by blast
    then show ?thesis by simp
  next
    case False
    then have eqs: "f (p a) (p b) = Equal" "f (p b) (p c) = Equal"
      using fab fbc by (metis ordering.exhaust)+
    then have "g (q a) (q c) \<noteq> Greater"
      using ab bc cmp_preorder_trans [OF g, of "q a" "q b" "q c"] by (simp add: then_cmp_def)
    moreover have "f (p a) (p c) \<noteq> Greater" by (rule cmp_preorder_trans [OF f fab fbc])
    ultimately show ?thesis by (simp add: then_cmp_def)
  qed
qed

lemma cmp_preorder_pullback: "cmp_preorder f \<Longrightarrow> cmp_preorder (\<lambda>x y. f (p x) (p y))"
  unfolding cmp_preorder_def by blast

lemma cmp_preorder_cmp_of: "cmp_preorder cmp_of"
  by (rule cmp_preorderI, rule cmp_of_flip) (use cmp_of_trans in blast)

lemma cmp_preorder_bytes: "cmp_preorder bytes_cmp"
  by (rule cmp_preorderI, rule bytes_cmp_flip) (rule bytes_cmp_trans)

section \<open>The comparators on encoded keys\<close>

lemma decode_u64_from_field [simp]:
  "start = length pre \<Longrightarrow> decode_u64_from (pre @ u64_le v @ rest) start = Inr v"
  by (simp add: decode_u64_from_def slice_def)

text \<open>The rank a score has in the order of the comparator: NaNs are equal and above every number.\<close>

definition score_rank :: "f64 \<Rightarrow> int" where
  "score_rank w = (if f64_is_nan w then 2 ^ 64 else f64_rank w)"

lemma f64_rank_less: "f64_rank w < 2 ^ 64"
proof -
  obtain n where "unat w mod 2 ^ 63 = n" and "n < 2 ^ 63" by simp
  then show ?thesis unfolding f64_rank_def by auto
qed

lemma score_decides_rank:
  "score_decides a b =
     (if score_rank a = score_rank b then None else Some (cmp_of (score_rank a) (score_rank b)))"
  using f64_rank_less [of a] f64_rank_less [of b]
  by (auto simp: score_decides_def score_rank_def f64_partial_cmp_def cmp_of_def)

lemma bytes_cmp_zeros_less: "n < length ys \<Longrightarrow> bytes_cmp (replicate n 0) ys = Less"
proof (induction n arbitrary: ys)
  case 0
  then show ?case by (cases ys) simp_all
next
  case (Suc n)
  then show ?case by (cases ys) (auto simp: cmp_of_def then_cmp_def word_neq_0_conv)
qed

text \<open>The trailing reserve of zeros does not disturb the order of the members.\<close>

lemma bytes_cmp_zero_pad [simp]:
  "bytes_cmp (x @ replicate n 0) (y @ replicate n 0) = bytes_cmp x y"
proof (induction x y rule: bytes_cmp.induct)
  case (2 b bs)
  then show ?case using bytes_cmp_zeros_less [of n "b # bs @ replicate n 0"] by simp
next
  case (3 a as)
  then show ?case
    using bytes_cmp_zeros_less [of n "a # as @ replicate n 0"]
      bytes_cmp_flip [of "replicate n 0" "a # as @ replicate n 0"] by simp
qed simp_all

lemma bytes_cmp_encoded_only: "bytes_cmp (encoded_user_key k) (encoded_user_key k') = bytes_cmp k k'"
  using bytes_cmp_encoded [of k "[]" k' "[]"] by simp

definition lists_key_order :: "bytes \<times> u64 \<times> u64 \<Rightarrow> bytes \<times> u64 \<times> u64 \<Rightarrow> ordering" where
  "lists_key_order = (\<lambda>(k, v, i) (k', v', i').
     then_cmp (bytes_cmp k k') (then_cmp (cmp_of v v') (cmp_of i i')))"

definition score_key_order ::
  "bytes \<times> u64 \<times> f64 \<times> bytes \<Rightarrow> bytes \<times> u64 \<times> f64 \<times> bytes \<Rightarrow> ordering" where
  "score_key_order = (\<lambda>(k, v, s, m) (k', v', s', m').
     then_cmp (bytes_cmp k k') (then_cmp (cmp_of v v')
       (then_cmp (cmp_of (score_rank s) (score_rank s')) (bytes_cmp m m'))))"

definition score_key_bytes :: "bytes \<times> u64 \<times> f64 \<times> bytes \<Rightarrow> bytes" where
  "score_key_bytes = (\<lambda>(k, v, s, m).
     replicate 8 0 @ encoded_user_key k @ u64_le v @ u64_le s @ m @ replicate 16 0)"

lemma zsets_score_key_encode_new:
  "zsets_score_key_encode (zsets_score_key_new k v s m) = Inr (score_key_bytes (k, v, s, m))"
  by (simp add: zsets_score_key_encode_eq zsets_score_key_new_def score_key_bytes_def)

lemma lists_data_key_compare_encoded:
  "lists_data_key_compare (lists_data_key_bytes k v i) (lists_data_key_bytes k' v' i')
     = Inr (lists_key_order (k, v, i) (k', v', i'))"
proof -
  have idx: "decode_u64_from (replicate 8 0 @ encoded_user_key k @ u64_le v @ u64_le i @ replicate 16 0)
      (16 + length (encoded_user_key k)) = Inr i" for k v i
    using decode_u64_from_field [of _ "replicate 8 0 @ encoded_user_key k @ u64_le v"] by simp
  have ver: "decode_u64_from (replicate 8 0 @ encoded_user_key k @ u64_le v @ r)
      (8 + length (encoded_user_key k)) = Inr v" for k v r
    using decode_u64_from_field [of _ "replicate 8 0 @ encoded_user_key k"] by simp
  have pre: "slice (replicate 8 0 @ encoded_user_key k @ r) 0 (8 + length (encoded_user_key k))
      = Inr (replicate 8 0 @ encoded_user_key k)" for k r
    by (simp add: slice_def)
  have tail: "slice (replicate 8 0 @ r) 8 (8 + length r) = Inr (r :: bytes)" for r
    by (simp add: slice_def)
  show ?thesis
    unfolding lists_data_key_bytes_def lists_data_key_compare_def Let_def
    using tail [of "encoded_user_key k @ u64_le v @ u64_le i @ replicate 16 0"]
      tail [of "encoded_user_key k' @ u64_le v' @ u64_le i' @ replicate 16 0"]
    by (simp add: ver idx pre bytes_cmp_encoded_only lists_key_order_def then_cmp_def)
qed

lemma zsets_score_key_compare_encoded:
  "zsets_score_key_compare (score_key_bytes (k, v, s, m)) (score_key_bytes (k', v', s', m'))
     = Inr (score_key_order (k, v, s, m) (k', v', s', m'))"
proof -
  have sco: "decode_u64_from (replicate 8 0 @ encoded_user_key k @ u64_le v @ u64_le i @ r)
      (16 + length (encoded_user_key k)) = Inr i" for k v i r
    using decode_u64_from_field [of _ "replicate 8 0 @ encoded_user_key k @ u64_le v"] by simp
  have ver: "decode_u64_from (replicate 8 0 @ encoded_user_key k @ u64_le v @ r)
      (8 + length (encoded_user_key k)) = Inr v" for k v r
    using decode_u64_from_field [of _ "replicate 8 0 @ encoded_user_key k"] by simp
  have pre: "slice (replicate 8 0 @ encoded_user_key k @ r) 8 (8 + length (encoded_user_key k))
      = Inr (encoded_user_key k)" for k r
    by (simp add: slice_def)
  have tail: "n = 8 + length r \<Longrightarrow> slice (replicate 8 0 @ r) 8 n = Inr (r :: bytes)" for r n
    by (simp add: slice_def)
  have rest: "n = 24 + length (encoded_user_key k) + length r \<Longrightarrow>
      slice (replicate 8 0 @ encoded_user_key k @ u64_le v @ u64_le s @ r)
        (24 + length (encoded_user_key k)) n = Inr r" for k v s r n
    by (simp add: slice_def)
  show ?thesis
    unfolding score_key_bytes_def zsets_score_key_compare_def Let_def prod.case
    by (simp add: ver sco pre tail rest bytes_cmp_encoded_only score_key_order_def then_cmp_def
        score_decides_rank)
qed

section \<open>The contract of a RocksDB comparator\<close>

text \<open>
  On the keys of its column family a comparator never panics and is a total preorder.
\<close>

locale key_comparator =
  fixes cmp :: "bytes \<Rightarrow> bytes \<Rightarrow> ordering result"
    and keys :: "bytes set"
  assumes cmp_total: "a \<in> keys \<Longrightarrow> b \<in> keys \<Longrightarrow> \<exists>r. cmp a b = Inr r"
    and cmp_flip: "a \<in> keys \<Longrightarrow> b \<in> keys \<Longrightarrow> cmp a b = Inr r \<Longrightarrow> cmp b a = Inr (reverse_ordering r)"
    and cmp_trans: "a \<in> keys \<Longrightarrow> b \<in> keys \<Longrightarrow> c \<in> keys \<Longrightarrow> cmp a b \<noteq> Inr Greater \<Longrightarrow>
      cmp b c \<noteq> Inr Greater \<Longrightarrow> cmp a c \<noteq> Inr Greater"
begin

lemma cmp_refl: "a \<in> keys \<Longrightarrow> cmp a a = Inr Equal"
proof -
  assume a: "a \<in> keys"
  then obtain r where r: "cmp a a = Inr r" using cmp_total by blast
  then have "r = reverse_ordering r" using cmp_flip [OF a a] by simp
  then show ?thesis using r by (cases r) simp_all
qed

lemma not_less_iff: "a \<in> keys \<Longrightarrow> b \<in> keys \<Longrightarrow> cmp a b \<noteq> Inr Less \<longleftrightarrow> cmp b a \<noteq> Inr Greater"
  using cmp_total [of a b] cmp_flip [of a b] by auto

end

lemma key_comparator_encoded:
  assumes cmp: "\<And>x y. cmp (enc x) (enc y) = Inr (ord x y)" and ord: "cmp_preorder ord"
  shows "key_comparator cmp (range enc)"
proof
  fix a b
  assume "a \<in> range enc" and "b \<in> range enc"
  then obtain x y where xy: "a = enc x" "b = enc y" by (elim rangeE)
  show "\<exists>r. cmp a b = Inr r" unfolding xy cmp by blast
  show "cmp b a = Inr (reverse_ordering r)" if "cmp a b = Inr r" for r
    using that unfolding xy cmp cmp_preorder_flip [OF ord, where a = x and b = y] by simp
next
  fix a b c
  assume "a \<in> range enc" and "b \<in> range enc" and "c \<in> range enc"
  then obtain x y z where xyz: "a = enc x" "b = enc y" "c = enc z" by (elim rangeE)
  show "cmp a c \<noteq> Inr Greater" if "cmp a b \<noteq> Inr Greater" and "cmp b c \<noteq> Inr Greater"
    using that cmp_preorder_trans [OF ord, of x y z] unfolding xyz cmp by simp
qed

definition lists_data_key_of :: "bytes \<times> u64 \<times> u64 \<Rightarrow> bytes" where
  "lists_data_key_of = (\<lambda>(k, v, i). lists_data_key_bytes k v i)"

lemma lists_key_order_preorder: "cmp_preorder lists_key_order"
proof -
  let ?h = "\<lambda>x y. then_cmp (cmp_of (fst x) (fst y)) (cmp_of (snd x) (snd y))"
  have eq: "lists_key_order = (\<lambda>x y. then_cmp (bytes_cmp (fst x) (fst y)) (?h (snd x) (snd y)))"
    by (auto simp: lists_key_order_def fun_eq_iff)
  have "cmp_preorder ?h"
    by (rule cmp_preorder_lex [where p = fst and q = snd, OF cmp_preorder_cmp_of cmp_preorder_cmp_of])
  then show ?thesis
    unfolding eq by (rule cmp_preorder_lex [where p = fst and q = snd, OF cmp_preorder_bytes])
qed

lemma score_key_order_preorder: "cmp_preorder score_key_order"
proof -
  let ?g = "\<lambda>x y. then_cmp (cmp_of (score_rank (fst x)) (score_rank (fst y))) (bytes_cmp (snd x) (snd y))"
  let ?h = "\<lambda>x y. then_cmp (cmp_of (fst x) (fst y)) (?g (snd x) (snd y))"
  have eq: "score_key_order = (\<lambda>x y. then_cmp (bytes_cmp (fst x) (fst y)) (?h (snd x) (snd y)))"
    by (auto simp: score_key_order_def fun_eq_iff)
  have "cmp_preorder ?g"
    by (rule cmp_preorder_lex [where p = "\<lambda>x. score_rank (fst x)" and q = snd,
          OF cmp_preorder_cmp_of cmp_preorder_bytes])
  then have "cmp_preorder ?h"
    by (rule cmp_preorder_lex [where p = fst and q = snd, OF cmp_preorder_cmp_of])
  then show ?thesis
    unfolding eq by (rule cmp_preorder_lex [where p = fst and q = snd, OF cmp_preorder_bytes])
qed

interpretation bytewise_comparator: key_comparator "\<lambda>a b. Inr (bytes_cmp a b)" "range (\<lambda>b. b)"
  by (rule key_comparator_encoded [OF _ cmp_preorder_bytes]) simp

interpretation lists_comparator: key_comparator lists_data_key_compare "range lists_data_key_of"
  by (rule key_comparator_encoded [OF _ lists_key_order_preorder])
    (auto simp: lists_data_key_of_def lists_data_key_compare_encoded)

interpretation score_comparator: key_comparator zsets_score_key_compare "range score_key_bytes"
  by (rule key_comparator_encoded [OF _ score_key_order_preorder])
    (metis zsets_score_key_compare_encoded prod_cases4)

section \<open>Properties of the comparators\<close>

text \<open>C16: on encoded element keys the comparator of \<open>list_data_cf\<close> never panics and orders by user key
  (bytewise on the unescaped keys), then by version, then by index, both as unsigned numbers although
  they are stored little-endian; it calls two keys equal only when they are the same key.\<close>

theorem lists_comparator_order:
  "rbind (lists_data_key_encode (lists_data_key_new k v i)) (\<lambda>a.
   rbind (lists_data_key_encode (lists_data_key_new k' v' i')) (\<lambda>b. lists_data_key_compare a b))
     = Inr (then_cmp (bytes_cmp k k') (then_cmp (cmp_of v v') (cmp_of i i')))
   \<and> (lists_data_key_compare (lists_data_key_of (k, v, i)) (lists_data_key_of (k', v', i')) = Inr Equal
        \<longleftrightarrow> lists_data_key_of (k, v, i) = lists_data_key_of (k', v', i'))"
  by (auto simp: lists_data_key_compare_encoded lists_key_order_def lists_data_key_of_def)

text \<open>C17: on encoded score keys the comparator of \<open>zset_score_cf\<close> never panics and orders by user key,
  version, score and member: scores compare as IEEE doubles with the two zeros equal, every NaN is
  above every number and equal to the other NaNs, and the zero padding behind the member does not
  disturb the bytewise order of the members.\<close>

theorem score_comparator_order:
  "rbind (zsets_score_key_encode (zsets_score_key_new k v s m)) (\<lambda>a.
   rbind (zsets_score_key_encode (zsets_score_key_new k' v' s' m')) (\<lambda>b. zsets_score_key_compare a b))
     = Inr (then_cmp (bytes_cmp k k') (then_cmp (cmp_of v v')
         (then_cmp (case f64_partial_cmp s s' of
                      Some r \<Rightarrow> r
                    | None \<Rightarrow> if f64_is_nan s then (if f64_is_nan s' then Equal else Greater) else Less)
           (bytes_cmp m m'))))"
proof -
  have "cmp_of (score_rank s) (score_rank s') = (case f64_partial_cmp s s' of
      Some r \<Rightarrow> r
    | None \<Rightarrow> if f64_is_nan s then (if f64_is_nan s' then Equal else Greater) else Less)"
    using f64_rank_less [of s] f64_rank_less [of s']
    by (auto simp: score_rank_def f64_partial_cmp_def cmp_of_def)
  then show ?thesis
    by (simp add: zsets_score_key_encode_new zsets_score_key_compare_encoded score_key_order_def)
qed

end
