(* ===== verification/Rocks_Iterator.thy ===== *)
theory Rocks_Iterator
  imports Redis_Core Custom_Comparator
begin

text \<open>
  Iterators of the storage. The comparator of each column family is the one
  \<^verbatim>\<open>src/storage/src/redis.rs\<close> sets; the hypothesis \<open>iter_ok\<close> states what the code relies on of
  RocksDB's iterators: from the seek point on they return the pairs of the family, in the order of
  its comparator, each once. An association list with a sorting iterator is an instance.
\<close>

section \<open>The order of a column family\<close>

definition cf_compare :: "string \<Rightarrow> bytes \<Rightarrow> bytes \<Rightarrow> ordering result" where
  "cf_compare name a b =
     (if name = cf_name ListsDataCF then lists_data_key_compare a b
      else if name = cf_name ZsetsScoreCF then zsets_score_key_compare a b
      else Inr (bytes_cmp a b))"

abbreviation before :: "string \<Rightarrow> bytes \<Rightarrow> bytes \<Rightarrow> bool" where
  "before cf a b \<equiv> cf_compare cf a b = Inr Less"

text \<open>RocksDB needs a comparator that orders the stored keys strictly and totally.\<close>

definition ordered_keys :: "string \<Rightarrow> bytes set \<Rightarrow> bool" where
  "ordered_keys cf K \<longleftrightarrow>
     (\<forall>a \<in> K. \<forall>b \<in> K. a = b \<or> before cf a b \<or> before cf b a)
     \<and> (\<forall>a \<in> K. \<forall>b \<in> K. before cf a b \<longrightarrow> \<not> before cf b a)
     \<and> (\<forall>a \<in> K. \<forall>b \<in> K. \<forall>c \<in> K. before cf a b \<longrightarrow> before cf b c \<longrightarrow> before cf a c)"

fun seek_keys :: "iter_mode \<Rightarrow> bytes set" where
  "seek_keys IterStart = {}"
| "seek_keys (IterFrom k d) = {k}"

text \<open>The keys an iterator reaches from its seek point, and the order it returns them in.\<close>

fun reached :: "string \<Rightarrow> iter_mode \<Rightarrow> bytes \<Rightarrow> bool" where
  "reached cf IterStart k \<longleftrightarrow> True"
| "reached cf (IterFrom t Forward) k \<longleftrightarrow> k = t \<or> before cf t k"
| "reached cf (IterFrom t Reverse) k \<longleftrightarrow> k = t \<or> before cf k t"

fun walk_before :: "string \<Rightarrow> iter_mode \<Rightarrow> bytes \<times> bytes \<Rightarrow> bytes \<times> bytes \<Rightarrow> bool" where
  "walk_before cf (IterFrom _ Reverse) x y \<longleftrightarrow> before cf (fst y) (fst x)"
| "walk_before cf _ x y \<longleftrightarrow> before cf (fst x) (fst y)"

definition iter_ok :: "'db rocks_db \<Rightarrow> ('db \<Rightarrow> contents) \<Rightarrow> bool" where
  "iter_ok R view \<longleftrightarrow>
     (\<forall>db cf mode. ordered_keys cf (dom (view db cf) \<union> seek_keys mode) \<longrightarrow>
        (\<exists>items. rk_iter R db cf mode = map Inr items \<and> sorted_wrt (walk_before cf mode) items
           \<and> set items = {(k, v). view db cf k = Some v \<and> reached cf mode k}))"

text \<open>\<open>db.iterator_cf(cf, mode)\<close> and \<open>item.context(RocksSnafu)\<close>.\<close>

definition iterator_cf :: "('db, 'c) env \<Rightarrow> 'db \<Rightarrow> string \<Rightarrow> iter_mode \<Rightarrow> (bytes \<times> bytes) result list" where
  "iterator_cf E db cf mode = map rocks_context (rk_iter (en_rocks E) db cf mode)"

lemma sorted_wrt_unique:
  assumes asym: "\<And>x y. R x y \<Longrightarrow> \<not> R y x"
  shows "sorted_wrt R xs \<Longrightarrow> sorted_wrt R ys \<Longrightarrow> set xs = set ys \<Longrightarrow> xs = ys"
proof (induction xs arbitrary: ys)
  case (Cons x xs)
  obtain y ys' where ys: "ys = y # ys'"
    using Cons.prems(3) by (cases ys) auto
  have "x = y"
  proof (rule ccontr)
    assume "x \<noteq> y"
    moreover have "x \<in> set ys" "y \<in> set (x # xs)"
      using Cons.prems(3) ys by auto
    ultimately have "R x y" "R y x"
      using Cons.prems(1,2) ys by auto
    then show False
      using asym [of x y] by simp
  qed
  moreover have irrefl: "\<not> R y y"
    using asym [of y y] by blast
  then have "x \<notin> set xs" "y \<notin> set ys'"
    using Cons.prems(1,2) ys \<open>x = y\<close> by auto
  then have "set xs = set ys'"
    using Cons.prems(3) ys \<open>x = y\<close> by auto
  then have "xs = ys'"
    using Cons.IH [of ys'] Cons.prems(1,2) ys by simp
  ultimately show ?case using ys by simp
next
  case Nil
  then show ?case by simp
qed

lemma iterator_items:
  assumes "instance_ok E view st" and "iter_ok (en_rocks E) view"
    and "ordered_keys cf (dom (contents_of view st cf) \<union> seek_keys mode)"
  obtains items where "iterator_cf E (the (rd_db st)) cf mode = map Inr items"
    and "sorted_wrt (walk_before cf mode) items"
    and "set items = {(k, v). contents_of view st cf k = Some v \<and> reached cf mode k}"
proof -
  obtain items where "rk_iter (en_rocks E) (the (rd_db st)) cf mode = map Inr items"
      "sorted_wrt (walk_before cf mode) items"
      "set items = {(k, v). contents_of view st cf k = Some v \<and> reached cf mode k}"
    using assms(2,3) unfolding iter_ok_def contents_of_def by blast
  then show ?thesis
    by (intro that [of items]) (simp_all add: iterator_cf_def rocks_context_def)
qed

section \<open>Families ordered by their bytes\<close>

lemma bytes_cmp_less_asym: "bytes_cmp a b = Less \<Longrightarrow> bytes_cmp b a \<noteq> Less"
  using bytes_cmp_flip [of a b] by simp

lemma bytes_cmp_less_trans: "bytes_cmp a b = Less \<Longrightarrow> bytes_cmp b c = Less \<Longrightarrow> bytes_cmp a c = Less"
  using cmp_preorder_strict [OF cmp_preorder_bytes, of a b c] by simp

lemma bytes_cmp_total: "a = b \<or> bytes_cmp a b = Less \<or> bytes_cmp b a = Less"
proof (cases "bytes_cmp a b")
  case Greater
  then show ?thesis
    using bytes_cmp_flip [of b a] by simp
qed auto

abbreviation bytewise :: "string \<Rightarrow> bool" where
  "bytewise cf \<equiv> cf \<noteq> cf_name ListsDataCF \<and> cf \<noteq> cf_name ZsetsScoreCF"

lemma cf_compare_bytewise [simp]: "bytewise cf \<Longrightarrow> cf_compare cf a b = Inr (bytes_cmp a b)"
  by (simp add: cf_compare_def)

lemma ordered_keys_bytewise: "bytewise cf \<Longrightarrow> ordered_keys cf K"
  unfolding ordered_keys_def
proof (intro conjI ballI impI)
  fix a b c
  assume cf: "bytewise cf"
  then show "a = b \<or> before cf a b \<or> before cf b a"
    using bytes_cmp_total by simp
  show "\<not> before cf b a" if "before cf a b"
    using cf that bytes_cmp_less_asym [of a b] by simp
  show "before cf a c" if "before cf a b" "before cf b c"
    using cf that bytes_cmp_less_trans [of a b c] by simp
qed

section \<open>A database with iterators\<close>

text \<open>An association list from column family and key to the value.\<close>

type_synonym alist_db = "((string \<times> bytes) \<times> bytes) list"

fun alist_op :: "write_op \<Rightarrow> alist_db \<Rightarrow> alist_db" where
  "alist_op (WPut cf k v) db = ((cf, k), v) # db"
| "alist_op (WDelete cf k) db = filter (\<lambda>(x, _). x \<noteq> (cf, k)) db"

definition alist_view :: "alist_db \<Rightarrow> contents" where
  "alist_view db cf k = map_of db (cf, k)"

fun insert_by :: "('a \<Rightarrow> 'a \<Rightarrow> bool) \<Rightarrow> 'a \<Rightarrow> 'a list \<Rightarrow> 'a list" where
  "insert_by le x [] = [x]"
| "insert_by le x (y # ys) = (if le x y then x # y # ys else y # insert_by le x ys)"

definition alist_items :: "alist_db \<Rightarrow> string \<Rightarrow> iter_mode \<Rightarrow> (bytes \<times> bytes) list" where
  "alist_items db cf mode =
     map (\<lambda>k. (k, the (alist_view db cf k)))
       (foldr (insert_by (\<lambda>a b. walk_before cf mode (a, []) (b, [])))
          (remdups (map (snd \<circ> fst) (filter (\<lambda>((c, k), _). c = cf \<and> reached cf mode k) db))) [])"

definition alist_rocks :: "alist_db rocks_db" where
  "alist_rocks =
     \<lparr>rk_get = (\<lambda>db cf k. Inr (alist_view db cf k)),
      rk_write = (\<lambda>db ops. (Inr (), fold alist_op ops db)),
      rk_cf_handle = (\<lambda>_ name. Some name),
      rk_iter = (\<lambda>db cf mode. map Inr (alist_items db cf mode))\<rparr>"

lemma alist_view_op: "alist_view (alist_op op db) = apply_op op (alist_view db)"
proof (cases op)
  case (WPut cf k v)
  then show ?thesis by (auto simp: alist_view_def fun_eq_iff)
next
  case (WDelete cf k)
  have "map_of (filter (\<lambda>(x, _). x \<noteq> (cf, k)) db) (c, j)
      = (if (c, j) = (cf, k) then None else map_of db (c, j))" for c j
    by (induction db) auto
  then show ?thesis
    using WDelete by (auto simp: alist_view_def fun_eq_iff)
qed

lemma alist_view_ops: "alist_view (fold alist_op ops db) = apply_ops ops (alist_view db)"
  by (induction ops arbitrary: db) (simp_all add: alist_view_op)

lemma rocks_ok_alist: "rocks_ok alist_rocks alist_view"
  by (simp add: rocks_ok_def alist_rocks_def alist_view_ops)

lemma set_insert_by [simp]: "set (insert_by le x ys) = insert x (set ys)"
  by (induction ys) auto

lemma set_foldr_insert_by [simp]: "set (foldr (insert_by le) xs []) = set xs"
  by (induction xs) auto

lemma sorted_insert_by:
  assumes "sorted_wrt R ys" "\<And>y. y \<in> set ys \<Longrightarrow> R x y \<or> R y x"
    "\<And>y z. y \<in> set ys \<Longrightarrow> z \<in> set ys \<Longrightarrow> R x y \<Longrightarrow> R y z \<Longrightarrow> R x z"
  shows "sorted_wrt R (insert_by R x ys)"
  using assms
proof (induction ys)
  case (Cons y ys)
  show ?case
  proof (cases "R x y")
    case True
    then show ?thesis using Cons.prems(1) Cons.prems(3) [of y] by auto
  next
    case False
    then have "R y x" using Cons.prems(2) [of y] by simp
    moreover have "sorted_wrt R (insert_by R x ys)"
    proof (rule Cons.IH)
      show "R x z" if "z' \<in> set ys" "z \<in> set ys" "R x z'" "R z' z" for z' z
        using Cons.prems(3) [of z' z] that by simp
      show "R x z \<or> R z x" if "z \<in> set ys" for z
        using Cons.prems(2) [of z] that by simp
    qed (use Cons.prems(1) in simp)
    ultimately show ?thesis using False Cons.prems(1) by simp
  qed
qed simp

lemma sorted_foldr_insert_by:
  assumes "distinct xs" "\<And>x y. x \<in> set xs \<Longrightarrow> y \<in> set xs \<Longrightarrow> x \<noteq> y \<Longrightarrow> R x y \<or> R y x"
    "\<And>x y z. x \<in> set xs \<Longrightarrow> y \<in> set xs \<Longrightarrow> z \<in> set xs \<Longrightarrow> R x y \<Longrightarrow> R y z \<Longrightarrow> R x z"
  shows "sorted_wrt R (foldr (insert_by R) xs [])"
  using assms
proof (induction xs)
  case (Cons x xs)
  have sorted: "sorted_wrt R (foldr (insert_by R) xs [])"
  proof (rule Cons.IH)
    show "R y z'" if "y \<in> set xs" "z \<in> set xs" "z' \<in> set xs" "R y z" "R z z'" for y z z'
      using Cons.prems(3) [of y z z'] that by simp
    show "R y z \<or> R z y" if "y \<in> set xs" "z \<in> set xs" "y \<noteq> z" for y z
      using Cons.prems(2) [of y z] that by simp
  qed (use Cons.prems(1) in simp)
  have total: "R x y \<or> R y x" if "y \<in> set (foldr (insert_by R) xs [])" for y
    using that Cons.prems(1) Cons.prems(2) [of x y] by auto
  have trans: "R x z" if "y \<in> set (foldr (insert_by R) xs [])" "z \<in> set (foldr (insert_by R) xs [])"
      "R x y" "R y z" for y z
    using Cons.prems(3) [of x y z] that by simp
  show ?case
  proof -
    have "sorted_wrt R (insert_by R x (foldr (insert_by R) xs []))"
    proof (rule sorted_insert_by [OF sorted])
      fix y assume "y \<in> set (foldr (insert_by R) xs [])"
      then show "R x y \<or> R y x" by (rule total)
    next
      fix y z assume "y \<in> set (foldr (insert_by R) xs [])" "z \<in> set (foldr (insert_by R) xs [])" "R x y" "R y z"
      then show "R x z" by (rule trans)
    qed
    then show ?thesis by simp
  qed
next
  case Nil
  show ?case by simp
qed

lemma walk_before_cases:
  "(\<forall>x y. walk_before cf mode x y = before cf (fst x) (fst y))
    \<or> (\<forall>x y. walk_before cf mode x y = before cf (fst y) (fst x))"
proof (cases mode)
  case (IterFrom k d)
  then show ?thesis by (cases d) simp_all
qed simp

lemma iter_ok_alist: "iter_ok alist_rocks alist_view"
  unfolding iter_ok_def
proof (intro allI impI exI conjI)
  fix db :: alist_db and cf mode
  assume ord: "ordered_keys cf (dom (alist_view db cf) \<union> seek_keys mode)"
  define ks where "ks = remdups (map (snd \<circ> fst) (filter (\<lambda>((c, k), _). c = cf \<and> reached cf mode k) db))"
  let ?R = "\<lambda>a b. walk_before cf mode (a, []) (b, [] :: bytes)"
  show "rk_iter alist_rocks db cf mode = map Inr (alist_items db cf mode)"
    by (simp add: alist_rocks_def)
  have ks: "k \<in> set ks \<longleftrightarrow> k \<in> dom (alist_view db cf) \<and> reached cf mode k" for k
  proof -
    have "k \<in> set ks \<longleftrightarrow> (cf, k) \<in> fst ` set db \<and> reached cf mode k"
      unfolding ks_def by force
    also have "(cf, k) \<in> fst ` set db \<longleftrightarrow> k \<in> dom (alist_view db cf)"
      by (simp add: alist_view_def dom_def map_of_eq_None_iff)
    finally show ?thesis .
  qed
  have R: "(\<forall>x y. ?R x y = before cf x y) \<or> (\<forall>x y. ?R x y = before cf y x)"
    using walk_before_cases [of cf mode] by auto
  have total: "x = y \<or> before cf x y \<or> before cf y x" if "x \<in> set ks" "y \<in> set ks" for x y
    using ord that by (simp add: ks ordered_keys_def)
  have trans: "before cf x z" if "x \<in> set ks" "y \<in> set ks" "z \<in> set ks" "before cf x y" "before cf y z" for x y z
    using ord that unfolding ks ordered_keys_def by blast
  have "sorted_wrt ?R (foldr (insert_by ?R) ks [])"
  proof (rule sorted_foldr_insert_by)
    fix x y assume "x \<in> set ks" "y \<in> set ks" "x \<noteq> y"
    then have "before cf x y \<or> before cf y x"
      using total [of x y] by simp
    then show "?R x y \<or> ?R y x"
      using R by (elim disjE) simp_all
  next
    fix x y z assume "x \<in> set ks" "y \<in> set ks" "z \<in> set ks" "?R x y" "?R y z"
    then show "?R x z"
      using R by (elim disjE) (simp_all add: trans [of x y z] trans [of z y x])
  qed (simp add: ks_def)
  moreover have "(\<lambda>a b. walk_before cf mode (a, the (alist_view db cf a)) (b, the (alist_view db cf b))) = ?R"
    using walk_before_cases [of cf mode] by auto
  ultimately show "sorted_wrt (walk_before cf mode) (alist_items db cf mode)"
    by (simp only: alist_items_def sorted_wrt_map ks_def)
  have items: "set (alist_items db cf mode) = (\<lambda>k. (k, the (alist_view db cf k))) ` set ks"
    by (simp only: alist_items_def set_map set_foldr_insert_by ks_def)
  show "set (alist_items db cf mode) = {(k, v). alist_view db cf k = Some v \<and> reached cf mode k}"
    unfolding items
  proof (intro equalityI subsetI)
    fix x assume "x \<in> (\<lambda>k. (k, the (alist_view db cf k))) ` set ks"
    then obtain k where "x = (k, the (alist_view db cf k))" "k \<in> set ks" by blast
    then show "x \<in> {(k, v). alist_view db cf k = Some v \<and> reached cf mode k}"
      using ks [of k] by auto
  next
    fix x assume "x \<in> {(k, v). alist_view db cf k = Some v \<and> reached cf mode k}"
    then obtain k v where x: "x = (k, v)" "alist_view db cf k = Some v" "reached cf mode k" by blast
    then have "k \<in> set ks" using ks [of k] by blast
    then show "x \<in> (\<lambda>k. (k, the (alist_view db cf k))) ` set ks"
      using x by (intro image_eqI [of _ _ k]) simp_all
  qed
qed

text \<open>An instance over it.\<close>

definition alist_env :: "(alist_db, unit) env" where
  "alist_env =
     \<lparr>en_rocks = alist_rocks, en_crc16 = (\<lambda>k. word_of_nat (length k)), en_latest_seq = (\<lambda>_. 0),
      en_cache_get = (\<lambda>_ _. None), en_cache_insert = (\<lambda>_ _ _. ()), en_cache_remove = (\<lambda>_ _. ())\<rparr>"

definition alist_redis :: "alist_db \<Rightarrow> (alist_db, unit) redis" where
  "alist_redis db =
     \<lparr>rd_db = Some db, rd_handles = map cf_name all_cfs, rd_statistics_store = (),
      rd_small_compaction_threshold = 5000, rd_small_compaction_duration_threshold = 10000,
      rd_append_log_fn = None, rd_logindex_collector = None, rd_bg_tasks = []\<rparr>"

lemma alist_env_sel [simp]: "en_rocks alist_env = alist_rocks"
  by (simp add: alist_env_def)

lemma instance_ok_alist [simp]: "instance_ok alist_env alist_view (alist_redis db)"
  by (simp add: instance_ok_def alist_env_def alist_redis_def rocks_ok_alist)

lemma contents_of_alist [simp]: "contents_of alist_view (alist_redis db) = alist_view db"
  by (simp add: contents_of_def alist_redis_def)

lemma iter_ok_alist_env [simp]: "iter_ok (en_rocks alist_env) alist_view"
  by (simp add: iter_ok_alist)

end
