(* ===== verification/Glob_Match.thy ===== *)
theory Glob_Match
  imports Kiwi_Prelude
begin

text \<open>
  The glob matcher of \<open>SCAN\<close>, \<open>KEYS\<close> and the set and hash scans (\<open>glob_match_bytes\<close> of
  \<^verbatim>\<open>src/storage/src/redis_sets.rs\<close>): an index machine with one saved position, that of the last
  star. The theory gives the patterns a syntax tree and a denotation, and shows that the machine
  halts and decides the denotation.
\<close>

section \<open>The matcher\<close>

text \<open>
  The loop of \<open>match_character_class\<close>. The index never passes the length of the pattern: a step of
  two or three bytes is only made when the bytes are there.
\<close>

function class_loop :: "bytes \<Rightarrow> byte \<Rightarrow> bool \<Rightarrow> nat \<Rightarrow> bool \<Rightarrow> bool \<times> nat" where
  "class_loop pattern candidate negated index matched =
     (if index + 1 < length pattern \<and> pattern ! index = 92 then
        class_loop pattern candidate negated (index + 2) (matched \<or> pattern ! (index + 1) = candidate)
      else if length pattern \<le> index then (matched \<noteq> negated, length pattern)
      else if pattern ! index = 93 then (matched \<noteq> negated, index + 1)
      else if index + 2 < length pattern \<and> pattern ! (index + 1) = 45 then
        (let range_start = pattern ! index; range_end = pattern ! (index + 2);
             (lower, upper) = (if range_start \<le> range_end then (range_start, range_end)
                               else (range_end, range_start)) in
         class_loop pattern candidate negated (index + 3)
           (matched \<or> lower \<le> candidate \<and> candidate \<le> upper))
      else class_loop pattern candidate negated (index + 1) (matched \<or> pattern ! index = candidate))"
  by pat_completeness auto
termination
  by (relation "measure (\<lambda>(pattern, _, _, index, _). length pattern - index)") auto

definition get_at :: "bytes \<Rightarrow> nat \<Rightarrow> byte option" where
  "get_at xs i = (if i < length xs then Some (xs ! i) else None)"

definition match_character_class :: "bytes \<Rightarrow> nat \<Rightarrow> byte \<Rightarrow> bool \<times> nat" where
  "match_character_class pattern class_start candidate =
     (let index = class_start + 1; negated = (get_at pattern index = Some 94) in
      class_loop pattern candidate negated (if negated then index + 1 else index) False)"

definition token_matches :: "bytes \<Rightarrow> nat \<Rightarrow> byte \<Rightarrow> nat option" where
  "token_matches pattern pattern_index candidate =
     (case get_at pattern pattern_index of
        None \<Rightarrow> None
      | Some b \<Rightarrow>
        if b = 63 then Some (pattern_index + 1)
        else if b = 91 then
          (let (matched, next_pattern_index) = match_character_class pattern pattern_index candidate in
           if matched then Some next_pattern_index else None)
        else if b = 92 then
          (let (literal, next_pattern_index) =
                 (if pattern_index + 1 < length pattern
                  then (pattern ! (pattern_index + 1), pattern_index + 2)
                  else (92, pattern_index + 1)) in
           if candidate = literal then Some next_pattern_index else None)
        else if b = 42 then None
        else if candidate = b then Some (pattern_index + 1) else None)"

text \<open>The loop that passes a run of stars.\<close>

function skip_stars :: "bytes \<Rightarrow> nat \<Rightarrow> nat" where
  "skip_stars pattern i = (if get_at pattern i = Some 42 then skip_stars pattern (i + 1) else i)"
  by pat_completeness auto
termination
  by (relation "measure (\<lambda>(pattern, i). length pattern - i)") (auto simp: get_at_def split: if_splits)

text \<open>The main loop, with the star position and the text position it stands for.\<close>

partial_function (option) glob_loop :: "bytes \<Rightarrow> bytes \<Rightarrow> nat \<Rightarrow> nat \<Rightarrow> nat option \<Rightarrow> nat \<Rightarrow> bool option" where
  "glob_loop pattern text pattern_index text_index star_pattern_index star_text_index =
     (if text_index < length text then
        if get_at pattern pattern_index = Some 42 then
          (let p = skip_stars pattern pattern_index in
           if p = length pattern then Some True
           else glob_loop pattern text p text_index (Some p) text_index)
        else
          (case token_matches pattern pattern_index (text ! text_index) of
             Some next_pattern_index \<Rightarrow>
               glob_loop pattern text next_pattern_index (text_index + 1) star_pattern_index star_text_index
           | None \<Rightarrow>
               (case star_pattern_index of
                  None \<Rightarrow> Some False
                | Some resume_pattern_index \<Rightarrow>
                  if length text \<le> star_text_index then Some False
                  else glob_loop pattern text resume_pattern_index (star_text_index + 1)
                         star_pattern_index (star_text_index + 1)))
      else Some (skip_stars pattern pattern_index = length pattern))"

definition glob_match_bytes :: "bytes \<Rightarrow> bytes \<Rightarrow> bool option" where
  "glob_match_bytes pattern text =
     (if text = [] then Some (pattern = []) else glob_loop pattern text 0 0 None 0)"

declare class_loop.simps [simp del] skip_stars.simps [simp del]

section \<open>The meaning of a pattern\<close>

text \<open>
  A character class is a list of inclusive ranges, possibly negated; an escaped or single byte is the
  range of one byte, and a range with its ends swapped means the same range.
\<close>

datatype glob =
    Star
  | AnyByte
  | Literal byte
  | Class bool "(byte \<times> byte) list"

function parse_class :: "bytes \<Rightarrow> (byte \<times> byte) list \<times> bytes" where
  "parse_class p =
     (case p of
        [] \<Rightarrow> ([], [])
      | b # r \<Rightarrow>
        if b = 92 \<and> r \<noteq> [] then
          (case parse_class (tl r) of (items, rest) \<Rightarrow> ((hd r, hd r) # items, rest))
        else if b = 93 then ([], r)
        else if 2 \<le> length r \<and> hd r = 45 then
          (case parse_class (drop 2 r) of (items, rest) \<Rightarrow> ((min b (r ! 1), max b (r ! 1)) # items, rest))
        else (case parse_class r of (items, rest) \<Rightarrow> ((b, b) # items, rest)))"
  by pat_completeness auto
termination
  by (relation "measure length") (auto simp: less_Suc_eq_le le_diff_conv)

declare parse_class.simps [simp del]

lemma parse_class_length: "length (snd (parse_class p)) \<le> length p"
proof (induction p rule: parse_class.induct)
  case (1 p)
  show ?case
  proof (cases p)
    case Nil
    then show ?thesis by (simp add: parse_class.simps)
  next
    case (Cons b r)
    consider (esc) "b = 92" "r \<noteq> []" | (close) "\<not> (b = 92 \<and> r \<noteq> [])" "b = 93"
      | (range) "\<not> (b = 92 \<and> r \<noteq> [])" "b \<noteq> 93" "2 \<le> length r \<and> hd r = 45"
      | (single) "\<not> (b = 92 \<and> r \<noteq> [])" "b \<noteq> 93" "\<not> (2 \<le> length r \<and> hd r = 45)"
      by blast
    then show ?thesis
    proof cases
      case esc
      show ?thesis using 1(1)[OF Cons] esc
        by (subst parse_class.simps) (auto simp: Cons split: prod.splits)
    next
      case close
      then show ?thesis by (subst parse_class.simps) (simp add: Cons)
    next
      case range
      show ?thesis using 1(2)[OF Cons range(1,2,3)] range
        by (subst parse_class.simps) (auto simp: Cons split: prod.splits)
    next
      case single
      show ?thesis using 1(3)[OF Cons single] single
        by (subst parse_class.simps) (auto simp: Cons split: prod.splits)
    qed
  qed
qed

function parse_glob :: "bytes \<Rightarrow> glob list" where
  "parse_glob [] = []"
| "parse_glob (b # r) =
     (if b = 42 then Star # parse_glob r
      else if b = 63 then AnyByte # parse_glob r
      else if b = 91 then
        (let negated = (r \<noteq> [] \<and> hd r = 94) in
         case parse_class (if negated then tl r else r) of (items, rest) \<Rightarrow>
           Class negated items # parse_glob rest)
      else if b = 92 \<and> r \<noteq> [] then Literal (hd r) # parse_glob (tl r)
      else Literal b # parse_glob r)"
  by pat_completeness auto
termination
proof (relation "measure length", goal_cases)
  case (4 b r x y z)
  have "length z \<le> length (if x then tl r else r)"
    using parse_class_length [of "if x then tl r else r"] 4 by (metis snd_conv)
  also have "\<dots> \<le> length r" by simp
  finally show ?case by (simp add: less_Suc_eq_le)
qed auto

fun accepts :: "glob \<Rightarrow> byte \<Rightarrow> bool" where
  "accepts Star c = False"
| "accepts AnyByte c = True"
| "accepts (Literal b) c = (c = b)"
| "accepts (Class negated items) c = ((\<exists>(l, u) \<in> set items. l \<le> c \<and> c \<le> u) \<noteq> negated)"

text \<open>The texts a pattern denotes: a star stands for any run of bytes.\<close>

fun denotes :: "glob list \<Rightarrow> bytes \<Rightarrow> bool" where
  "denotes [] t = (t = [])"
| "denotes (Star # gs) t = (\<exists>k \<le> length t. denotes gs (drop k t))"
| "denotes (g # gs) t = (t \<noteq> [] \<and> accepts g (hd t) \<and> denotes gs (tl t))"

section \<open>The matcher and the syntax tree\<close>

abbreviation in_items :: "(byte \<times> byte) list \<Rightarrow> byte \<Rightarrow> bool" where
  "in_items items c \<equiv> (\<exists>(l, u) \<in> set items. l \<le> c \<and> c \<le> u)"

lemma drop_step: "i < length xs \<Longrightarrow> drop i xs = xs ! i # drop (Suc i) xs"
  by (simp add: Cons_nth_drop_Suc)

lemma range_min_max:
  "(if a \<le> b then (a, b) else (b, a)) = (min a b, max a (b :: byte))"
  by (auto simp: min_def max_def)

lemma class_loop_parse:
  assumes "i \<le> length p" "parse_class (drop i p) = (items, rest)"
  shows "\<exists>j. class_loop p c neg i m = ((m \<or> in_items items c) \<noteq> neg, j) \<and> i \<le> j \<and> j \<le> length p
           \<and> drop j p = rest"
  using assms
proof (induction p c neg i m arbitrary: items rest rule: class_loop.induct)
  case (1 p c neg i m)
  consider (esc) "i + 1 < length p" "p ! i = 92"
    | (stop) "length p \<le> i"
    | (close) "i < length p" "p ! i = 93"
    | (range) "\<not> (i + 1 < length p \<and> p ! i = 92)" "i < length p" "p ! i \<noteq> 93" "i + 2 < length p" "p ! (i + 1) = 45"
    | (single) "\<not> (i + 1 < length p \<and> p ! i = 92)" "i < length p" "p ! i \<noteq> 93"
        "\<not> (i + 2 < length p \<and> p ! (i + 1) = 45)"
    by linarith
  then show ?case
  proof cases
    case esc
    then have d: "drop i p = 92 # p ! (i + 1) # drop (i + 2) p"
      using drop_step [of i p] drop_step [of "Suc i" p] by simp
    obtain items' where pc: "parse_class (drop (i + 2) p) = (items', rest)"
      and items: "items = (p ! (i + 1), p ! (i + 1)) # items'"
      using 1(5) d by (subst (asm) parse_class.simps) (auto split: prod.splits)
    obtain j where "class_loop p c neg (i + 2) (m \<or> p ! (i + 1) = c)
        = (((m \<or> p ! (i + 1) = c) \<or> in_items items' c) \<noteq> neg, j)" "i + 2 \<le> j" "j \<le> length p" "drop j p = rest"
      using 1(1)[OF _ _ pc] esc by auto
    then show ?thesis
      using esc items by (subst class_loop.simps) (auto intro!: exI [of _ j])
  next
    case stop
    then show ?thesis
      using 1(4,5) by (subst class_loop.simps) (auto simp: parse_class.simps)
  next
    case close
    then have "items = []" "rest = drop (Suc i) p"
      using 1(5) drop_step [of i p] parse_class.simps [of "drop i p"] by simp_all
    then show ?thesis
      using close by (subst class_loop.simps) auto
  next
    case range
    then have d: "drop i p = p ! i # 45 # p ! (i + 2) # drop (i + 3) p"
      using drop_step [of i p] drop_step [of "Suc i" p] drop_step [of "Suc (Suc i)" p]
      by (simp add: numeral_3_eq_3)
    obtain items' where pc: "parse_class (drop (i + 3) p) = (items', rest)"
      and items: "items = (min (p ! i) (p ! (i + 2)), max (p ! i) (p ! (i + 2))) # items'"
      using 1(5) d range by (subst (asm) parse_class.simps) (auto split: prod.splits)
    define m' where "m' \<longleftrightarrow> m \<or> min (p ! i) (p ! (i + 2)) \<le> c \<and> c \<le> max (p ! i) (p ! (i + 2))"
    have eq: "class_loop p c neg i m = class_loop p c neg (i + 3) m'"
      using range by (subst class_loop.simps) (simp add: Let_def range_min_max m'_def)
    obtain j where "class_loop p c neg (i + 3) m' = ((m' \<or> in_items items' c) \<noteq> neg, j)"
        "i + 3 \<le> j" "j \<le> length p" "drop j p = rest"
      using 1(2)[OF range(1) _ range(3) _ refl refl range_min_max [symmetric] _ _ pc] range
      by (auto simp: m'_def)
    then show ?thesis
      unfolding eq items by (auto simp: m'_def intro!: exI [of _ j])
  next
    case single
    then have d: "drop i p = p ! i # drop (Suc i) p"
      using drop_step by blast
    obtain items' where pc: "parse_class (drop (i + 1) p) = (items', rest)"
      and items: "items = (p ! i, p ! i) # items'"
      using 1(5) d single by (subst (asm) parse_class.simps) (auto simp: hd_drop_conv_nth split: prod.splits if_splits)
    obtain j where "class_loop p c neg (i + 1) (m \<or> p ! i = c)
        = (((m \<or> p ! i = c) \<or> in_items items' c) \<noteq> neg, j)" "i + 1 \<le> j" "j \<le> length p" "drop j p = rest"
      using 1(3)[OF single(1) _ single(3,4) _ pc] single by auto
    then show ?thesis
      using single items by (subst class_loop.simps) (auto intro!: exI [of _ j])
  qed
qed

lemma class_token:
  assumes "i < length p" "p ! i = 91"
  shows "\<exists>negated items rest. parse_glob (drop i p) = Class negated items # parse_glob rest \<and>
           (\<exists>j \<le> length p. match_character_class p i c = (accepts (Class negated items) c, j)
              \<and> drop j p = rest)"
proof -
  define r where "r = drop (Suc i) p"
  define negated where "negated \<longleftrightarrow> r \<noteq> [] \<and> hd r = 94"
  define k where "k = (if negated then i + 2 else i + 1)"
  have d: "drop i p = 91 # r"
    using assms drop_step [of i p] by (simp add: r_def)
  have neg: "negated \<longleftrightarrow> get_at p (i + 1) = Some 94"
    using assms by (auto simp: negated_def r_def get_at_def hd_drop_conv_nth)
  have k: "drop k p = (if negated then tl r else r)"
    by (simp add: k_def r_def drop_Suc drop_tl)
  have k_le: "k \<le> length p"
    using assms by (auto simp: k_def r_def negated_def)
  obtain items rest where pc: "parse_class (drop k p) = (items, rest)"
    by fastforce
  obtain j where j: "class_loop p c negated k False = ((False \<or> in_items items c) \<noteq> negated, j)"
      "j \<le> length p" "drop j p = rest"
    using class_loop_parse [OF k_le pc, of c negated False] by blast
  have "match_character_class p i c = (accepts (Class negated items) c, j)"
    using j(1) by (cases "get_at p (i + 1) = Some 94") (simp_all add: match_character_class_def neg k_def)
  moreover have "parse_glob (drop i p) = Class negated items # parse_glob rest"
    using pc unfolding d k negated_def by (simp add: Let_def)
  ultimately show ?thesis
    using j(2,3) by blast
qed

text \<open>One token of the pattern, at a position that is neither the end nor a star.\<close>

lemma token_parse:
  assumes "i < length p" "p ! i \<noteq> 42"
  shows "\<exists>g gs. parse_glob (drop i p) = g # gs \<and> g \<noteq> Star \<and>
    (\<forall>c. if accepts g c then \<exists>j \<le> length p. token_matches p i c = Some j \<and> parse_glob (drop j p) = gs
         else token_matches p i c = None)"
proof (rule ccontr)
  assume none: "\<not> ?thesis"
  have that: False if "parse_glob (drop i p) = g # gs" "g \<noteq> Star"
      "\<And>c. \<not> accepts g c \<Longrightarrow> token_matches p i c = None"
      "\<And>c. accepts g c \<Longrightarrow> \<exists>j \<le> length p. token_matches p i c = Some j \<and> parse_glob (drop j p) = gs" for g gs
  proof -
    have "\<forall>c. if accepts g c then \<exists>j \<le> length p. token_matches p i c = Some j \<and> parse_glob (drop j p) = gs
         else token_matches p i c = None"
      using that by simp
    then show False
      using none that(1,2) by blast
  qed
  have d: "drop i p = p ! i # drop (Suc i) p"
    using assms drop_step by blast
  show False
  proof (cases "p ! i = 91")
    case True
    obtain negated items rest where pg: "parse_glob (drop i p) = Class negated items # parse_glob rest"
      using class_token [OF assms(1) True] by blast
    have tok: "\<exists>j \<le> length p. match_character_class p i c = (accepts (Class negated items) c, j)
        \<and> parse_glob (drop j p) = parse_glob rest" for c
      using class_token [OF assms(1) True, of c] pg by auto
    have t: "token_matches p i c = (case match_character_class p i c of (m, j) \<Rightarrow> if m then Some j else None)" for c
      using assms True by (simp add: token_matches_def get_at_def)
    show False
    proof (rule that [OF pg])
      fix c
      show "\<not> accepts (Class negated items) c \<Longrightarrow> token_matches p i c = None"
        using tok [of c] t [of c] by auto
      show "accepts (Class negated items) c
          \<Longrightarrow> \<exists>j\<le>length p. token_matches p i c = Some j \<and> parse_glob (drop j p) = parse_glob rest"
        using tok [of c] t [of c] by auto
    qed simp
  next
    case no_class: False
    show False
    proof (cases "p ! i = 92 \<and> i + 1 < length p")
      case True
      then have "drop i p = 92 # p ! (i + 1) # drop (i + 2) p"
        using d drop_step [of "Suc i" p] by simp
      then show False
        using True by (intro that [of "Literal (p ! (i + 1))" "parse_glob (drop (i + 2) p)"])
          (auto simp: token_matches_def get_at_def)
    next
      case False
      show False
      proof (cases "p ! i = 63")
        case True
        then show False
          using d assms by (intro that [of AnyByte "parse_glob (drop (Suc i) p)"])
            (auto simp: token_matches_def get_at_def)
      next
        case any: False
        show False
          using d assms no_class False any
          by (intro that [of "Literal (p ! i)" "parse_glob (drop (Suc i) p)"])
            (auto simp: token_matches_def get_at_def)
      qed
    qed
  qed
qed

lemma star_parse: "i < length p \<Longrightarrow> p ! i = 42 \<Longrightarrow> parse_glob (drop i p) = Star # parse_glob (drop (Suc i) p)"
  by (simp add: drop_step)

lemma star_star: "denotes (Star # Star # gs) t = denotes (Star # gs) t"
proof
  assume "denotes (Star # gs) t"
  then show "denotes (Star # Star # gs) t"
    by (simp only: denotes.simps(2)) (metis drop0 zero_le)
next
  assume "denotes (Star # Star # gs) t"
  then obtain j k where "j \<le> length t" "k \<le> length t - j" "denotes gs (drop (k + j) t)"
    by auto
  then show "denotes (Star # gs) t"
    by (auto intro!: exI [of _ "k + j"])
qed

text \<open>A run of stars is one star, and at the end of the text it is passed.\<close>

lemma skip_stars_parse:
  assumes "i \<le> length p"
  shows "i \<le> skip_stars p i \<and> skip_stars p i \<le> length p \<and> get_at p (skip_stars p i) \<noteq> Some 42
    \<and> (get_at p i = Some 42 \<longrightarrow>
         i < skip_stars p i \<and>
         (\<forall>t. denotes (parse_glob (drop i p)) t = denotes (Star # parse_glob (drop (skip_stars p i) p)) t))"
  using assms
proof (induction p i rule: skip_stars.induct)
  case (1 p i)
  show ?case
  proof (cases "get_at p i = Some 42")
    case True
    then have i: "i < length p" "p ! i = 42"
      by (auto simp: get_at_def split: if_splits)
    note IH = 1(1)[OF True]
    have s: "skip_stars p i = skip_stars p (i + 1)"
      using True by (subst skip_stars.simps) simp
    have pg: "parse_glob (drop i p) = Star # parse_glob (drop (i + 1) p)"
      using star_parse i by simp
    show ?thesis
    proof (cases "get_at p (i + 1) = Some 42")
      case more: True
      have "denotes (parse_glob (drop i p)) t = denotes (Star # parse_glob (drop (skip_stars p i) p)) t" for t
      proof -
        have "denotes (parse_glob (drop i p)) t
            = denotes (Star # Star # parse_glob (drop (skip_stars p (i + 1)) p)) t"
          unfolding pg using IH more i by simp
        then show ?thesis
          by (simp only: star_star s)
      qed
      then show ?thesis
        using IH i s by auto
    next
      case False
      then have "skip_stars p (i + 1) = i + 1"
        by (subst skip_stars.simps) simp
      then show ?thesis
        using IH i s pg by simp
    qed
  next
    case False
    then show ?thesis
      using 1(2) by (subst (1 2 3 4 5) skip_stars.simps) simp
  qed
qed

section \<open>The matcher decides the denotation\<close>

lemma denotes_prefix:
  "list_all2 accepts seg xs \<Longrightarrow> denotes (seg @ gs) (xs @ ys) = denotes gs ys"
proof (induction seg xs rule: list_all2_induct)
  case (Cons g seg x xs)
  then show ?case by (cases g) auto
qed simp

lemma denotes_split:
  "Star \<notin> set seg \<Longrightarrow> denotes (seg @ gs) t \<Longrightarrow> length seg \<le> length t \<and> denotes gs (drop (length seg) t)"
proof (induction seg arbitrary: t)
  case (Cons g seg)
  then have "t \<noteq> []" "denotes (seg @ gs) (tl t)"
    by (cases g; auto)+
  moreover have "Star \<notin> set seg"
    using Cons by simp
  ultimately show ?case
    using Cons.IH [of "tl t"] by (cases t) auto
qed simp

lemma accepting_no_star: "list_all2 accepts seg xs \<Longrightarrow> Star \<notin> set seg"
  by (induction seg xs rule: list_all2_induct) auto

text \<open>
  The invariant of the loop: the segment between the last star and the current pattern position has
  matched the text since the star's text position. What the loop still has to decide is whether the
  pattern behind the star denotes a suffix of the text at the star's position or later.
\<close>

definition glob_inv :: "bytes \<Rightarrow> bytes \<Rightarrow> nat \<Rightarrow> nat \<Rightarrow> nat option \<Rightarrow> nat \<Rightarrow> bool" where
  "glob_inv p t i j star sj \<longleftrightarrow> i \<le> length p \<and> j \<le> length t \<and>
     (case star of None \<Rightarrow> True | Some si \<Rightarrow> si \<le> length p \<and>
        (\<exists>seg xs. parse_glob (drop si p) = seg @ parse_glob (drop i p)
           \<and> drop sj t = xs @ drop j t \<and> list_all2 accepts seg xs \<and> j = sj + length seg))"

definition glob_goal :: "bytes \<Rightarrow> bytes \<Rightarrow> nat \<Rightarrow> nat \<Rightarrow> nat option \<Rightarrow> nat \<Rightarrow> bool" where
  "glob_goal p t i j star sj =
     (case star of
        None \<Rightarrow> denotes (parse_glob (drop i p)) (drop j t)
      | Some si \<Rightarrow> \<exists>k \<le> length t. sj \<le> k \<and> denotes (parse_glob (drop si p)) (drop k t))"

lemma denotes_star_drop:
  "j \<le> length t \<Longrightarrow> denotes (Star # gs) (drop j t) \<longleftrightarrow> (\<exists>k \<le> length t. j \<le> k \<and> denotes gs (drop k t))"
proof
  assume "j \<le> length t" "denotes (Star # gs) (drop j t)"
  then obtain k where "k \<le> length t - j" "denotes gs (drop (k + j) t)"
    by auto
  then show "\<exists>k \<le> length t. j \<le> k \<and> denotes gs (drop k t)"
    using \<open>j \<le> length t\<close> by (intro exI [of _ "k + j"]) auto
next
  assume "j \<le> length t" "\<exists>k \<le> length t. j \<le> k \<and> denotes gs (drop k t)"
  then obtain k where "k \<le> length t" "j \<le> k" "denotes gs (drop k t)"
    by blast
  then show "denotes (Star # gs) (drop j t)"
    by (auto intro!: exI [of _ "k - j"])
qed

lemma goal_star:
  assumes "glob_inv p t i j star sj" "get_at p i = Some 42" "q = skip_stars p i"
  shows "glob_goal p t i j star sj = glob_goal p t q j (Some q) j" "glob_inv p t q j (Some q) j"
proof -
  have i: "i \<le> length p" and j: "j \<le> length t"
    using assms(1) by (auto simp: glob_inv_def)
  have q: "q \<le> length p" and here: "denotes (parse_glob (drop i p)) u = denotes (Star # parse_glob (drop q p)) u" for u
    using skip_stars_parse [OF i] assms(2,3) by auto
  show "glob_inv p t q j (Some q) j"
    using q j by (auto simp: glob_inv_def)
  have goal: "glob_goal p t q j (Some q) j = denotes (parse_glob (drop i p)) (drop j t)"
    unfolding here denotes_star_drop [OF j] by (simp add: glob_goal_def)
  show "glob_goal p t i j star sj = glob_goal p t q j (Some q) j"
  proof (cases star)
    case None
    then show ?thesis
      unfolding goal by (simp add: glob_goal_def)
  next
    case (Some si)
    then obtain seg xs where seg: "parse_glob (drop si p) = seg @ parse_glob (drop i p)"
        "drop sj t = xs @ drop j t" "list_all2 accepts seg xs" "j = sj + length seg"
      using assms(1) by (auto simp: glob_inv_def)
    have "(\<exists>k\<le>length t. sj \<le> k \<and> denotes (parse_glob (drop si p)) (drop k t))
        \<longleftrightarrow> denotes (parse_glob (drop i p)) (drop j t)" (is "?l \<longleftrightarrow> ?r")
    proof
      assume ?r
      then have "denotes (parse_glob (drop si p)) (drop sj t)"
        using seg denotes_prefix by simp
      then show ?l
        using seg(4) j by (intro exI [of _ sj]) auto
    next
      assume ?l
      then obtain k where k: "k \<le> length t" "sj \<le> k" "denotes (seg @ parse_glob (drop i p)) (drop k t)"
        using seg(1) by auto
      then have "length seg \<le> length t - k" "denotes (parse_glob (drop i p)) (drop (length seg + k) t)"
        using denotes_split [OF accepting_no_star [OF seg(3)] k(3)] by auto
      then have "\<exists>n \<le> length t. length seg + k \<le> n \<and> denotes (parse_glob (drop q p)) (drop n t)"
        using denotes_star_drop [of "length seg + k" t] here k(1) by auto
      then show ?r
        unfolding here denotes_star_drop [OF j] using seg(4) k(2) by auto
    qed
    then show ?thesis
      unfolding goal by (simp add: glob_goal_def Some)
  qed
qed

lemma goal_token:
  assumes "glob_inv p t i j star sj" "j < length t" "get_at p i \<noteq> Some 42"
    "token_matches p i (t ! j) = Some n"
  shows "glob_goal p t i j star sj = glob_goal p t n (j + 1) star sj" "glob_inv p t n (j + 1) star sj"
proof -
  have "i < length p" "p ! i \<noteq> 42"
    using assms(3,4) by (auto simp: get_at_def token_matches_def split: if_splits)
  then obtain g gs where g: "parse_glob (drop i p) = g # gs" "g \<noteq> Star"
    "if accepts g (t ! j)
     then \<exists>k \<le> length p. token_matches p i (t ! j) = Some k \<and> parse_glob (drop k p) = gs
     else token_matches p i (t ! j) = None"
    using token_parse by blast
  then have acc: "accepts g (t ! j)" and n: "n \<le> length p" "parse_glob (drop n p) = gs"
    using assms(4) by (auto split: if_splits)
  have dj: "drop j t = t ! j # drop (j + 1) t"
    using drop_step [OF assms(2)] by simp
  have here: "denotes (parse_glob (drop i p)) (drop j t) = denotes (parse_glob (drop n p)) (drop (j + 1) t)"
    using g(1,2) acc n dj by (cases g) auto
  show "glob_goal p t i j star sj = glob_goal p t n (j + 1) star sj"
    using here by (simp add: glob_goal_def split: option.split)
  show "glob_inv p t n (j + 1) star sj"
  proof (cases star)
    case None
    then show ?thesis
      using assms(2) n by (simp add: glob_inv_def)
  next
    case (Some si)
    then obtain seg xs where seg: "si \<le> length p" "parse_glob (drop si p) = seg @ parse_glob (drop i p)"
        "drop sj t = xs @ drop j t" "list_all2 accepts seg xs" "j = sj + length seg"
      using assms(1) by (auto simp: glob_inv_def)
    have "parse_glob (drop si p) = (seg @ [g]) @ parse_glob (drop n p)"
        "drop sj t = (xs @ [t ! j]) @ drop (j + 1) t" "list_all2 accepts (seg @ [g]) (xs @ [t ! j])"
        "j + 1 = sj + length (seg @ [g])"
      using seg g(1) n dj acc by (simp_all add: list_all2_appendI)
    then show ?thesis
      using assms(2) n seg(1) Some unfolding glob_inv_def by auto
  qed
qed

lemma no_token_no_match:
  assumes "i \<le> length p" "j < length t" "get_at p i \<noteq> Some 42" "token_matches p i (t ! j) = None"
  shows "\<not> denotes (parse_glob (drop i p)) (drop j t)"
proof (cases "i = length p")
  case True
  then show ?thesis using assms(2) by simp
next
  case False
  then have "i < length p" "p ! i \<noteq> 42"
    using assms(1,3) by (auto simp: get_at_def)
  then obtain g gs where "parse_glob (drop i p) = g # gs" "g \<noteq> Star"
    "if accepts g (t ! j)
     then \<exists>k \<le> length p. token_matches p i (t ! j) = Some k \<and> parse_glob (drop k p) = gs
     else token_matches p i (t ! j) = None"
    using token_parse by blast
  moreover from this have "\<not> accepts g (t ! j)"
    using assms(4) by (auto split: if_splits)
  ultimately show ?thesis
    using drop_step [OF assms(2)] by (cases g) auto
qed

lemma goal_resume:
  assumes "glob_inv p t i j (Some si) sj" "j < length t" "\<not> denotes (parse_glob (drop i p)) (drop j t)"
  shows "glob_goal p t i j (Some si) sj = glob_goal p t si (sj + 1) (Some si) (sj + 1)"
    "glob_inv p t si (sj + 1) (Some si) (sj + 1)" "sj < length t"
proof -
  obtain seg xs where seg: "si \<le> length p" "parse_glob (drop si p) = seg @ parse_glob (drop i p)"
      "drop sj t = xs @ drop j t" "list_all2 accepts seg xs" "j = sj + length seg"
    using assms(1) by (auto simp: glob_inv_def)
  then have "\<not> denotes (parse_glob (drop si p)) (drop sj t)"
    using assms(3) denotes_prefix by simp
  then have "sj \<le> k \<and> denotes (parse_glob (drop si p)) (drop k t)
      \<longleftrightarrow> sj + 1 \<le> k \<and> denotes (parse_glob (drop si p)) (drop k t)" for k
    by (cases "k = sj") auto
  then show "glob_goal p t i j (Some si) sj = glob_goal p t si (sj + 1) (Some si) (sj + 1)"
    by (simp only: glob_goal_def option.case)
  show "sj < length t"
    using seg(5) assms(2) by simp
  then show "glob_inv p t si (sj + 1) (Some si) (sj + 1)"
    using seg(1) by (auto simp: glob_inv_def)
qed

lemma token_needs_text:
  assumes "i < length p" "get_at p i \<noteq> Some 42"
  shows "\<not> denotes (parse_glob (drop i p)) []"
proof -
  obtain g gs where "parse_glob (drop i p) = g # gs" "g \<noteq> Star"
    using token_parse [of i p] assms by (auto simp: get_at_def)
  then show ?thesis
    by (cases g) auto
qed

lemma denotes_empty_text:
  assumes "i \<le> length p"
  shows "denotes (parse_glob (drop i p)) [] \<longleftrightarrow> skip_stars p i = length p"
proof -
  let ?q = "skip_stars p i"
  have q: "?q \<le> length p" "get_at p ?q \<noteq> Some 42"
    using skip_stars_parse [OF assms] by auto
  have "denotes (parse_glob (drop i p)) [] = denotes (parse_glob (drop ?q p)) []"
  proof (cases "get_at p i = Some 42")
    case True
    then show ?thesis
      using skip_stars_parse [OF assms] by simp
  next
    case False
    then show ?thesis
      by (subst skip_stars.simps) simp
  qed
  then show ?thesis
    using q token_needs_text [of ?q p] by (cases "?q = length p") auto
qed

lemma goal_end:
  assumes "glob_inv p t i j star sj" "length t \<le> j"
  shows "glob_goal p t i j star sj \<longleftrightarrow> skip_stars p i = length p"
proof -
  have i: "i \<le> length p"
    using assms(1) by (simp add: glob_inv_def)
  have "glob_goal p t i j star sj \<longleftrightarrow> denotes (parse_glob (drop i p)) []"
  proof (cases star)
    case None
    then show ?thesis
      using assms(2) by (simp add: glob_goal_def)
  next
    case (Some si)
    then obtain seg xs where seg: "si \<le> length p" "parse_glob (drop si p) = seg @ parse_glob (drop i p)"
        "drop sj t = xs @ drop j t" "list_all2 accepts seg xs" "j = sj + length seg" "j = length t"
      using assms by (auto simp: glob_inv_def)
    have "denotes (parse_glob (drop si p)) (drop sj t) = denotes (parse_glob (drop i p)) []"
      using seg denotes_prefix [OF seg(4), where ys = "[]"] by simp
    moreover have "k = sj" if "k \<le> length t" "sj \<le> k" "denotes (parse_glob (drop si p)) (drop k t)" for k
      using denotes_split [OF accepting_no_star [OF seg(4)], of "parse_glob (drop i p)" "drop k t"] that seg
      by auto
    ultimately show ?thesis
      using seg(5,6) Some unfolding glob_goal_def by (auto intro!: exI [of _ sj])
  qed
  then show ?thesis
    using denotes_empty_text [OF i] by simp
qed

lemma glob_loop_decides:
  "glob_inv p t i j star sj \<Longrightarrow> glob_loop p t i j star sj = Some (glob_goal p t i j star sj)"
proof (induction "(i, j, star, sj)" arbitrary: i j star sj
    rule: wf_induct_rule [OF wf_measures [of
      "[\<lambda>(i, j, star, sj). case star of None \<Rightarrow> length t + 1 | Some _ \<Rightarrow> length t - sj,
        \<lambda>(i, j, star, sj). length t - j, \<lambda>(i, j, star, sj). length p - i]"]])
  case 1
  note inv = \<open>glob_inv p t i j star sj\<close>
  show ?case
  proof (cases "j < length t")
    case False
    then show ?thesis
      using goal_end [OF inv] by (subst glob_loop.simps) simp
  next
    case j: True
    show ?thesis
    proof (cases "get_at p i = Some 42")
      case True
      define q where "q = skip_stars p i"
      note step = goal_star [OF inv True q_def]
      have "i < q" "i < length p"
        using skip_stars_parse [of i p] inv True by (auto simp: q_def glob_inv_def get_at_def split: if_splits)
      moreover have "sj \<le> j" if "star = Some si" for si
        using inv that by (auto simp: glob_inv_def)
      ultimately have "glob_loop p t q j (Some q) j = Some (glob_goal p t q j (Some q) j)"
        using j by (intro 1(1)[OF _ step(2)]; cases star; cases "j = sj") auto
      moreover have "glob_goal p t q j (Some q) j" if "q = length p"
        using that by (auto simp: glob_goal_def intro!: exI [of _ "length t"])
           (use j in simp)
      ultimately show ?thesis
        using j True step(1) by (subst glob_loop.simps) (simp add: Let_def q_def)
    next
      case no_star: False
      show ?thesis
      proof (cases "token_matches p i (t ! j)")
        case (Some n)
        note step = goal_token [OF inv j no_star Some]
        have "glob_loop p t n (j + 1) star sj = Some (glob_goal p t n (j + 1) star sj)"
          using j by (intro 1(1)[OF _ step(2)]) (simp add: diff_less_mono2)
        then show ?thesis
          using j no_star Some step(1) by (subst glob_loop.simps) simp
      next
        case None
        have no: "\<not> denotes (parse_glob (drop i p)) (drop j t)"
          using no_token_no_match [OF _ j no_star None] inv by (simp add: glob_inv_def)
        show ?thesis
        proof (cases star)
          case star: None
          then show ?thesis
            using j no_star None no by (subst glob_loop.simps) (simp add: glob_goal_def)
        next
          case (Some si)
          note step = goal_resume [OF inv [unfolded Some] j no]
          have "glob_loop p t si (sj + 1) (Some si) (sj + 1)
              = Some (glob_goal p t si (sj + 1) (Some si) (sj + 1))"
            using step(3) Some by (intro 1(1)[OF _ step(2)]) (simp add: diff_less_mono2)
          then show ?thesis
            using j no_star None Some step(1,3) by (subst glob_loop.simps) simp
        qed
      qed
    qed
  qed
qed

text \<open>C5: the glob matcher always halts, and on a text with at least one byte it answers whether the
  parsed pattern denotes the text; resuming at the last star alone loses no match. The empty text is
  matched by the empty pattern only: the callers treat the pattern \<open>*\<close> before they call it.
\<close>

theorem glob_match_decides:
  "glob_match_bytes pattern text
     = Some (if text = [] then pattern = [] else denotes (parse_glob pattern) text)"
  using glob_loop_decides [of pattern "text" 0 0 None 0]
  by (simp add: glob_match_bytes_def glob_inv_def glob_goal_def)

end
