(* ===== verification/Keyspace_Scan.thy ===== *)
theory Keyspace_Scan
  imports Redis_Keys Rocks_Iterator Glob_Match
begin

text \<open>
  Walks over the whole keyspace: \<open>scan_keys\<close>, \<open>flush_db\<close> and \<open>random_key\<close> of
  \<^verbatim>\<open>src/storage/src/redis_strings.rs\<close>, and the cursor walk behind the command SCAN
  (\<^verbatim>\<open>src/storage/src/storage_scan.rs\<close>). A walk takes the items of the RocksDB iterator, which reads
  the database as it was when the iterator was made; the reading of the clock at item \<open>i\<close> is \<open>clk i\<close>.
\<close>

section \<open>Items\<close>

definition meta_value_live :: "u64 \<Rightarrow> bytes \<Rightarrow> (data_type \<times> bool) result" where
  "meta_value_live now value_bytes =
     (if value_bytes = [] then Inl (InvalidFormat ''empty MetaCF value'') else
      rbind (data_type_try_from (hd value_bytes)) (\<lambda>dt.
      rbind
        (case dt of
           TString \<Rightarrow> rbind (parsed_strings_value_new value_bytes) (\<lambda>p. Inr (\<not> pv_is_stale now p))
         | TList \<Rightarrow> rbind (parsed_lists_meta_value_new value_bytes) (\<lambda>m.
                     Inr (\<not> pv_is_stale now m \<and> 0 < list_count m))
         | TNone \<Rightarrow> Inl (InvalidFormat ''invalid MetaCF data type: 5'')
         | TAll \<Rightarrow> Inl (InvalidFormat ''invalid MetaCF data type: 6'')
         | _ \<Rightarrow> rbind (parsed_base_meta_value_new value_bytes) (\<lambda>m.
                  Inr (\<not> pv_is_stale now m \<and> 0 < meta_count m)))
        (\<lambda>live. Inr (dt, live))))"

text \<open>\<open>pattern == b"*" || glob_match_bytes(pattern, key)\<close>.\<close>

definition pattern_matches :: "bytes \<Rightarrow> bytes \<Rightarrow> bool" where
  "pattern_matches pattern key \<longleftrightarrow> pattern = [42] \<or> glob_match_bytes pattern key = Some True"

section \<open>KEYS and RANDOMKEY\<close>

fun scan_keys_loop :: "(nat \<Rightarrow> u64) \<Rightarrow> nat \<Rightarrow> bytes \<Rightarrow> (bytes \<times> bytes) result list \<Rightarrow> bytes list result" where
  "scan_keys_loop clk i pattern [] = Inr []"
| "scan_keys_loop clk i pattern (item # items) =
     rbind item (\<lambda>(key_bytes, value_bytes).
     rbind (parsed_base_key_new key_bytes) (\<lambda>key.
     rbind (meta_value_live (clk i) value_bytes) (\<lambda>(_, is_valid).
     rbind (scan_keys_loop clk (Suc i) pattern items) (\<lambda>keys.
     Inr (if is_valid \<and> pattern_matches pattern key then key # keys else keys)))))"

definition scan_keys ::
  "('db, 'c) env \<Rightarrow> (nat \<Rightarrow> u64) \<Rightarrow> bytes \<Rightarrow> ('db, 'c) redis \<Rightarrow> bytes list result" where
  "scan_keys E clk pattern st =
     rbind (redis_db st) (\<lambda>db.
     rbind (meta_handle E st) (\<lambda>meta_cf.
     scan_keys_loop clk 0 pattern (iterator_cf E db meta_cf IterStart)))"

text \<open>The first live key of the walk; values and keys that do not parse are passed.\<close>

fun random_key_loop :: "(nat \<Rightarrow> u64) \<Rightarrow> nat \<Rightarrow> (bytes \<times> bytes) result list \<Rightarrow> bytes option result" where
  "random_key_loop clk i [] = Inr None"
| "random_key_loop clk i (item # items) =
     rbind item (\<lambda>(key_bytes, value_bytes).
     if value_bytes = [] then random_key_loop clk (Suc i) items else
     case parsed_base_key_new key_bytes of
       Inl _ \<Rightarrow> random_key_loop clk (Suc i) items
     | Inr key \<Rightarrow>
       (case meta_value_live (clk i) value_bytes of
          Inr (_, True) \<Rightarrow> Inr (Some (from_utf8_lossy key))
        | _ \<Rightarrow> random_key_loop clk (Suc i) items))"

definition random_key ::
  "('db, 'c) env \<Rightarrow> (nat \<Rightarrow> u64) \<Rightarrow> ('db, 'c) redis \<Rightarrow> bytes option result" where
  "random_key E clk st =
     rbind (redis_db st) (\<lambda>db.
     rbind (meta_handle E st) (\<lambda>meta_cf.
     random_key_loop clk 0 (iterator_cf E db meta_cf IterStart)))"

section \<open>FLUSHDB\<close>

text \<open>
  The keys of a chunk by the slot of their user key, as the hash map of the code collects them; the
  order \<open>order\<close> in which it hands out its groups is the hash map's.
\<close>

fun group_by_slot :: "(bytes \<Rightarrow> u16) \<Rightarrow> column_family \<Rightarrow> bytes list \<Rightarrow> (nat \<times> bytes) list result" where
  "group_by_slot crc16 cf [] = Inr []"
| "group_by_slot crc16 cf (key # keys) =
     rbind (infer_user_key (cf_u32 cf) key) (\<lambda>user_key.
     rbind (group_by_slot crc16 cf keys) (\<lambda>gs. Inr ((key_to_slot_id crc16 user_key, key) # gs)))"

fun flush_groups ::
  "('db, 'c) env \<Rightarrow> column_family \<Rightarrow> (nat \<times> bytes) list \<Rightarrow> nat list \<Rightarrow> ('db, 'c) redis
     \<Rightarrow> unit result \<times> ('db, 'c) redis" where
  "flush_groups E cf gs [] = oreturn ()"
| "flush_groups E cf gs (slot # slots) =
     obind (write_ops E (map (\<lambda>(_, key). BDelete cf key) (filter (\<lambda>g. fst g = slot) gs))) (\<lambda>_.
     flush_groups E cf gs slots)"

definition flush_keys_chunk ::
  "('db, 'c) env \<Rightarrow> (nat list \<Rightarrow> nat list) \<Rightarrow> column_family \<Rightarrow> bytes list \<Rightarrow> ('db, 'c) redis
     \<Rightarrow> unit result \<times> ('db, 'c) redis" where
  "flush_keys_chunk E order cf keys_chunk st =
     (if keys_chunk = [] then (Inr (), st)
      else if rd_append_log_fn st = None then write_ops E (map (BDelete cf) keys_chunk) st
      else obind (olift (group_by_slot (en_crc16 E) cf keys_chunk)) (\<lambda>gs.
           flush_groups E cf gs (order (remdups (map fst gs)))) st)"

abbreviation CHUNK_SIZE :: nat where "CHUNK_SIZE \<equiv> 1000"

text \<open>The loop over the items of one column family; \<open>chunk\<close> holds the keys since the last flush.\<close>

fun flush_items ::
  "('db, 'c) env \<Rightarrow> (nat list \<Rightarrow> nat list) \<Rightarrow> column_family \<Rightarrow> bytes list \<Rightarrow> (bytes \<times> bytes) result list
     \<Rightarrow> ('db, 'c) redis \<Rightarrow> unit result \<times> ('db, 'c) redis" where
  "flush_items E order cf chunk [] =
     (if chunk = [] then oreturn () else flush_keys_chunk E order cf chunk)"
| "flush_items E order cf chunk (item # items) =
     obind (olift item) (\<lambda>(key_bytes, _).
     if CHUNK_SIZE \<le> length (chunk @ [key_bytes])
     then obind (flush_keys_chunk E order cf (chunk @ [key_bytes])) (\<lambda>_. flush_items E order cf [] items)
     else flush_items E order cf (chunk @ [key_bytes]) items)"

text \<open>Every column family with a handle, one after the other; \<open>db\<close> is the open database, so a later
  iterator sees the deletions of the earlier families.\<close>

fun flush_cfs ::
  "('db, 'c) env \<Rightarrow> (nat list \<Rightarrow> nat list) \<Rightarrow> column_family list \<Rightarrow> ('db, 'c) redis
     \<Rightarrow> unit result \<times> ('db, 'c) redis" where
  "flush_cfs E order [] st = (Inr (), st)"
| "flush_cfs E order (cf # cfs) st =
     (case redis_get_cf_handle E st cf of
        None \<Rightarrow> flush_cfs E order cfs st
      | Some h \<Rightarrow>
        obind (flush_items E order cf [] (iterator_cf E (the (rd_db st)) h IterStart)) (\<lambda>_.
        flush_cfs E order cfs) st)"

definition flush_db ::
  "('db, 'c) env \<Rightarrow> (nat list \<Rightarrow> nat list) \<Rightarrow> ('db, 'c) redis \<Rightarrow> unit result \<times> ('db, 'c) redis" where
  "flush_db E order st =
     obind (olift (redis_db st)) (\<lambda>_.
     flush_cfs E order
       [MetaCF, HashesDataCF, SetsDataCF, ListsDataCF, ZsetsDataCF, ZsetsScoreCF, VectorDataCF]) st"

definition flush_all ::
  "('db, 'c) env \<Rightarrow> (nat list \<Rightarrow> nat list) \<Rightarrow> ('db, 'c) redis \<Rightarrow> unit result \<times> ('db, 'c) redis" where
  "flush_all E order = flush_db E order"

section \<open>SCAN\<close>

record scan_cursor_state =
  instance_index :: nat
  next_key :: "bytes option"

record scan_page =
  page_keys :: "bytes list"
  page_scanned :: nat
  page_next_key :: "bytes option"

text \<open>\<open>fetch_update\<close> with \<open>checked_add(1)\<close> returns the old value.\<close>

definition allocate_scan_cursor :: "u64 \<Rightarrow> u64 result \<times> u64" where
  "allocate_scan_cursor next =
     (case checked_add_u64 next 1 of
        Some n \<Rightarrow> (Inr next, n)
      | None \<Rightarrow> (Inl (System ''SCAN cursor space exhausted''), next))"

definition ascii_lower :: "byte \<Rightarrow> byte" where
  "ascii_lower b = (if 65 \<le> b \<and> b \<le> 90 then b + 32 else b)"

definition parse_scan_type :: "bytes \<Rightarrow> data_type" where
  "parse_scan_type name =
     (let w = map ascii_lower name in
      if w = [115, 116, 114, 105, 110, 103] then TString
      else if w = [104, 97, 115, 104] then THash
      else if w = [115, 101, 116] then TSet
      else if w = [108, 105, 115, 116] then TList
      else if w = [122, 115, 101, 116] then TZSet
      else if w = [118, 101, 99, 116, 111, 114, 115, 101, 116] then TVectorSet
      else TNone)"

text \<open>The loop of \<open>scan_meta\<close> over the items of the iterator; \<open>scanned\<close> counts those read so far.\<close>

fun scan_meta_loop ::
  "(nat \<Rightarrow> u64) \<Rightarrow> nat \<Rightarrow> data_type option \<Rightarrow> bytes \<Rightarrow> nat \<Rightarrow> (bytes \<times> bytes) result list
     \<Rightarrow> scan_page result" where
  "scan_meta_loop clk limit type_filter pattern scanned [] =
     Inr \<lparr>page_keys = [], page_scanned = scanned, page_next_key = None\<rparr>"
| "scan_meta_loop clk limit type_filter pattern scanned (item # items) =
     rbind item (\<lambda>(key_bytes, value_bytes).
     if \<not> scanned < limit
     then Inr \<lparr>page_keys = [], page_scanned = scanned, page_next_key = Some key_bytes\<rparr> else
     rbind (parsed_base_key_new key_bytes) (\<lambda>base_key.
     rbind (meta_value_live (clk scanned) value_bytes) (\<lambda>(data_type, is_live).
     rbind (scan_meta_loop clk limit type_filter pattern (Suc scanned) items) (\<lambda>page.
     Inr (if \<not> is_live then page
          else if (case type_filter of Some wanted \<Rightarrow> data_type \<noteq> wanted | None \<Rightarrow> False) then page
          else if \<not> pattern_matches pattern base_key then page
          else page\<lparr>page_keys := base_key # page_keys page\<rparr>)))))"

definition scan_meta ::
  "('db, 'c) env \<Rightarrow> (nat \<Rightarrow> u64) \<Rightarrow> bytes option \<Rightarrow> nat \<Rightarrow> data_type option \<Rightarrow> bytes
     \<Rightarrow> ('db, 'c) redis \<Rightarrow> scan_page result" where
  "scan_meta E clk start_key limit type_filter pattern st =
     rbind (redis_db st) (\<lambda>db.
     rbind (meta_handle E st) (\<lambda>meta_cf.
     scan_meta_loop clk limit type_filter pattern 0
       (iterator_cf E db meta_cf
          (case start_key of Some key \<Rightarrow> IterFrom key Forward | None \<Rightarrow> IterStart))))"

text \<open>
  The state of a scan: the process-wide counter of cursors and the bounded cache of cursor states,
  whose operations are parameters of \<open>storage_scan\<close>.
\<close>

record 'q cursor_cache =
  cc_get :: "'q \<Rightarrow> u64 \<Rightarrow> scan_cursor_state option"
  cc_insert :: "'q \<Rightarrow> u64 \<Rightarrow> scan_cursor_state \<Rightarrow> 'q"

record 'q scan_state =
  ss_next_cursor :: u64
  ss_states :: 'q

text \<open>The loop over the instances: the keys, and the instance and the key to resume at. The clock of
  instance \<open>i\<close> is \<open>clk i\<close>.\<close>

function scan_insts ::
  "('db, 'c) env \<Rightarrow> (nat \<Rightarrow> nat \<Rightarrow> u64) \<Rightarrow> data_type option \<Rightarrow> bytes \<Rightarrow> ('db, 'c) redis list
     \<Rightarrow> nat \<Rightarrow> nat \<Rightarrow> bytes option \<Rightarrow> (bytes list \<times> nat \<times> bytes option) result" where
  "scan_insts E clk type_filter pattern insts remaining inst_idx next =
     (if inst_idx < length insts then
        rbind (scan_meta E (clk inst_idx) next remaining type_filter pattern (insts ! inst_idx)) (\<lambda>page.
        let remaining = usize_sub remaining (page_scanned page) in
        case page_next_key page of
          Some unconsumed_key \<Rightarrow> Inr (page_keys page, inst_idx, Some unconsumed_key)
        | None \<Rightarrow>
          if remaining = 0 then Inr (page_keys page, inst_idx + 1, None)
          else rbind (scan_insts E clk type_filter pattern insts remaining (inst_idx + 1) None)
                 (\<lambda>(out, i, k). Inr (page_keys page @ out, i, k)))
      else Inr ([], inst_idx, next))"
  by pat_completeness auto
termination
  by (relation "measure (\<lambda>(_, _, _, _, insts, _, inst_idx, _). length insts - inst_idx)") auto

definition storage_scan ::
  "('db, 'c) env \<Rightarrow> 'q cursor_cache \<Rightarrow> (nat \<Rightarrow> nat \<Rightarrow> u64) \<Rightarrow> u64 \<Rightarrow> nat \<Rightarrow> bytes option \<Rightarrow> bytes
     \<Rightarrow> ('db, 'c) storage \<Rightarrow> 'q scan_state \<Rightarrow> (u64 \<times> bytes list) result \<times> 'q scan_state" where
  "storage_scan E C clk cursor count type_filter pattern sg ss =
     (let type_filter = map_option parse_scan_type type_filter; remaining = max count 1 in
      obind (olift
        (if cursor = 0 then Inr (0, None)
         else case cc_get C (ss_states ss) cursor of
                Some state \<Rightarrow> Inr (instance_index state, next_key state)
              | None \<Rightarrow> Inl (RedisErr ''ERR invalid cursor''))) (\<lambda>(inst_idx, next).
      obind (olift (scan_insts E clk type_filter pattern (sg_insts sg) remaining inst_idx next)) (\<lambda>(out, inst_idx, next) ss.
      if length (sg_insts sg) \<le> inst_idx then (Inr (0, out), ss) else
      case allocate_scan_cursor (ss_next_cursor ss) of
        (Inl e, n) \<Rightarrow> (Inl e, ss\<lparr>ss_next_cursor := n\<rparr>)
      | (Inr next_cursor, n) \<Rightarrow>
        (Inr (next_cursor, out),
         ss\<lparr>ss_next_cursor := n,
            ss_states := cc_insert C (ss_states ss) next_cursor
              \<lparr>instance_index = inst_idx, next_key = next\<rparr>\<rparr>))) ss)"

declare scan_insts.simps [simp del]

end
