(* ===== verification/Keyspace_Walks.thy ===== *)
theory Keyspace_Walks
  imports Keyspace_Scan Strings_Refinement
begin

text \<open>
  What the walks over the keyspace return. KEYS lists the live keys that match; a SCAN session, any
  number of calls that hand the cursor on until it is 0, lists them in pages, each once, and ends;
  FLUSHDB empties every column family.
\<close>

section \<open>Items in order\<close>

text \<open>The pairs a walk over the meta family meets, from the start or from a key on.\<close>

abbreviation walk_mode :: "bytes option \<Rightarrow> iter_mode" where
  "walk_mode next \<equiv> (case next of Some key \<Rightarrow> IterFrom key Forward | None \<Rightarrow> IterStart)"

definition meta_items :: "('db, 'c) env \<Rightarrow> ('db, 'c) redis \<Rightarrow> bytes option \<Rightarrow> (bytes \<times> bytes) list" where
  "meta_items E st next = map projr (iterator_cf E (the (rd_db st)) (cf_name MetaCF) (walk_mode next))"

definition reaches :: "bytes option \<Rightarrow> bytes \<Rightarrow> bool" where
  "reaches next k \<longleftrightarrow> (case next of Some t \<Rightarrow> k = t \<or> bytes_cmp t k = Less | None \<Rightarrow> True)"

abbreviation item_before :: "bytes \<times> bytes \<Rightarrow> bytes \<times> bytes \<Rightarrow> bool" where
  "item_before x y \<equiv> bytes_cmp (fst x) (fst y) = Less"

abbreviation meta_family :: "('db \<Rightarrow> contents) \<Rightarrow> ('db, 'c) redis \<Rightarrow> bytes \<Rightarrow> bytes option" where
  "meta_family view st \<equiv> contents_of view st (cf_name MetaCF)"

lemma meta_items:
  assumes "instance_ok E view st" and "iter_ok (en_rocks E) view"
  shows "iterator_cf E (the (rd_db st)) (cf_name MetaCF) (walk_mode next) = map Inr (meta_items E st next)"
    and "sorted_wrt item_before (meta_items E st next)"
    and "set (meta_items E st next) = {(k, v). meta_family view st k = Some v \<and> reaches next k}"
proof -
  have meta: "bytewise (cf_name MetaCF)" by simp
  from iterator_items [OF assms ordered_keys_bytewise [OF meta], of "walk_mode next"] obtain items where
    items: "iterator_cf E (the (rd_db st)) (cf_name MetaCF) (walk_mode next) = map Inr items"
      "sorted_wrt (walk_before (cf_name MetaCF) (walk_mode next)) items"
      "set items = {(k, v). meta_family view st k = Some v \<and> reached (cf_name MetaCF) (walk_mode next) k}" .
  have eq: "meta_items E st next = items"
    by (simp add: meta_items_def items(1) comp_def del: cf_name.simps)
  show "iterator_cf E (the (rd_db st)) (cf_name MetaCF) (walk_mode next) = map Inr (meta_items E st next)"
    using items(1) eq by simp
  have "walk_before (cf_name MetaCF) (walk_mode next) x y = item_before x y" for x y
    by (cases "next") simp_all
  then have "walk_before (cf_name MetaCF) (walk_mode next) = item_before" by blast
  then show "sorted_wrt item_before (meta_items E st next)"
    using items(2) eq by simp
  have "reached (cf_name MetaCF) (walk_mode next) k = reaches next k" for k
    by (cases "next") (simp_all add: reaches_def)
  then show "set (meta_items E st next) = {(k, v). meta_family view st k = Some v \<and> reaches next k}"
    using items(3) eq by simp
qed

text \<open>Resuming at an item gives that item and those behind it.\<close>

lemma meta_items_resume:
  assumes ok: "instance_ok E view st" "iter_ok (en_rocks E) view"
    and items: "meta_items E st next = pre @ (k, v) # post"
  shows "meta_items E st (Some k) = (k, v) # post"
proof (rule sorted_wrt_unique [where R = item_before])
  show "sorted_wrt item_before (meta_items E st (Some k))"
    by (rule meta_items(2) [OF ok])
  have sorted: "sorted_wrt item_before (pre @ (k, v) # post)"
    using meta_items(2) [OF ok, of "next"] items by simp
  then show "sorted_wrt item_before ((k, v) # post)"
    by (simp add: sorted_wrt_append)
  have all: "set (pre @ (k, v) # post) = {(k, v). meta_family view st k = Some v \<and> reaches next k}"
    using meta_items(3) [OF ok, of "next"] items by simp
  then have k: "meta_family view st k = Some v" "reaches next k" by auto
  have pre: "bytes_cmp j k = Less" if "(j, w) \<in> set pre" for j w
    using sorted that by (auto simp: sorted_wrt_append)
  have post: "bytes_cmp k j = Less" if "(j, w) \<in> set post" for j w
    using sorted that by (auto simp: sorted_wrt_append)
  have up: "reaches next j" if "bytes_cmp k j = Less" for j
    using k(2) that bytes_cmp_less_trans [of _ k j] by (auto simp: reaches_def split: option.splits)
  show "set (meta_items E st (Some k)) = set ((k, v) # post)"
    unfolding meta_items(3) [OF ok]
  proof (intro equalityI subsetI)
    fix x assume "x \<in> {(j, w). meta_family view st j = Some w \<and> reaches (Some k) j}"
    then obtain j w where x: "x = (j, w)" "meta_family view st j = Some w" "j = k \<or> bytes_cmp k j = Less"
      by (auto simp: reaches_def)
    then have "(j, w) \<in> set (pre @ (k, v) # post)"
      unfolding all using k(2) up [of j] by blast
    moreover have "(j, w) \<notin> set pre"
      using x(3) pre [of j w] bytes_cmp_less_asym [of j k] by auto
    ultimately show "x \<in> set ((k, v) # post)" using x(1) by auto
  next
    fix x assume x: "x \<in> set ((k, v) # post)"
    then have "x \<in> {(j, w). meta_family view st j = Some w \<and> reaches next j}"
      using all by auto
    then show "x \<in> {(j, w). meta_family view st j = Some w \<and> reaches (Some k) j}"
      using x post by (auto simp: reaches_def)
  qed
  show "\<not> item_before y x" if "item_before x y" for x y :: "bytes \<times> bytes"
    using that bytes_cmp_less_asym by blast
qed

section \<open>Pages\<close>

text \<open>A well-formed meta family: encoded user keys with values that parse. \<open>sees\<close> says that at every
  reading of a clock the same keys are live as at \<open>now\<close>.\<close>

definition meta_ok :: "(bytes \<Rightarrow> bytes option) \<Rightarrow> bool" where
  "meta_ok M \<longleftrightarrow> (\<forall>k v. M k = Some v \<longrightarrow> (\<exists>key. k = base_key_bytes key) \<and> (\<forall>now. \<exists>r. meta_value_live now v = Inr r))"

definition sees :: "u64 \<Rightarrow> (bytes \<Rightarrow> bytes option) \<Rightarrow> (nat \<Rightarrow> u64) \<Rightarrow> bool" where
  "sees now M clk \<longleftrightarrow> (\<forall>k v i. M k = Some v \<longrightarrow> meta_value_live (clk i) v = meta_value_live now v)"

text \<open>The keys a walk selects.\<close>

definition wanted :: "u64 \<Rightarrow> data_type option \<Rightarrow> bytes \<Rightarrow> bytes \<Rightarrow> bytes \<Rightarrow> bool" where
  "wanted now type_filter pattern key v \<longleftrightarrow>
     (\<exists>dt. meta_value_live now v = Inr (dt, True) \<and> type_filter \<in> {None, Some dt} \<and> pattern_matches pattern key)"

definition selected :: "u64 \<Rightarrow> data_type option \<Rightarrow> bytes \<Rightarrow> (bytes \<times> bytes) list \<Rightarrow> bytes list" where
  "selected now type_filter pattern items =
     map (\<lambda>(k, v). projr (parsed_base_key_new k))
       (filter (\<lambda>(k, v). wanted now type_filter pattern (projr (parsed_base_key_new k)) v) items)"

lemma selected_simps [simp]:
  "selected now tf pattern [] = []"
  "selected now tf pattern ((base_key_bytes key, v) # items)
    = (if wanted now tf pattern key v then key # selected now tf pattern items
       else selected now tf pattern items)"
  "selected now tf pattern (xs @ ys) = selected now tf pattern xs @ selected now tf pattern ys"
  by (simp_all add: selected_def)

definition items_ok :: "u64 \<Rightarrow> (nat \<Rightarrow> u64) \<Rightarrow> (bytes \<times> bytes) list \<Rightarrow> bool" where
  "items_ok now clk items \<longleftrightarrow> (\<forall>(k, v) \<in> set items. (\<exists>key. k = base_key_bytes key)
     \<and> (\<exists>r. meta_value_live now v = Inr r) \<and> (\<forall>i. meta_value_live (clk i) v = meta_value_live now v))"

lemma items_ok_Cons:
  assumes "items_ok now clk (x # items)"
  obtains key v dt live where "x = (base_key_bytes key, v)" and "meta_value_live now v = Inr (dt, live)"
    and "\<And>i. meta_value_live (clk i) v = Inr (dt, live)" and "items_ok now clk items"
  using assms by (cases x) (fastforce simp: items_ok_def)

lemma scan_keys_loop_selects:
  "items_ok now clk items \<Longrightarrow>
    scan_keys_loop clk i pattern (map Inr items) = Inr (selected now None pattern items)"
proof (induction items arbitrary: i)
  case (Cons x items)
  from Cons.prems obtain key v dt live where x: "x = (base_key_bytes key, v)"
      "meta_value_live now v = Inr (dt, live)" "meta_value_live (clk i) v = Inr (dt, live)"
      "items_ok now clk items"
    by (rule items_ok_Cons) blast
  then show ?case
    using Cons.IH [OF x(4), of "Suc i"] by (auto simp: wanted_def)
next
  case Nil
  show ?case by simp
qed

lemma scan_meta_loop_selects:
  "items_ok now clk items \<Longrightarrow>
    scan_meta_loop clk limit tf pattern scanned (map Inr items)
    = Inr \<lparr>page_keys = selected now tf pattern (take (limit - scanned) items),
           page_scanned = scanned + length (take (limit - scanned) items),
           page_next_key = (case drop (limit - scanned) items of [] \<Rightarrow> None | x # _ \<Rightarrow> Some (fst x))\<rparr>"
proof (induction items arbitrary: scanned)
  case (Cons x items)
  from Cons.prems obtain key v dt live where x: "x = (base_key_bytes key, v)"
      "meta_value_live now v = Inr (dt, live)" "meta_value_live (clk scanned) v = Inr (dt, live)"
      "items_ok now clk items"
    by (rule items_ok_Cons) blast
  show ?case
  proof (cases "scanned < limit")
    case True
    then have "limit - scanned = Suc (limit - Suc scanned)" by simp
    then show ?thesis
      using x Cons.IH [OF x(4), of "Suc scanned"] True
      by (cases tf) (auto simp: wanted_def)
  next
    case False
    then show ?thesis using x by simp
  qed
next
  case Nil
  show ?case by simp
qed

lemma meta_items_ok:
  assumes "instance_ok E view st" and "iter_ok (en_rocks E) view" and "meta_ok (meta_family view st)"
    and "sees now (meta_family view st) clk"
  shows "items_ok now clk (meta_items E st next)"
  using assms(3,4) unfolding items_ok_def meta_items(3) [OF assms(1,2)] meta_ok_def sees_def by blast

lemma meta_handle_ok: "instance_ok E view st \<Longrightarrow> meta_handle E st = Inr (cf_name MetaCF)"
  by (simp add: meta_handle_def del: cf_name.simps)

lemma scan_meta_selects:
  assumes "instance_ok E view st" and "iter_ok (en_rocks E) view" and "meta_ok (meta_family view st)"
    and "sees now (meta_family view st) clk"
  shows "scan_meta E clk next limit tf pattern st
    = Inr \<lparr>page_keys = selected now tf pattern (take limit (meta_items E st next)),
           page_scanned = length (take limit (meta_items E st next)),
           page_next_key = (case drop limit (meta_items E st next) of [] \<Rightarrow> None | x # _ \<Rightarrow> Some (fst x))\<rparr>"
  using scan_meta_loop_selects [OF meta_items_ok [OF assms], of limit tf pattern 0]
  by (simp add: scan_meta_def redis_db_ok [OF assms(1)] meta_handle_ok [OF assms(1)]
      meta_items(1) [OF assms(1,2)] del: cf_name.simps)

section \<open>Sessions\<close>

text \<open>The keys a walk at position \<open>(i, next)\<close> has still to return, and the work it has left.\<close>

definition position_items ::
  "('db, 'c) env \<Rightarrow> ('db, 'c) redis list \<Rightarrow> nat \<Rightarrow> bytes option \<Rightarrow> (bytes \<times> bytes) list" where
  "position_items E insts i next =
     (if i < length insts
      then meta_items E (insts ! i) next @ concat (map (\<lambda>st. meta_items E st None) (drop (Suc i) insts))
      else [])"

definition work :: "('db, 'c) env \<Rightarrow> ('db, 'c) redis list \<Rightarrow> nat \<Rightarrow> bytes option \<Rightarrow> nat" where
  "work E insts i next = length (position_items E insts i next) + (length insts - i)"

lemma position_items_next:
  "i < length insts \<Longrightarrow> meta_items E (insts ! i) next @ position_items E insts (Suc i) None
    = position_items E insts i next"
  using Cons_nth_drop_Suc [of "Suc i" insts, symmetric] by (simp add: position_items_def)

definition walk_ok ::
  "('db, 'c) env \<Rightarrow> ('db \<Rightarrow> contents) \<Rightarrow> u64 \<Rightarrow> (nat \<Rightarrow> nat \<Rightarrow> u64) \<Rightarrow> ('db, 'c) redis list \<Rightarrow> bool" where
  "walk_ok E view now clk insts \<longleftrightarrow>
     (\<forall>i < length insts. instance_ok E view (insts ! i) \<and> meta_ok (meta_family view (insts ! i))
        \<and> sees now (meta_family view (insts ! i)) (clk i))"

lemma scan_insts_selects:
  assumes "iter_ok (en_rocks E) view" and "walk_ok E view now clk insts"
  shows "0 < remaining \<Longrightarrow> i \<le> length insts \<Longrightarrow>
    \<exists>out j next'. scan_insts E clk tf pattern insts remaining i next = Inr (out, j, next')
      \<and> out @ selected now tf pattern (position_items E insts j next')
        = selected now tf pattern (position_items E insts i next)
      \<and> j \<le> length insts
      \<and> (if i < length insts then work E insts j next' < work E insts i next
         else work E insts j next' \<le> work E insts i next)"
proof (induction "length insts - i" arbitrary: i remaining "next")
  case 0
  then have "scan_insts E clk tf pattern insts remaining i next = Inr ([], i, next)"
    using scan_insts.simps [of E clk tf pattern insts remaining i "next"] by simp
  then show ?case using 0 by (intro exI [of _ "[]"] exI [of _ i] exI [of _ "next"]) simp
next
  case (Suc d)
  let ?items = "meta_items E (insts ! i) next" and ?rest = "position_items E insts (Suc i) None"
  let ?page = "\<lparr>page_keys = selected now tf pattern (take remaining ?items),
      page_scanned = length (take remaining ?items),
      page_next_key = (case drop remaining ?items of [] \<Rightarrow> None | x # _ \<Rightarrow> Some (fst x))\<rparr>"
  have i: "i < length insts" using Suc.hyps(2) by simp
  then have ok: "instance_ok E view (insts ! i)" "meta_ok (meta_family view (insts ! i))"
      "sees now (meta_family view (insts ! i)) (clk i)"
    using assms(2) by (simp_all add: walk_ok_def)
  have run: "scan_insts E clk tf pattern insts remaining i next =
      (let remaining' = usize_sub remaining (page_scanned ?page) in
        case page_next_key ?page of
          Some unconsumed_key \<Rightarrow> Inr (page_keys ?page, i, Some unconsumed_key)
        | None \<Rightarrow>
          if remaining' = 0 then Inr (page_keys ?page, Suc i, None)
          else rbind (scan_insts E clk tf pattern insts remaining' (Suc i) None)
                 (\<lambda>(out, i, k). Inr (page_keys ?page @ out, i, k)))"
    unfolding scan_insts.simps [of E clk tf pattern insts remaining i]
      scan_meta_selects [OF ok(1) assms(1) ok(2,3)] if_P [OF i] rbind_simps Suc_eq_plus1 ..
  have items: "position_items E insts i next = ?items @ ?rest"
    using position_items_next [OF i] by simp
  show ?case
  proof (cases "drop remaining ?items")
    case (Cons x post)
    then have split: "?items = take remaining ?items @ (fst x, snd x) # post"
      using append_take_drop_id [of remaining ?items] by simp
    have "meta_items E (insts ! i) (Some (fst x)) = drop remaining ?items"
      using meta_items_resume [OF ok(1) assms(1) split] Cons by simp
    then have pos: "position_items E insts i (Some (fst x)) = drop remaining ?items @ ?rest"
      using position_items_next [OF i, of E "Some (fst x)"] by simp
    have "scan_insts E clk tf pattern insts remaining i next
        = Inr (selected now tf pattern (take remaining ?items), i, Some (fst x))"
      unfolding run by (simp add: Cons)
    moreover have "selected now tf pattern (take remaining ?items) @ selected now tf pattern (position_items E insts i (Some (fst x)))
        = selected now tf pattern (position_items E insts i next)"
      unfolding pos items selected_simps(3) append_assoc [symmetric]
      unfolding selected_simps(3) [symmetric] append_take_drop_id ..
    moreover have "work E insts i (Some (fst x)) < work E insts i next"
      using Suc.prems(1) arg_cong [OF Cons, of length] by (simp add: work_def pos items)
    ultimately show ?thesis using i by auto
  next
    case Nil
    then have take: "take remaining ?items = ?items" "length ?items \<le> remaining" by simp_all
    have less: "work E insts (Suc i) None < work E insts i next"
      using i by (simp add: work_def items)
    show ?thesis
    proof (cases "remaining = length ?items")
      case True
      then have "scan_insts E clk tf pattern insts remaining i next = Inr (selected now tf pattern ?items, Suc i, None)"
        unfolding run by (simp add: Nil take)
      then show ?thesis using i less by (auto simp: items)
    next
      case False
      have pos: "0 < remaining - length ?items" using False take(2) by simp
      moreover have "d = length insts - Suc i" "Suc i \<le> length insts"
        using Suc.hyps(2) i by simp_all
      ultimately obtain out j next' where IH:
          "scan_insts E clk tf pattern insts (remaining - length ?items) (Suc i) None = Inr (out, j, next')"
          "out @ selected now tf pattern (position_items E insts j next') = selected now tf pattern ?rest"
          "j \<le> length insts" "work E insts j next' \<le> work E insts (Suc i) None"
        using Suc.hyps(1) [of "Suc i" "remaining - length ?items" None] by (auto split: if_splits)
      have "scan_insts E clk tf pattern insts remaining i next = Inr (selected now tf pattern ?items @ out, j, next')"
        unfolding run using pos IH(1) by (simp add: Nil take)
      moreover have "work E insts j next' < work E insts i next"
        using IH(4) less by simp
      ultimately show ?thesis using IH(2,3) i by (simp add: items)
    qed
  qed
qed

text \<open>A session: call after call with the cursor of the call before, until the cursor is 0. \<open>None\<close>
  says that the calls did not suffice.\<close>

fun scan_session ::
  "('db, 'c) env \<Rightarrow> 'q cursor_cache \<Rightarrow> bytes option \<Rightarrow> bytes \<Rightarrow> ('db, 'c) storage
     \<Rightarrow> ((nat \<Rightarrow> nat \<Rightarrow> u64) \<times> nat) list \<Rightarrow> u64 \<Rightarrow> 'q scan_state \<Rightarrow> bytes list result option" where
  "scan_session E C tf pattern sg [] cursor ss = None"
| "scan_session E C tf pattern sg ((clk, count) # calls) cursor ss =
     (case storage_scan E C clk cursor count tf pattern sg ss of
        (Inl e, ss) \<Rightarrow> Some (Inl e)
      | (Inr (cursor, out), ss) \<Rightarrow>
        if cursor = 0 then Some (Inr out)
        else map_option (\<lambda>r. rbind r (\<lambda>keys. Inr (out @ keys))) (scan_session E C tf pattern sg calls cursor ss))"

text \<open>The cache of cursor states returns what was inserted last.\<close>

definition cursor_cache_ok :: "'q cursor_cache \<Rightarrow> bool" where
  "cursor_cache_ok C \<longleftrightarrow> (\<forall>q c s. cc_get C (cc_insert C q c s) c = Some s)"

definition at_position :: "'q cursor_cache \<Rightarrow> 'q scan_state \<Rightarrow> u64 \<Rightarrow> nat \<Rightarrow> bytes option \<Rightarrow> bool" where
  "at_position C ss cursor i next \<longleftrightarrow>
     (if cursor = 0 then i = 0 \<and> next = None
      else cc_get C (ss_states ss) cursor = Some \<lparr>instance_index = i, next_key = next\<rparr>)"

lemma storage_scan_step:
  assumes "iter_ok (en_rocks E) view" and "walk_ok E view now clk (sg_insts sg)"
    and "cursor_cache_ok C" and "at_position C ss cursor i next" and "i \<le> length (sg_insts sg)"
    and "0 < ss_next_cursor ss" and "unat (ss_next_cursor ss) + 1 < 2 ^ 64"
  shows "\<exists>out j next' cursor' ss'.
    storage_scan E C clk cursor count tf pattern sg ss = (Inr (cursor', out), ss')
    \<and> out @ selected now (map_option parse_scan_type tf) pattern (position_items E (sg_insts sg) j next')
      = selected now (map_option parse_scan_type tf) pattern (position_items E (sg_insts sg) i next)
    \<and> (if cursor' = 0 then j = length (sg_insts sg)
       else at_position C ss' cursor' j next' \<and> j < length (sg_insts sg)
        \<and> work E (sg_insts sg) j next' < work E (sg_insts sg) i next
        \<and> unat (ss_next_cursor ss') = unat (ss_next_cursor ss) + 1)"
proof -
  let ?tf = "map_option parse_scan_type tf"
  obtain out j next' where run:
      "scan_insts E clk ?tf pattern (sg_insts sg) (max count 1) i next = Inr (out, j, next')"
      "out @ selected now ?tf pattern (position_items E (sg_insts sg) j next')
        = selected now ?tf pattern (position_items E (sg_insts sg) i next)"
      "j \<le> length (sg_insts sg)"
      "i < length (sg_insts sg) \<longrightarrow> work E (sg_insts sg) j next' < work E (sg_insts sg) i next"
    using scan_insts_selects [OF assms(1,2) _ assms(5), of "max count 1" ?tf pattern "next"]
    by (fastforce split: if_splits)
  have start: "(if cursor = 0 then Inr (0, None)
         else case cc_get C (ss_states ss) cursor of
                Some state \<Rightarrow> Inr (instance_index state, next_key state)
              | None \<Rightarrow> Inl (RedisErr ''ERR invalid cursor'')) = Inr (i, next)"
    using assms(4) by (auto simp: at_position_def split: if_splits)
  have scan: "storage_scan E C clk cursor count tf pattern sg ss =
      (if length (sg_insts sg) \<le> j then (Inr (0, out), ss) else
      case allocate_scan_cursor (ss_next_cursor ss) of
        (Inl e, n) \<Rightarrow> (Inl e, ss\<lparr>ss_next_cursor := n\<rparr>)
      | (Inr next_cursor, n) \<Rightarrow>
        (Inr (next_cursor, out),
         ss\<lparr>ss_next_cursor := n,
            ss_states := cc_insert C (ss_states ss) next_cursor \<lparr>instance_index = j, next_key = next'\<rparr>\<rparr>))"
    unfolding storage_scan_def Let_def start run(1) obind_olift_Inr prod.case ..
  show ?thesis
  proof (cases "j < length (sg_insts sg)")
    case True
    have alloc: "allocate_scan_cursor (ss_next_cursor ss) = (Inr (ss_next_cursor ss), ss_next_cursor ss + 1)"
      using assms(7) by (simp add: allocate_scan_cursor_def checked_add_u64_def)
    have i: "i < length (sg_insts sg)"
    proof (rule ccontr)
      assume "\<not> i < length (sg_insts sg)"
      then show False
        using run(1) True scan_insts.simps [of E clk ?tf pattern "sg_insts sg" "max count 1" i "next"] by simp
    qed
    let ?ss = "ss\<lparr>ss_next_cursor := ss_next_cursor ss + 1,
        ss_states := cc_insert C (ss_states ss) (ss_next_cursor ss) \<lparr>instance_index = j, next_key = next'\<rparr>\<rparr>"
    have "storage_scan E C clk cursor count tf pattern sg ss = (Inr (ss_next_cursor ss, out), ?ss)"
      unfolding scan alloc using True by simp
    moreover have "at_position C ?ss (ss_next_cursor ss) j next'"
      using assms(3,6) word_neq_0_conv [of "ss_next_cursor ss"] by (simp add: at_position_def cursor_cache_ok_def)
    moreover have "unat (ss_next_cursor ?ss) = unat (ss_next_cursor ss) + 1"
      using assms(7) by (simp add: unat_word_ariths)
    moreover have "ss_next_cursor ss \<noteq> 0" using assms(6) by simp
    ultimately show ?thesis using True run(2,4) i by (metis (lifting))
  next
    case False
    then have "storage_scan E C clk cursor count tf pattern sg ss = (Inr (0, out), ss)"
      unfolding scan by simp
    moreover have "j = length (sg_insts sg)" using False run(3) by simp
    ultimately show ?thesis using run(2) by (metis (lifting))
  qed
qed

lemma position_items_end: "length insts \<le> j \<Longrightarrow> position_items E insts j next = []"
  by (simp add: position_items_def)

lemma scan_session_selects:
  assumes "iter_ok (en_rocks E) view" and "cursor_cache_ok C"
    and "\<forall>(clk, count) \<in> set calls. walk_ok E view now clk (sg_insts sg)"
    and "at_position C ss cursor i next" and "i \<le> length (sg_insts sg)"
    and "0 < ss_next_cursor ss" and "unat (ss_next_cursor ss) + length calls < 2 ^ 64"
    and "work E (sg_insts sg) i next < length calls"
  shows "scan_session E C tf pattern sg calls cursor ss
    = Some (Inr (selected now (map_option parse_scan_type tf) pattern (position_items E (sg_insts sg) i next)))"
  using assms(3-)
proof (induction calls arbitrary: cursor ss i "next")
  case (Cons c calls)
  obtain clk count where c: "c = (clk, count)" by (cases c)
  have ok: "walk_ok E view now clk (sg_insts sg)" using Cons.prems(1) c by simp
  have "unat (ss_next_cursor ss) + 1 < 2 ^ 64" using Cons.prems(5) by simp
  from storage_scan_step [OF assms(1) ok assms(2) Cons.prems(2,3,4) this, of count tf pattern]
  obtain out j next' cursor' ss' where step:
    "storage_scan E C clk cursor count tf pattern sg ss = (Inr (cursor', out), ss')"
    "out @ selected now (map_option parse_scan_type tf) pattern (position_items E (sg_insts sg) j next')
      = selected now (map_option parse_scan_type tf) pattern (position_items E (sg_insts sg) i next)"
    "if cursor' = 0 then j = length (sg_insts sg)
       else at_position C ss' cursor' j next' \<and> j < length (sg_insts sg)
        \<and> work E (sg_insts sg) j next' < work E (sg_insts sg) i next
        \<and> unat (ss_next_cursor ss') = unat (ss_next_cursor ss) + 1" by blast
  show ?case
  proof (cases "cursor' = 0")
    case True
    then show ?thesis using step(1,2,3) c by (simp add: position_items_end)
  next
    case False
    note s = step(3) [unfolded if_not_P [OF False]]
    have "0 < ss_next_cursor ss'"
      using s by (simp add: word_less_nat_alt)
    then have "scan_session E C tf pattern sg calls cursor' ss'
        = Some (Inr (selected now (map_option parse_scan_type tf) pattern (position_items E (sg_insts sg) j next')))"
      using Cons.IH [of ss' cursor' j next'] Cons.prems(1,5,6) s by simp
    then show ?thesis using step(1,2) False c by simp
  qed
next
  case Nil
  then show ?case by simp
qed

section \<open>The keys a walk returns\<close>

lemma sorted_items_distinct:
  assumes "sorted_wrt item_before items"
  shows "distinct (map fst items)"
  using assms
proof (induction items)
  case (Cons x items)
  have "\<not> bytes_cmp k k = Less" for k
    using bytes_cmp_less_asym [of k k] by blast
  then show ?case using Cons by fastforce
qed simp

lemma selected_keys:
  assumes "items_ok now clk items" and "distinct (map fst items)"
  shows "distinct (selected now tf pattern items)"
    and "set (selected now tf pattern items)
      = {key. \<exists>v. (base_key_bytes key, v) \<in> set items \<and> wanted now tf pattern key v}"
proof -
  have "distinct (selected now tf pattern items) \<and> set (selected now tf pattern items)
      = {key. \<exists>v. (base_key_bytes key, v) \<in> set items \<and> wanted now tf pattern key v}"
    using assms
  proof (induction items)
    case (Cons x items)
    from Cons.prems(1) obtain key v where x: "x = (base_key_bytes key, v)" "items_ok now clk items"
      by (rule items_ok_Cons) blast
    have "(base_key_bytes key, w) \<notin> set items" for w
      using Cons.prems(2) x(1) by force
    then show ?case
      using Cons.IH [OF x(2)] Cons.prems(2) x(1) by auto
  qed simp
  then show "distinct (selected now tf pattern items)"
    and "set (selected now tf pattern items)
      = {key. \<exists>v. (base_key_bytes key, v) \<in> set items \<and> wanted now tf pattern key v}"
    by blast+
qed

text \<open>The keys of an instance that a walk is to return.\<close>

definition live_keys :: "u64 \<Rightarrow> data_type option \<Rightarrow> bytes \<Rightarrow> (bytes \<Rightarrow> bytes option) \<Rightarrow> bytes set" where
  "live_keys now type_filter pattern M =
     {key. \<exists>v. M (base_key_bytes key) = Some v \<and> wanted now type_filter pattern key v}"

lemma selected_all:
  assumes "instance_ok E view st" and "iter_ok (en_rocks E) view" and "meta_ok (meta_family view st)"
    and "sees now (meta_family view st) clk"
  shows "distinct (selected now tf pattern (meta_items E st None))"
    and "set (selected now tf pattern (meta_items E st None)) = live_keys now tf pattern (meta_family view st)"
  using selected_keys [OF meta_items_ok [OF assms] sorted_items_distinct [OF meta_items(2) [OF assms(1,2)]]]
  by (simp_all add: meta_items(3) [OF assms(1,2)] reaches_def live_keys_def)

lemma length_meta_items:
  assumes "instance_ok E view st" and "iter_ok (en_rocks E) view"
  shows "length (meta_items E st None) = card (dom (meta_family view st))"
proof -
  have "set (map fst (meta_items E st None)) = dom (meta_family view st)"
    by (force simp: meta_items(3) [OF assms] reaches_def)
  then show ?thesis
    using distinct_card [OF sorted_items_distinct [OF meta_items(2) [OF assms]]] by (metis length_map)
qed

lemma position_items_start:
  "position_items E insts 0 None = concat (map (\<lambda>st. meta_items E st None) insts)"
  by (cases insts) (simp_all add: position_items_def)

lemma selected_concat: "selected now tf pattern (concat xss) = concat (map (selected now tf pattern) xss)"
  by (induction xss) simp_all

lemma work_start:
  assumes "iter_ok (en_rocks E) view" and "\<forall>st \<in> set insts. instance_ok E view st"
  shows "work E insts 0 None = (\<Sum>st \<leftarrow> insts. card (dom (meta_family view st))) + length insts"
proof -
  have "length (concat (map (\<lambda>st. meta_items E st None) insts)) = (\<Sum>st \<leftarrow> insts. card (dom (meta_family view st)))"
    using assms(2) by (induction insts) (simp_all add: length_meta_items [OF _ assms(1)])
  then show ?thesis by (simp add: work_def position_items_start)
qed

section \<open>FLUSHDB\<close>

text \<open>The contents without some keys of a family.\<close>

definition without :: "column_family \<Rightarrow> bytes set \<Rightarrow> contents \<Rightarrow> contents" where
  "without cf K V = (\<lambda>c k. if c = cf_name cf \<and> k \<in> K then None else V c k)"

lemma without_without: "without cf K (without cf L V) = without cf (L \<union> K) V"
  by (auto simp: without_def fun_eq_iff)

lemma without_empty: "without cf {} V = V"
  by (simp add: without_def)

lemma apply_deletes: "apply_ops (map write_op_of (map (BDelete cf) keys)) V = without cf (set keys) V"
proof (induction keys arbitrary: V)
  case (Cons k keys)
  have "apply_op (WDelete (cf_name cf) k) V = without cf {k} V"
    by (auto simp: without_def fun_eq_iff)
  then show ?case
    using Cons.IH [of "without cf {k} V"] by (simp add: without_without)
qed (simp add: without_empty)

text \<open>What a flush establishes: it succeeds and leaves \<open>V\<close>.\<close>

definition leaves_contents ::
  "('db, 'c) env \<Rightarrow> ('db \<Rightarrow> contents) \<Rightarrow> ('db, 'c) redis \<Rightarrow> unit result \<times> ('db, 'c) redis \<Rightarrow> contents \<Rightarrow> bool" where
  "leaves_contents E view st out V \<longleftrightarrow> (\<exists>st'. out = (Inr (), st') \<and> instance_ok E view st'
     \<and> rd_append_log_fn st' = rd_append_log_fn st \<and> contents_of view st' = V)"

lemma leaves_obind:
  assumes "leaves_contents E view st (f st) V"
    and "\<And>st'. instance_ok E view st' \<Longrightarrow> rd_append_log_fn st' = rd_append_log_fn st \<Longrightarrow>
      contents_of view st' = V \<Longrightarrow> leaves_contents E view st' (g () st') W"
  shows "leaves_contents E view st (obind f g st) W"
proof -
  obtain st' where st': "f st = (Inr (), st')" "instance_ok E view st'"
      "rd_append_log_fn st' = rd_append_log_fn st" "contents_of view st' = V"
    using assms(1) by (auto simp: leaves_contents_def)
  show ?thesis
    using assms(2) [OF st'(2-4)] st'(1,3) by (simp add: leaves_contents_def obind_def)
qed

lemma leaves_return: "instance_ok E view st \<Longrightarrow> leaves_contents E view st (oreturn () st) (contents_of view st)"
  by (simp add: leaves_contents_def oreturn_apply)

definition inferable :: "column_family \<Rightarrow> bytes \<Rightarrow> bool" where
  "inferable cf k \<longleftrightarrow> (\<exists>key. infer_user_key (cf_u32 cf) k = Inr key)"

definition grouped :: "(bytes \<Rightarrow> u16) \<Rightarrow> column_family \<Rightarrow> nat \<times> bytes \<Rightarrow> bool" where
  "grouped crc16 cf g \<longleftrightarrow>
     (\<exists>key. infer_user_key (cf_u32 cf) (snd g) = Inr key \<and> fst g = key_to_slot_id crc16 key)"

lemma group_by_slot_ok:
  "\<forall>k \<in> set keys. inferable cf k \<Longrightarrow>
    \<exists>gs. group_by_slot crc16 cf keys = Inr gs \<and> map snd gs = keys \<and> list_all (grouped crc16 cf) gs"
  by (induction keys) (auto simp: inferable_def grouped_def)

lemma flush_groups_leaves:
  assumes "instance_ok E view st" and "list_all (grouped (en_crc16 E) cf) gs"
  shows "leaves_contents E view st (flush_groups E cf gs slots st)
    (without cf {k. \<exists>s \<in> set slots. (s, k) \<in> set gs} (contents_of view st))"
  using assms(1)
proof (induction slots arbitrary: st)
  case (Cons s slots)
  let ?keys = "map snd (filter (\<lambda>g. fst g = s) gs)"
  have eq: "map (\<lambda>(_, key). BDelete cf key) (filter (\<lambda>g. fst g = s) gs) = map (BDelete cf) ?keys"
    by (simp add: case_prod_beta)
  have "list_all (batch_op_key_ok (slot_key_ok (en_crc16 E) (word_of_nat s))) (map (BDelete cf) ?keys)"
    using assms(2) by (auto simp: list_all_iff grouped_def slot_key_ok_def slot_of_def)
  from write_ops_slot [OF Cons.prems this]
  have first: "leaves_contents E view st (write_ops E (map (BDelete cf) ?keys) st)
      (without cf (set ?keys) (contents_of view st))"
    unfolding leaves_contents_def apply_deletes .
  have keys: "{k. \<exists>s' \<in> set (s # slots). (s', k) \<in> set gs} = set ?keys \<union> {k. \<exists>s \<in> set slots. (s, k) \<in> set gs}"
    by force
  show ?case
    unfolding flush_groups.simps eq keys
  proof (rule leaves_obind, rule first)
    fix st' assume "instance_ok E view st'" "contents_of view st' = without cf (set ?keys) (contents_of view st)"
    then show "leaves_contents E view st' (flush_groups E cf gs slots st')
        (without cf (set ?keys \<union> {k. \<exists>s \<in> set slots. (s, k) \<in> set gs}) (contents_of view st))"
      using Cons.IH [of st'] by (simp only: without_without)
  qed
next
  case Nil
  then show ?case by (simp add: leaves_return without_empty)
qed

lemma flush_keys_chunk_leaves:
  assumes "instance_ok E view st" and "\<forall>k \<in> set keys. inferable cf k" and "\<forall>xs. set (order xs) = set xs"
  shows "leaves_contents E view st (flush_keys_chunk E order cf keys st) (without cf (set keys) (contents_of view st))"
proof (cases "keys = [] \<or> rd_append_log_fn st = None")
  case True
  then show ?thesis
    using write_ops_standalone [OF assms(1), of "map (BDelete cf) keys", unfolded apply_deletes]
    by (auto simp: flush_keys_chunk_def leaves_contents_def without_empty assms(1))
next
  case False
  obtain gs where gs: "group_by_slot (en_crc16 E) cf keys = Inr gs" "map snd gs = keys"
      "list_all (grouped (en_crc16 E) cf) gs"
    using group_by_slot_ok [OF assms(2)] by blast
  have "{k. \<exists>s \<in> set (order (remdups (map fst gs))). (s, k) \<in> set gs} = set keys"
    using assms(3) gs(2) by force
  then show ?thesis
    using False flush_groups_leaves [OF assms(1) gs(3), of "order (remdups (map fst gs))"]
    by (cases "rd_append_log_fn st") (simp_all add: flush_keys_chunk_def gs(1))
qed

lemma flush_items_leaves:
  assumes "instance_ok E view st" and "\<forall>k \<in> set chunk \<union> fst ` set items. inferable cf k"
    and order: "\<forall>xs. set (order xs) = set xs"
  shows "leaves_contents E view st (flush_items E order cf chunk (map Inr items) st)
    (without cf (set chunk \<union> fst ` set items) (contents_of view st))"
  using assms(1,2)
proof (induction items arbitrary: chunk st)
  case (Cons x items)
  obtain k v where x: "x = (k, v)" by (cases x)
  show ?case
  proof (cases "CHUNK_SIZE \<le> length (chunk @ [k])")
    case True
    have "leaves_contents E view st (obind (flush_keys_chunk E order cf (chunk @ [k]))
        (\<lambda>_. flush_items E order cf [] (map Inr items)) st)
        (without cf (set chunk \<union> fst ` set (x # items)) (contents_of view st))"
    proof (rule leaves_obind)
      show "leaves_contents E view st (flush_keys_chunk E order cf (chunk @ [k]) st)
          (without cf (set (chunk @ [k])) (contents_of view st))"
        using flush_keys_chunk_leaves [OF Cons.prems(1) _ order, of "chunk @ [k]" cf] Cons.prems(2) x by simp
      show "leaves_contents E view st' (flush_items E order cf [] (map Inr items) st')
          (without cf (set chunk \<union> fst ` set (x # items)) (contents_of view st))"
        if "instance_ok E view st'" "contents_of view st' = without cf (set (chunk @ [k])) (contents_of view st)" for st'
        using Cons.IH [OF that(1), of "[]"] Cons.prems(2) that(2) x by (simp add: without_without Un_assoc)
    qed
    then show ?thesis using True x by simp
  next
    case False
    then show ?thesis
      using Cons.IH [OF Cons.prems(1), of "chunk @ [k]"] Cons.prems(2) x by simp
  qed
next
  case Nil
  then show ?case
    using flush_keys_chunk_leaves [OF Nil(1) _ order, of chunk cf] leaves_return [OF Nil(1)]
    by (simp add: without_empty)
qed

lemma flush_cfs_leaves:
  assumes "instance_ok E view st" and iter: "iter_ok (en_rocks E) view" and order: "\<forall>xs. set (order xs) = set xs"
    and "\<forall>cf \<in> set cfs. ordered_keys (cf_name cf) (dom (contents_of view st (cf_name cf)))
      \<and> (\<forall>k \<in> dom (contents_of view st (cf_name cf)). inferable cf k)"
    and "distinct cfs"
  shows "leaves_contents E view st (flush_cfs E order cfs st)
    (\<lambda>c. if c \<in> cf_name ` set cfs then Map.empty else contents_of view st c)"
  using assms(1,4,5)
proof (induction cfs arbitrary: st)
  case (Cons cf cfs)
  let ?V = "contents_of view st"
  have "ordered_keys (cf_name cf) (dom (contents_of view st (cf_name cf)) \<union> seek_keys IterStart)"
    using Cons.prems(2) by simp
  from iterator_items [OF Cons.prems(1) iter this] obtain items where
    items: "iterator_cf E (the (rd_db st)) (cf_name cf) IterStart = map Inr items"
      "set items = {(k, v). ?V (cf_name cf) k = Some v \<and> reached (cf_name cf) IterStart k}" .
  have keys: "fst ` set items = dom (?V (cf_name cf))"
    by (force simp: items(2))
  have clear: "without cf (dom (?V (cf_name cf))) ?V = ?V(cf_name cf := Map.empty)"
    by (auto simp: without_def fun_eq_iff)
  have "leaves_contents E view st (obind (flush_items E order cf [] (map Inr items)) (\<lambda>_. flush_cfs E order cfs) st)
    (\<lambda>c. if c \<in> cf_name ` set (cf # cfs) then Map.empty else ?V c)"
  proof (rule leaves_obind)
    show "leaves_contents E view st (flush_items E order cf [] (map Inr items) st) (?V(cf_name cf := Map.empty))"
      using flush_items_leaves [OF Cons.prems(1) _ order, of "[]" items cf] Cons.prems(2)
      by (simp add: keys clear)
    fix st' assume st': "instance_ok E view st'" "contents_of view st' = ?V(cf_name cf := Map.empty)"
    have "cf \<notin> set cfs" "distinct cfs" using Cons.prems(3) by simp_all
    then have "contents_of view st' (cf_name c) = ?V (cf_name c)" if "c \<in> set cfs" for c
      using that st'(2) by auto
    then have "leaves_contents E view st' (flush_cfs E order cfs st')
        (\<lambda>c. if c \<in> cf_name ` set cfs then Map.empty else contents_of view st' c)"
      using Cons.IH [OF st'(1)] Cons.prems(2) \<open>distinct cfs\<close> by simp
    also have "(\<lambda>c. if c \<in> cf_name ` set cfs then Map.empty else contents_of view st' c)
        = (\<lambda>c. if c \<in> cf_name ` set (cf # cfs) then Map.empty else ?V c)"
      by (auto simp: st'(2) fun_eq_iff)
    finally show "leaves_contents E view st' (flush_cfs E order cfs st')
        (\<lambda>c. if c \<in> cf_name ` set (cf # cfs) then Map.empty else ?V c)" .
  qed
  then show ?case
    by (simp add: redis_get_cf_handle_ok [OF Cons.prems(1)] items(1) del: list.set)
next
  case Nil
  then show ?case by (simp add: leaves_contents_def)
qed

section \<open>A small keyspace\<close>

text \<open>Two strings and an expired one.\<close>

definition three_strings :: alist_db where
  "three_strings =
     [((cf_name MetaCF, base_key_bytes [98]), string_bytes [50] 0 0),
      ((cf_name MetaCF, base_key_bytes [97]), string_bytes [49] 0 9),
      ((cf_name MetaCF, base_key_bytes [99]), string_bytes [51] 0 4)]"

lemma meta_value_live_string [simp]:
  "fits x \<Longrightarrow> meta_value_live now (string_bytes x ct et) = Inr (TString, \<not> expired now et)"
  by (simp add: meta_value_live_def del: data_type_u8.simps)

lemma three_strings_view:
  "alist_view three_strings (cf_name cf) k = (if cf \<noteq> MetaCF then None
     else if k = base_key_bytes [98] then Some (string_bytes [50] 0 0)
     else if k = base_key_bytes [97] then Some (string_bytes [49] 0 9)
     else if k = base_key_bytes [99] then Some (string_bytes [51] 0 4) else None)"
  by (simp add: alist_view_def three_strings_def del: cf_name.simps)

lemma three_strings_ok: "meta_ok (alist_view three_strings (cf_name MetaCF))"
  "sees 7 (alist_view three_strings (cf_name MetaCF)) (\<lambda>_. 7)"
  by (auto simp: meta_ok_def sees_def three_strings_view fits_def simp del: cf_name.simps)

lemma three_strings_live:
  "live_keys 7 None [42] (alist_view three_strings (cf_name MetaCF)) = {[97], [98]}"
  by (auto simp: live_keys_def wanted_def three_strings_view fits_def expired_def pattern_matches_def
      simp del: cf_name.simps split: if_splits)

section \<open>Keyspaces of strings and collections\<close>

text \<open>What a key holds, as far as a walk is concerned: a string, or a list, hash, set, zset or vector set
  with its number of elements; each with its expiry.\<close>

datatype key_entry = StringEntry bytes u64 | CollectionEntry data_type u64 u64

fun entry_live :: "u64 \<Rightarrow> key_entry \<Rightarrow> bool" where
  "entry_live now (StringEntry x et) \<longleftrightarrow> \<not> expired now et"
| "entry_live now (CollectionEntry dt n et) \<longleftrightarrow> \<not> expired now et \<and> n \<noteq> 0"

fun entry_type :: "key_entry \<Rightarrow> data_type" where
  "entry_type (StringEntry x et) = TString"
| "entry_type (CollectionEntry dt n et) = dt"

text \<open>The encodings of an entry.\<close>

fun entry_stored :: "key_entry \<Rightarrow> bytes \<Rightarrow> bool" where
  "entry_stored (StringEntry x et) v \<longleftrightarrow> fits x \<and> (\<exists>ct. v = string_bytes x ct et)"
| "entry_stored (CollectionEntry dt n et) v \<longleftrightarrow>
     (if dt = TList
      then \<exists>ver l r res ct. length res = SUFFIX_RESERVE_LENGTH \<and> v = list_meta_bytes TList n ver l r res ct et
      else dt \<in> {THash, TSet, TZSet, TVectorSet}
        \<and> (\<exists>ver res ct. length res = SUFFIX_RESERVE_LENGTH \<and> v = base_meta_bytes dt n ver res ct et))"

text \<open>A meta family that holds the entries of a keyspace and nothing else.\<close>

definition holds_entries :: "(bytes \<Rightarrow> bytes option) \<Rightarrow> (bytes \<Rightarrow> key_entry option) \<Rightarrow> bool" where
  "holds_entries M K \<longleftrightarrow> dom M = base_key_bytes ` dom K
     \<and> (\<forall>k e v. K k = Some e \<longrightarrow> M (base_key_bytes k) = Some v \<longrightarrow> entry_stored e v)"

text \<open>The pattern \<open>*\<close> selects every key, another one the keys its parse denotes.\<close>

definition selects :: "bytes \<Rightarrow> bytes \<Rightarrow> bool" where
  "selects pattern key \<longleftrightarrow> pattern = [42]
     \<or> (if key = [] then pattern = [] else denotes (parse_glob pattern) key)"

lemma pattern_matches_selects: "pattern_matches pattern key \<longleftrightarrow> selects pattern key"
  using glob_loop_decides [of pattern key 0 0 None 0]
  by (simp add: pattern_matches_def selects_def glob_match_bytes_def glob_inv_def glob_goal_def)

lemma meta_value_live_entry:
  assumes "entry_stored e v"
  shows "meta_value_live now v = Inr (entry_type e, entry_live now e)"
proof (cases e)
  case (StringEntry x et)
  then show ?thesis using assms by auto
next
  case (CollectionEntry dt n et)
  show ?thesis
  proof (cases "dt = TList")
    case True
    then obtain ver l r res ct where v: "length res = 16" "v = list_meta_bytes TList n ver l r res ct et"
      using assms CollectionEntry by auto
    have "hd v = data_type_u8 TList" "v \<noteq> []" by (simp_all add: v(2) list_meta_bytes_def)
    then show ?thesis
      using v CollectionEntry True
      by (auto simp: meta_value_live_def pv_is_stale_def expired_def word_neq_0_conv simp del: data_type_u8.simps)
  next
    case False
    then obtain ver res ct where v: "length res = 16" "v = base_meta_bytes dt n ver res ct et"
        and dt: "dt \<in> {THash, TSet, TZSet, TVectorSet}"
      using assms CollectionEntry by auto
    have "hd v = data_type_u8 dt" "v \<noteq> []" by (simp_all add: v(2) base_meta_bytes_def)
    then show ?thesis
      using v CollectionEntry dt
      by (auto simp: meta_value_live_def pv_is_stale_def expired_def word_neq_0_conv simp del: data_type_u8.simps)
  qed
qed

lemma holds_entriesE:
  assumes "holds_entries M K" and "M kb = Some v"
  obtains k e where "kb = base_key_bytes k" and "K k = Some e" and "entry_stored e v"
proof -
  have "kb \<in> base_key_bytes ` dom K"
    using assms by (auto simp: holds_entries_def)
  then obtain k e where "kb = base_key_bytes k" "K k = Some e"
    by auto
  with assms show thesis
    using that unfolding holds_entries_def by simp
qed

lemma holds_entries_ok:
  assumes K: "holds_entries M K" and clk: "\<forall>k e i. K k = Some e \<longrightarrow> entry_live (clk i) e = entry_live now e"
  shows "meta_ok M" and "sees now M clk"
proof -
  have "(\<exists>key. kb = base_key_bytes key) \<and> (\<forall>now. \<exists>r. meta_value_live now v = Inr r)
      \<and> (\<forall>i. meta_value_live (clk i) v = meta_value_live now v)" if kb: "M kb = Some v" for kb v
  proof -
    obtain k e where e: "kb = base_key_bytes k" "K k = Some e" "entry_stored e v"
      using holds_entriesE [OF K kb] .
    then show ?thesis
      using clk meta_value_live_entry [OF e(3)] by simp
  qed
  then show "meta_ok M" and "sees now M clk"
    unfolding meta_ok_def sees_def by simp_all
qed

lemma live_keys_entries:
  assumes K: "holds_entries M K"
  shows "live_keys now tf pattern M
    = {k. \<exists>e. K k = Some e \<and> entry_live now e \<and> tf \<in> {None, Some (entry_type e)} \<and> selects pattern k}"
proof -
  have "(\<exists>v. M (base_key_bytes k) = Some v \<and> wanted now tf pattern k v)
      \<longleftrightarrow> (\<exists>e. K k = Some e \<and> entry_live now e \<and> tf \<in> {None, Some (entry_type e)} \<and> selects pattern k)" for k
  proof (cases "K k")
    case None
    then have "base_key_bytes k \<notin> dom M"
      using K by (auto simp: holds_entries_def)
    then have "M (base_key_bytes k) = None"
      by (simp add: domIff)
    then show ?thesis using None by simp
  next
    case (Some e)
    then have "base_key_bytes k \<in> dom M"
      using K by (auto simp: holds_entries_def)
    then obtain v where v: "M (base_key_bytes k) = Some v"
      by auto
    then have "entry_stored e v"
      using K Some by (simp add: holds_entries_def)
    then show ?thesis
      using Some v meta_value_live_entry [of e v now] by (simp add: wanted_def pattern_matches_selects)
  qed
  then show ?thesis by (simp add: live_keys_def)
qed

text \<open>A live string, an expired one, a hash with a field and an empty list.\<close>

definition mixed_keys :: alist_db where
  "mixed_keys =
     [((cf_name MetaCF, base_key_bytes [97]), string_bytes [49] 0 9),
      ((cf_name MetaCF, base_key_bytes [98]), string_bytes [50] 0 4),
      ((cf_name MetaCF, base_key_bytes [99]), base_meta_bytes THash 1 3 (replicate 16 0) 0 0),
      ((cf_name MetaCF, base_key_bytes [100]), list_meta_bytes TList 0 3 4 5 (replicate 16 0) 0 0)]"

definition mixed_entries :: "bytes \<Rightarrow> key_entry option" where
  "mixed_entries k =
     (if k = [97] then Some (StringEntry [49] 9) else if k = [98] then Some (StringEntry [50] 4)
      else if k = [99] then Some (CollectionEntry THash 1 0)
      else if k = [100] then Some (CollectionEntry TList 0 0) else None)"

lemma mixed_keys_entries: "holds_entries (alist_view mixed_keys (cf_name MetaCF)) mixed_entries"
proof -
  have view: "alist_view mixed_keys (cf_name MetaCF) kb =
      (if kb = base_key_bytes [97] then Some (string_bytes [49] 0 9)
       else if kb = base_key_bytes [98] then Some (string_bytes [50] 0 4)
       else if kb = base_key_bytes [99] then Some (base_meta_bytes THash 1 3 (replicate 16 0) 0 0)
       else if kb = base_key_bytes [100] then Some (list_meta_bytes TList 0 3 4 5 (replicate 16 0) 0 0)
       else None)" for kb
    by (simp add: alist_view_def mixed_keys_def del: cf_name.simps)
  have strings: "entry_stored (StringEntry [49] 9) (string_bytes [49] 0 9)"
      "entry_stored (StringEntry [50] 4) (string_bytes [50] 0 4)"
    by (auto simp: fits_def)
  have collections: "entry_stored (CollectionEntry THash 1 0) (base_meta_bytes THash 1 3 (replicate 16 0) 0 0)"
      "entry_stored (CollectionEntry TList 0 0) (list_meta_bytes TList 0 3 4 5 (replicate 16 0) 0 0)"
    unfolding entry_stored.simps by (force intro: exI [of _ "replicate 16 0"])+
  have "dom mixed_entries = {[97], [98], [99], [100]}"
    by (auto simp: mixed_entries_def dom_def)
  then have "dom (alist_view mixed_keys (cf_name MetaCF)) = base_key_bytes ` dom mixed_entries"
    by (auto simp: view dom_def simp del: cf_name.simps split: if_splits)
  moreover have "entry_stored e v"
    if "mixed_entries k = Some e" "alist_view mixed_keys (cf_name MetaCF) (base_key_bytes k) = Some v" for k e v
    using that strings collections
    by (auto simp: view mixed_entries_def simp del: cf_name.simps entry_stored.simps split: if_splits)
  ultimately show ?thesis
    by (simp add: holds_entries_def)
qed

section \<open>Properties\<close>

text \<open>C29: KEYS is exact. On an instance whose meta family holds a keyspace of strings, lists, hashes,
  sets, zsets and vector sets, and with a clock that lets no key expire during the walk, it returns
  each key once that has not expired, is no empty collection, and is selected by the pattern, and no
  other key. \<open>entry_live\<close> and \<open>selects\<close> are stated on the abstract keyspace, not by the code's own
  checks: a pattern selects what its parse denotes.\<close>

theorem scan_keys_exact:
  assumes ok: "instance_ok E view st" and iter: "iter_ok (en_rocks E) view"
    and K: "holds_entries (meta_family view st) K"
    and clk: "\<forall>k e i. K k = Some e \<longrightarrow> entry_live (clk i) e = entry_live now e"
  shows "\<exists>keys. scan_keys E clk pattern st = Inr keys \<and> distinct keys
    \<and> set keys = {k. \<exists>e. K k = Some e \<and> entry_live now e \<and> selects pattern k}"
proof -
  note ok' = ok iter holds_entries_ok [OF K clk]
  have "iterator_cf E (the (rd_db st)) (cf_name MetaCF) IterStart = map Inr (meta_items E st None)"
    using meta_items(1) [OF ok iter, of None] by (simp del: cf_name.simps)
  then have "scan_keys E clk pattern st = Inr (selected now None pattern (meta_items E st None))"
    using scan_keys_loop_selects [OF meta_items_ok [OF ok']]
    by (simp add: scan_keys_def redis_db_ok [OF ok] meta_handle_ok [OF ok] del: cf_name.simps)
  then show ?thesis
    using selected_all [OF ok', of None pattern] live_keys_entries [OF K, of now None pattern] by simp
qed

theorem scan_keys_exact_witness:
  "\<exists>keys. scan_keys alist_env (\<lambda>_. 7) [42] (alist_redis mixed_keys) = Inr keys \<and> distinct keys
    \<and> set keys = {[97], [99]}"
proof -
  have "{k. \<exists>e. mixed_entries k = Some e \<and> entry_live 7 e \<and> selects [42] k} = {[97], [99]}"
    by (auto simp: mixed_entries_def selects_def expired_def split: if_splits)
  then show ?thesis
    using scan_keys_exact [OF instance_ok_alist iter_ok_alist_env, of mixed_keys mixed_entries "\<lambda>_. 7" 7 "[42]"]
      mixed_keys_entries by (simp del: cf_name.simps)
qed

text \<open>C28: a SCAN session ends and misses nothing. With the keyspace at rest, calls that hand on the
  cursor, each with its own COUNT, reach the cursor 0 after at most as many calls as there are stored
  keys and instances; the pages together hold, instance after instance, each live key of the type that
  matches the pattern exactly once.\<close>

theorem scan_session_complete:
  assumes "iter_ok (en_rocks E) view" and "cursor_cache_ok C"
    and "\<forall>(clk, count) \<in> set calls. walk_ok E view now clk (sg_insts sg)"
    and "0 < ss_next_cursor ss" and "unat (ss_next_cursor ss) + length calls < 2 ^ 64"
    and "(\<Sum>st \<leftarrow> sg_insts sg. card (dom (meta_family view st))) + length (sg_insts sg) < length calls"
  shows "\<exists>pages. scan_session E C type_filter pattern sg calls 0 ss = Some (Inr (concat pages))
    \<and> length pages = length (sg_insts sg)
    \<and> (\<forall>i < length pages. distinct (pages ! i) \<and> set (pages ! i)
         = live_keys now (map_option parse_scan_type type_filter) pattern (meta_family view (sg_insts sg ! i)))"
proof -
  let ?tf = "map_option parse_scan_type type_filter"
  obtain clk count where ok: "walk_ok E view now clk (sg_insts sg)"
    using assms(3,6) by (cases calls) auto
  then have "\<forall>st \<in> set (sg_insts sg). instance_ok E view st"
    by (auto simp: walk_ok_def in_set_conv_nth)
  then have work: "work E (sg_insts sg) 0 None < length calls"
    using assms(6) work_start [OF assms(1), of "sg_insts sg"] by simp
  have "scan_session E C type_filter pattern sg calls 0 ss
      = Some (Inr (concat (map (selected now ?tf pattern) (map (\<lambda>st. meta_items E st None) (sg_insts sg)))))"
    using scan_session_selects [OF assms(1-3) _ _ assms(4,5) work, of 0]
    by (simp add: at_position_def position_items_start selected_concat)
  moreover have "distinct (selected now ?tf pattern (meta_items E (sg_insts sg ! i) None))
      \<and> set (selected now ?tf pattern (meta_items E (sg_insts sg ! i) None))
        = live_keys now ?tf pattern (meta_family view (sg_insts sg ! i))" if "i < length (sg_insts sg)" for i
    using ok that selected_all [OF _ assms(1), of "sg_insts sg ! i" now "clk i"] by (simp add: walk_ok_def)
  ultimately show ?thesis
    by (intro exI [of _ "map (selected now ?tf pattern) (map (\<lambda>st. meta_items E st None) (sg_insts sg))"])
      (simp del: cf_name.simps)
qed


theorem scan_session_complete_witness:
  "\<exists>pages. scan_session alist_env
      \<lparr>cc_get = (\<lambda>q c. q c), cc_insert = (\<lambda>q c s. q(c \<mapsto> s))\<rparr> None [42]
      \<lparr>sg_insts = [alist_redis three_strings], sg_slot_indexer = \<lparr>instance_num = 1\<rparr>, sg_db_id = 0\<rparr>
      (replicate 5 (\<lambda>_ _. 7, 1)) 0 \<lparr>ss_next_cursor = 1, ss_states = (\<lambda>_. None)\<rparr> = Some (Inr (concat pages))
    \<and> length pages = 1 \<and> distinct (hd pages) \<and> set (hd pages) = {[97], [98]}"
proof -
  let ?C = "\<lparr>cc_get = (\<lambda>q c. q c), cc_insert = (\<lambda>q c s. q(c \<mapsto> s))\<rparr>
      :: (u64 \<Rightarrow> scan_cursor_state option) cursor_cache"
  let ?sg = "\<lparr>sg_insts = [alist_redis three_strings], sg_slot_indexer = \<lparr>instance_num = 1\<rparr>, sg_db_id = 0\<rparr>"
  have "cursor_cache_ok ?C" by (simp add: cursor_cache_ok_def)
  moreover have "walk_ok alist_env alist_view 7 (\<lambda>_ _. 7) (sg_insts ?sg)"
    using three_strings_ok by (simp add: walk_ok_def del: cf_name.simps)
  moreover have "card (dom (alist_view three_strings (cf_name MetaCF))) \<le> 3"
  proof -
    have "dom (alist_view three_strings (cf_name MetaCF))
        \<subseteq> {base_key_bytes [98], base_key_bytes [97], base_key_bytes [99]}"
      by (auto simp: three_strings_view simp del: cf_name.simps split: if_splits)
    from card_mono [OF _ this] show ?thesis by (simp add: card_insert_if)
  qed
  ultimately obtain pages where pages:
    "scan_session alist_env ?C None [42] ?sg (replicate 5 (\<lambda>_ _. 7, 1)) 0
        \<lparr>ss_next_cursor = 1, ss_states = (\<lambda>_. None)\<rparr> = Some (Inr (concat pages))" "length pages = 1"
    "\<forall>i < length pages. distinct (pages ! i) \<and> set (pages ! i)
         = live_keys 7 None [42] (contents_of alist_view (sg_insts ?sg ! i) (cf_name MetaCF))"
    using scan_session_complete [OF iter_ok_alist_env, of ?C "replicate 5 (\<lambda>_ _. 7, 1)" 7 ?sg
        "\<lparr>ss_next_cursor = 1, ss_states = (\<lambda>_. None)\<rparr>" None "[42]"]
    by (auto simp del: cf_name.simps)
  from pages(2) have "hd pages = pages ! 0" by (cases pages) simp_all
  moreover have "distinct (pages ! 0) \<and> set (pages ! 0) = {[97], [98]}"
    using pages(2,3) three_strings_live by (simp del: cf_name.simps)
  ultimately show ?thesis
    using pages(1,2) by (intro exI [of _ pages]) (simp only: simp_thms)
qed

text \<open>C30: FLUSHDB empties the instance. When the keys of each family are ordered by its comparator and
  name their user key, it succeeds in standalone and in replicated mode, in whatever order the hash map
  hands out the groups of a chunk, and afterwards no column family holds any key.\<close>

theorem flush_db_empties:
  assumes "instance_ok E view st" and "iter_ok (en_rocks E) view" and "\<forall>xs. set (order xs) = set xs"
    and "\<forall>cf. ordered_keys (cf_name cf) (dom (contents_of view st (cf_name cf)))
      \<and> (\<forall>k \<in> dom (contents_of view st (cf_name cf)). inferable cf k)"
  shows "\<exists>st'. flush_db E order st = (Inr (), st') \<and> instance_ok E view st'
    \<and> (\<forall>cf k. contents_of view st' (cf_name cf) k = None)"
proof -
  let ?cfs = "[MetaCF, HashesDataCF, SetsDataCF, ListsDataCF, ZsetsDataCF, ZsetsScoreCF, VectorDataCF]"
  have cfs: "cf \<in> set ?cfs" for cf
    by (cases cf) simp_all
  have eq: "flush_db E order st = flush_cfs E order ?cfs st"
    unfolding flush_db_def redis_db_ok [OF assms(1)] obind_olift_Inr ..
  have ok: "\<forall>cf \<in> set ?cfs. ordered_keys (cf_name cf) (dom (contents_of view st (cf_name cf)))
      \<and> (\<forall>k \<in> dom (contents_of view st (cf_name cf)). inferable cf k)"
    using assms(4) by blast
  have "leaves_contents E view st (flush_db E order st)
      (\<lambda>c. if c \<in> cf_name ` set ?cfs then Map.empty else contents_of view st c)"
    unfolding eq by (rule flush_cfs_leaves [OF assms(1-3) ok]) simp
  then obtain st' where st': "flush_db E order st = (Inr (), st')" "instance_ok E view st'"
      "contents_of view st' = (\<lambda>c. if c \<in> cf_name ` set ?cfs then Map.empty else contents_of view st c)"
    unfolding leaves_contents_def by (elim exE conjE) (rule that)
  have "contents_of view st' (cf_name cf) k = None" for cf k
    unfolding st'(3) if_P [OF imageI [OF cfs]] ..
  then show ?thesis
    using st'(1,2) by blast
qed

theorem flush_db_empties_witness:
  "\<exists>st'. flush_db alist_env rev (alist_redis three_strings) = (Inr (), st')
    \<and> contents_of alist_view st' (cf_name MetaCF) (base_key_bytes [98]) = None"
proof -
  have "ordered_keys (cf_name cf) (dom (contents_of alist_view (alist_redis three_strings) (cf_name cf)))
      \<and> (\<forall>k \<in> dom (contents_of alist_view (alist_redis three_strings) (cf_name cf)). inferable cf k)" for cf
  proof (cases "cf = MetaCF")
    case True
    then show ?thesis
      using ordered_keys_bytewise [of "cf_name MetaCF"]
      by (auto simp: inferable_def three_strings_view simp del: cf_name.simps split: if_splits)
  next
    case False
    then have "dom (contents_of alist_view (alist_redis three_strings) (cf_name cf)) = {}"
      by (auto simp: three_strings_view simp del: cf_name.simps)
    then show ?thesis by (simp add: ordered_keys_def)
  qed
  then have "\<exists>st'. flush_db alist_env rev (alist_redis three_strings) = (Inr (), st')
      \<and> instance_ok alist_env alist_view st' \<and> (\<forall>cf k. contents_of alist_view st' (cf_name cf) k = None)"
    by (intro flush_db_empties [OF instance_ok_alist iter_ok_alist_env]) simp_all
  then show ?thesis by blast
qed

end
