(* ===== verification/Member_Collections.thy ===== *)
theory Member_Collections
  imports Rocks_Iterator Key_Frame
begin

text \<open>
  What the hash and set commands share. A hash or a set is a meta value under the user key, with a
  count and a version, and one data value per member in a family of its own under (key, version,
  member); members of older versions may be left over. The definitions are the blocks the commands of
  \<^verbatim>\<open>src/storage/src/redis_hashes.rs\<close> and \<^verbatim>\<open>redis_sets.rs\<close> repeat; the lemmas say what they
  do on contents that represent a map from members to values.
\<close>

section \<open>Shared blocks\<close>

definition coll_meta_key :: "bytes \<Rightarrow> bytes result" where
  "coll_meta_key key = base_key_encode (base_key_new key)"

text \<open>\<open>None\<close> when the key is missing or stale.\<close>

definition get_coll_meta ::
  "('db, 'c) env \<Rightarrow> u64 \<Rightarrow> 'db \<Rightarrow> string \<Rightarrow> data_type \<Rightarrow> bytes \<Rightarrow> parsed_base_meta_value option result" where
  "get_coll_meta E now db meta_cf dt meta_key =
     rbind (db_get_cf E db meta_cf meta_key) (\<lambda>r.
     case r of
       Some meta_val_bytes \<Rightarrow>
         rbind (check_type_state now meta_val_bytes dt) (\<lambda>s.
         case s of
           Match \<Rightarrow> rbind (parsed_base_meta_value_new meta_val_bytes) (\<lambda>m. Inr (Some m))
         | _ \<Rightarrow> Inr None)
     | None \<Rightarrow> Inr None)"

definition member_key :: "bytes \<Rightarrow> u64 \<Rightarrow> bytes \<Rightarrow> bytes result" where
  "member_key key version member = member_data_key_encode (member_data_key_new key version member)"

definition member_seek_key :: "bytes \<Rightarrow> u64 \<Rightarrow> bytes \<Rightarrow> bytes result" where
  "member_seek_key key version member =
     member_data_key_encode_seek_key (member_data_key_new key version member)"

definition starts_with :: "bytes \<Rightarrow> bytes \<Rightarrow> bool" where
  "starts_with k p \<longleftrightarrow> take (length p) k = p"

text \<open>The loop over the items of an iterator that stops at the first key without the prefix.\<close>

fun walk_prefix :: "bytes \<Rightarrow> (bytes \<Rightarrow> bytes \<Rightarrow> 'a result) \<Rightarrow> (bytes \<times> bytes) result list \<Rightarrow> 'a list result" where
  "walk_prefix p f [] = Inr []"
| "walk_prefix p f (item # items) =
     rbind item (\<lambda>(k, v).
     if \<not> starts_with k p then Inr []
     else rbind (f k v) (\<lambda>x. rbind (walk_prefix p f items) (\<lambda>xs. Inr (x # xs))))"

text \<open>\<open>ParsedBaseDataValue::new\<close>, \<open>strip_suffix\<close> and \<open>user_value\<close>.\<close>

definition data_user_value :: "bytes \<Rightarrow> bytes result" where
  "data_user_value b = rbind (parsed_base_data_value_new b) (\<lambda>p. pv_user_value (base_data_strip_suffix p))"

text \<open>The puts of a list of members and values; data value \<open>i\<close> takes reading \<open>i\<close> of the clock.\<close>

fun encode_members ::
  "(nat \<Rightarrow> u64) \<Rightarrow> nat \<Rightarrow> column_family \<Rightarrow> bytes \<Rightarrow> u64 \<Rightarrow> (bytes \<times> bytes) list \<Rightarrow> batch_op list result" where
  "encode_members clk i cf key version [] = Inr []"
| "encode_members clk i cf key version ((member, value) # rest) =
     rbind (member_key key version member) (\<lambda>k.
     rbind (encode_members clk (Suc i) cf key version rest) (\<lambda>ops.
     Inr (BPut cf k (element_bytes (clk i) value) # ops)))"

text \<open>The encoded keys of those members that are stored.\<close>

fun stored_members ::
  "('db, 'c) env \<Rightarrow> 'db \<Rightarrow> string \<Rightarrow> bytes \<Rightarrow> u64 \<Rightarrow> bytes list \<Rightarrow> bytes list result" where
  "stored_members E db data_cf key version [] = Inr []"
| "stored_members E db data_cf key version (member # rest) =
     rbind (member_key key version member) (\<lambda>k.
     rbind (db_get_cf E db data_cf k) (\<lambda>r.
     rbind (stored_members E db data_cf key version rest) (\<lambda>ks.
     Inr (if r \<noteq> None then k # ks else ks))))"

section \<open>Keys and values\<close>

definition prefix_bytes :: "bytes \<Rightarrow> u64 \<Rightarrow> bytes" where
  "prefix_bytes key v = replicate 8 0 @ encoded_user_key key @ u64_le v"

definition member_bytes :: "bytes \<Rightarrow> u64 \<Rightarrow> bytes \<Rightarrow> bytes" where
  "member_bytes key v m = prefix_bytes key v @ m @ replicate 16 0"

lemma coll_meta_key_eq [simp]: "coll_meta_key key = Inr (base_key_bytes key)"
  by (simp add: coll_meta_key_def)

lemma member_key_eq [simp]: "member_key key v m = Inr (member_bytes key v m)"
  by (simp add: member_key_def member_data_key_encode_eq member_data_key_new_def member_bytes_def prefix_bytes_def)

lemma member_seek_key_eq [simp]: "member_seek_key key v m = Inr (prefix_bytes key v @ m)"
  by (simp add: member_seek_key_def member_data_key_encode_seek_key_eq member_data_key_new_def prefix_bytes_def)

lemma prefix_bytes_eq_iff [simp]: "prefix_bytes key v @ xs = prefix_bytes key' v' @ ys \<longleftrightarrow> key = key' \<and> v = v' \<and> xs = ys"
  by (auto simp: prefix_bytes_def)

lemma member_bytes_inject [simp]: "member_bytes key v m = member_bytes key' v' m' \<longleftrightarrow> key = key' \<and> v = v' \<and> m = m'"
  by (simp add: member_bytes_def)

lemma starts_with_append [simp]: "starts_with (p @ xs) p"
  by (simp add: starts_with_def)

lemma starts_with_member [simp]: "starts_with (member_bytes key' v' m) (prefix_bytes key v) \<longleftrightarrow> key' = key \<and> v' = v"
proof
  assume "starts_with (member_bytes key' v' m) (prefix_bytes key v)"
  then have "prefix_bytes key v @ drop (length (prefix_bytes key v)) (member_bytes key' v' m) = member_bytes key' v' m"
    unfolding starts_with_def by (metis append_take_drop_id)
  then show "key' = key \<and> v' = v"
    by (metis member_bytes_def prefix_bytes_eq_iff)
qed (simp add: member_bytes_def)

lemma data_user_value_element [simp]: "data_user_value (element_bytes ct x) = Inr x"
  by (simp add: data_user_value_def element_bytes_eq parsed_base_data_value_encode base_data_strip_suffix_def
      pv_user_value_def slice_def)

lemma parsed_member_bytes [simp]:
  "parsed_member_data_key_new (member_bytes key v m) = Inr (member_data_key_new key v m)"
proof -
  have "member_data_key_encode (member_data_key_new key v m) = Inr (member_bytes key v m)"
    using member_key_eq [of key v m] unfolding member_key_def .
  moreover have "member_data_key_valid (member_data_key_new key v m)"
    by (simp add: member_data_key_valid_def member_data_key_new_def)
  ultimately show ?thesis
    using member_key_codec.rbind_parse_encode [of "member_data_key_new key v m"] by simp
qed

section \<open>Representation\<close>

text \<open>The families with one data value per member, and the type of their meta values.\<close>

definition member_type :: "data_type \<Rightarrow> column_family \<Rightarrow> bool" where
  "member_type dt cf \<longleftrightarrow> (dt, cf) \<in> {(THash, HashesDataCF), (TSet, SetsDataCF), (TZSet, ZsetsDataCF)}"

lemma own_cell_member: "member_type dt cf \<Longrightarrow> own_cell key cf (member_bytes key v m)"
  using infer_user_key_member [of cf key v m "member_bytes key v m"] member_key_eq [of key v m]
  unfolding member_key_def by (auto simp: own_cell_def member_type_def)

definition cell :: "bytes option \<Rightarrow> bytes option \<Rightarrow> bool" where
  "cell x c \<longleftrightarrow> (case x of None \<Rightarrow> c = None | Some y \<Rightarrow> \<exists>ct. c = Some (element_bytes ct y))"

lemma cell_simps [simp]:
  "cell None c \<longleftrightarrow> c = None"
  "cell (Some y) c \<longleftrightarrow> (\<exists>ct. c = Some (element_bytes ct y))"
  "cell x None \<longleftrightarrow> x = None"
  by (auto simp: cell_def split: option.split)

lemma element_bytes_inject [simp]: "element_bytes ct x = element_bytes ct' x' \<longleftrightarrow> ct = ct' \<and> x = x'"
  unfolding element_bytes_eq by (auto dest: arg_cong [where f = length])

lemma cell_Some: "cell x (Some w) \<longleftrightarrow> (\<exists>ct y. x = Some y \<and> w = element_bytes ct y)"
  by (auto simp: cell_def split: option.split)

definition cells :: "column_family \<Rightarrow> contents \<Rightarrow> bytes \<Rightarrow> u64 \<Rightarrow> (bytes \<rightharpoonup> bytes) \<Rightarrow> bool" where
  "cells cf V key v F \<longleftrightarrow> (\<forall>m. cell (F m) (V (cf_name cf) (member_bytes key v m)))"

definition holds_coll ::
  "data_type \<Rightarrow> column_family \<Rightarrow> contents \<Rightarrow> bytes \<Rightarrow> ((bytes \<rightharpoonup> bytes) \<times> u64) option \<Rightarrow> bool" where
  "holds_coll dt cf V key s \<longleftrightarrow>
     (case s of
        None \<Rightarrow> meta_at V key = None
      | Some (F, et) \<Rightarrow> finite (dom F) \<and> card (dom F) < 2 ^ 64
          \<and> (\<exists>v res ct. length res = 16
               \<and> meta_at V key = Some (base_meta_bytes dt (word_of_nat (card (dom F))) v res ct et)
               \<and> cells cf V key v F))"

text \<open>Every stored key of the family is a member key, of a version below \<open>t\<close>.\<close>

definition family_ok :: "column_family \<Rightarrow> contents \<Rightarrow> u64 \<Rightarrow> bool" where
  "family_ok cf V t \<longleftrightarrow>
     (\<forall>k. V (cf_name cf) k \<noteq> None \<longrightarrow> (\<exists>key v m. k = member_bytes key v m \<and> v < t))"

text \<open>What a command sees at a reading of the clock.\<close>

definition seen_coll :: "u64 \<Rightarrow> ((bytes \<rightharpoonup> bytes) \<times> u64) option \<Rightarrow> ((bytes \<rightharpoonup> bytes) \<times> u64) option" where
  "seen_coll now s =
     (case s of None \<Rightarrow> None | Some (F, et) \<Rightarrow> if F = Map.empty \<or> expired now et then None else Some (F, et))"

definition members_of :: "((bytes \<rightharpoonup> bytes) \<times> u64) option \<Rightarrow> bytes \<rightharpoonup> bytes" where
  "members_of s = (case s of None \<Rightarrow> Map.empty | Some (F, et) \<Rightarrow> F)"

lemma seen_coll_simps [simp]:
  "seen_coll now None = None"
  "seen_coll now (Some (F, et)) = (if F = Map.empty \<or> expired now et then None else Some (F, et))"
  by (simp_all add: seen_coll_def)

lemma members_of_simps [simp]: "members_of None = Map.empty" "members_of (Some (F, et)) = F"
  by (simp_all add: members_of_def)

lemma card_word_eq_0 [simp]:
  "finite (dom F) \<Longrightarrow> card (dom F) < 2 ^ 64 \<Longrightarrow> (word_of_nat (card (dom F)) :: u64) = 0 \<longleftrightarrow> F = Map.empty"
  using word_of_nat_eq_0 [of "card (dom F)"] by simp

lemma holds_coll_frame:
  assumes "frame key V V'" and "key' \<noteq> key" and "member_type dt cf" and "holds_coll dt cf V key' s"
  shows "holds_coll dt cf V' key' s"
proof -
  have "meta_at V' key' = meta_at V key'"
    using frame_meta [OF assms(1,2)] .
  moreover have "V' (cf_name cf) (member_bytes key' v m) = V (cf_name cf) (member_bytes key' v m)" for v m
    using frame_cell [OF assms(1) own_cell_member [OF assms(3)] assms(2)] .
  then have "cells cf V' key' v F = cells cf V key' v F" for v F
    by (simp add: cells_def)
  ultimately show ?thesis
    using assms(4) by (cases s) (auto simp: holds_coll_def simp del: cf_name.simps)
qed

text \<open>Reading the meta value. \<open>None\<close> is what a missing and a stale key give.\<close>

lemma get_coll_meta_holds:
  assumes ok: "instance_ok E view st" and H: "holds_coll dt cf (contents_of view st) key s"
    and mt: "member_type dt cf"
  shows "\<exists>v res ct. length res = 16
    \<and> (case s of None \<Rightarrow> True | Some (F, et) \<Rightarrow> cells cf (contents_of view st) key v F)
    \<and> get_coll_meta E now (the (rd_db st)) (cf_name MetaCF) dt (base_key_bytes key)
      = Inr (case seen_coll now s of None \<Rightarrow> None
             | Some (F, et) \<Rightarrow> Some (mk_base_meta dt (word_of_nat (card (dom F))) v res ct et))"
proof (cases s)
  case None
  then show ?thesis
    using H db_get_ok(2) [OF ok, of "cf_name MetaCF" "base_key_bytes key"]
    by (intro exI [of _ 0] exI [of _ "replicate 16 0"]) (simp add: holds_coll_def get_coll_meta_def del: cf_name.simps)
next
  case (Some x)
  obtain F et where s: "s = Some (F, et)" using Some by (cases x) simp
  obtain v res ct where m: "length res = 16" "finite (dom F)" "card (dom F) < 2 ^ 64"
      "meta_at (contents_of view st) key = Some (base_meta_bytes dt (word_of_nat (card (dom F))) v res ct et)"
      "cells cf (contents_of view st) key v F"
    using H s by (auto simp: holds_coll_def)
  have "dt \<in> {THash, TSet, TZSet, TVectorSet}" using mt by (auto simp: member_type_def)
  then show ?thesis
    using m s db_get_ok(2) [OF ok, of "cf_name MetaCF" "base_key_bytes key"]
      check_type_state_base_meta [OF m(1), of dt now "word_of_nat (card (dom F))" v ct et dt]
    by (intro exI [of _ v] exI [of _ res] exI [of _ ct]) (simp add: get_coll_meta_def del: cf_name.simps)
qed

section \<open>Walks over the members\<close>

fun result_map :: "('a \<Rightarrow> 'b result) \<Rightarrow> 'a list \<Rightarrow> 'b list result" where
  "result_map f [] = Inr []"
| "result_map f (x # xs) = rbind (f x) (\<lambda>y. rbind (result_map f xs) (\<lambda>ys. Inr (y # ys)))"

lemma result_map_Inr: "(\<And>x. x \<in> set xs \<Longrightarrow> f x = Inr (g x)) \<Longrightarrow> result_map f xs = Inr (map g xs)"
  by (induction xs) simp_all

lemma result_map_map: "result_map f (map g xs) = result_map (f \<circ> g) xs"
  by (induction xs) simp_all

lemma walk_prefix_takeWhile:
  "walk_prefix p f (map Inr items) = result_map (\<lambda>(k, v). f k v) (takeWhile (\<lambda>(k, v). starts_with k p) items)"
  by (induction items) auto

lemma starts_with_between:
  "bytes_cmp p k \<noteq> Greater \<Longrightarrow> bytes_cmp k k' \<noteq> Greater \<Longrightarrow> starts_with k' p \<Longrightarrow> starts_with k p"
proof (induction p k arbitrary: k' rule: bytes_cmp.induct)
  case (4 a as b bs)
  then obtain ks where k': "k' = a # ks" "starts_with ks as" by (cases k') (auto simp: starts_with_def)
  have "\<not> b < a" "\<not> a < b"
    using 4(2,3) k' by (auto simp: cmp_of_def split: if_splits)
  then have "a = b" by simp
  then show ?case
    using 4(1) [of ks] 4(2,3) k' by (simp add: starts_with_def)
qed (auto simp: starts_with_def)

lemma takeWhile_filter:
  assumes "sorted_wrt R xs" and "\<And>x y. x \<in> set xs \<Longrightarrow> y \<in> set xs \<Longrightarrow> R x y \<Longrightarrow> P y \<Longrightarrow> P x"
  shows "takeWhile P xs = filter P xs"
  using assms
proof (induction xs)
  case (Cons x xs)
  show ?case
  proof (cases "P x")
    case True
    have "takeWhile P xs = filter P xs"
    proof (rule Cons.IH)
      show "sorted_wrt R xs" using Cons.prems(1) by simp
      show "P x" if "x \<in> set xs" "y \<in> set xs" "R x y" "P y" for x y
        using Cons.prems(2) [of x y] that by simp
    qed
    then show ?thesis using True by simp
  next
    case False
    have "\<not> P y" if "y \<in> set xs" for y
      using Cons.prems(2) [of x y] Cons.prems(1) that False by auto
    then show ?thesis using False by (simp add: filter_False)
  qed
next
  case Nil
  show ?case by simp
qed

lemma bytes_cmp_zeros: "bytes_cmp (a @ replicate n 0) (b @ replicate n 0) = bytes_cmp a b"
proof (induction a b rule: bytes_cmp.induct)
  case (2 b bs)
  have "bytes_cmp (replicate n 0) (c # cs @ replicate n 0) = Less" for c cs
  proof (induction n arbitrary: c cs)
    case (Suc n)
    have "c = 0 \<or> 0 < c" using byte_zero_less by blast
    moreover have "bytes_cmp (replicate n 0) (cs @ 0 # replicate n 0) = Less"
      using Suc.IH [of "hd (cs @ [0])" "tl (cs @ [0])"] by (cases cs) simp_all
    ultimately show ?case by (auto simp: cmp_of_def replicate_app_Cons_same)
  qed simp
  then show ?case by simp
next
  case (3 a as)
  have "bytes_cmp (c # cs @ replicate n 0) (replicate n 0) = Greater" for c cs
  proof (induction n arbitrary: c cs)
    case (Suc n)
    have "c = 0 \<or> 0 < c" using byte_zero_less by blast
    moreover have "bytes_cmp (cs @ 0 # replicate n 0) (replicate n 0) = Greater"
      using Suc.IH [of "hd (cs @ [0])" "tl (cs @ [0])"] by (cases cs) simp_all
    ultimately show ?case by (auto simp: cmp_of_def replicate_app_Cons_same)
  qed simp
  then show ?case by simp
qed simp_all

lemma bytes_cmp_member [simp]:
  "bytes_cmp (member_bytes key v m) (member_bytes key v m') = bytes_cmp m m'"
  by (simp add: member_bytes_def bytes_cmp_zeros)

text \<open>A map as the ordered list of its entries, with the creation time of each value.\<close>

definition entries :: "(bytes \<rightharpoonup> bytes) \<Rightarrow> (bytes \<times> u64 \<times> bytes) list \<Rightarrow> bool" where
  "entries F xs \<longleftrightarrow> sorted_wrt (\<lambda>x y. bytes_cmp (fst x) (fst y) = Less) xs
     \<and> (\<lambda>(m, ct, x). (m, x)) ` set xs = {(m, x). F m = Some x}"

lemma member_type_bytewise: "member_type dt cf \<Longrightarrow> bytewise (cf_name cf)"
  by (auto simp: member_type_def)

lemma bytes_cmp_prefix_le: "bytes_cmp (p @ q) k \<noteq> Greater \<Longrightarrow> bytes_cmp p k \<noteq> Greater"
proof (induction p k rule: bytes_cmp.induct)
  case (4 a as b bs)
  then show ?case by (auto simp: cmp_of_def split: if_splits)
qed simp_all

text \<open>Ordered stored members, as entries.\<close>

lemma entries_of_members:
  assumes C: "cells cf V key v F"
    and sorted: "sorted_wrt (\<lambda>x y. bytes_cmp (fst x) (fst y) = Less) ys"
    and ys: "set ys = {(k, w). \<exists>m. k = member_bytes key v m \<and> V (cf_name cf) k = Some w \<and> Q m}"
  obtains xs where "ys = map (\<lambda>(m, ct, x). (member_bytes key v m, element_bytes ct x)) xs"
    and "entries (F |` {m. Q m}) xs"
proof -
  let ?g = "\<lambda>(m, ct, x). (member_bytes key v m, element_bytes ct x)" and ?V = "V (cf_name cf)"
  have cell: "cell (F m) (?V (member_bytes key v m))" for m using C by (simp add: cells_def)
  have "\<exists>z. y = ?g z" if mem: "y \<in> set ys" for y
  proof -
    obtain m w where y: "y = (member_bytes key v m, w)" "?V (member_bytes key v m) = Some w"
      using mem unfolding ys by auto
    then obtain ct x where "w = element_bytes ct x" using cell [of m] by (auto simp: cell_Some)
    then show ?thesis using y(1) by (intro exI [of _ "(m, ct, x)"]) simp
  qed
  then obtain xs where xs: "ys = map ?g xs" using ex_map_conv [of ys ?g] by blast
  have mem: "(m, ct, x) \<in> set xs \<longleftrightarrow> ?V (member_bytes key v m) = Some (element_bytes ct x) \<and> Q m" for m ct x
  proof -
    have "inj ?g" by (auto simp: inj_def)
    then have "(m, ct, x) \<in> set xs \<longleftrightarrow> ?g (m, ct, x) \<in> set ys" unfolding xs set_map by (simp only: inj_image_mem_iff)
    then show ?thesis unfolding ys by auto
  qed
  have "(\<lambda>(m, ct, x). (m, x)) ` set xs = {(m, x). (F |` {m. Q m}) m = Some x}"
  proof (intro equalityI subsetI)
    fix z assume "z \<in> (\<lambda>(m, ct, x). (m, x)) ` set xs"
    then obtain m ct x where z: "z = (m, x)" "(m, ct, x) \<in> set xs" by auto
    then show "z \<in> {(m, x). (F |` {m. Q m}) m = Some x}" using cell [of m] by (auto simp: mem cell_Some)
  next
    fix z assume "z \<in> {(m, x). (F |` {m. Q m}) m = Some x}"
    then obtain m x where z: "z = (m, x)" "F m = Some x" "Q m" by (auto simp: restrict_map_def split: if_splits)
    then obtain ct where "?V (member_bytes key v m) = Some (element_bytes ct x)"
      using cell [of m] by (auto simp: cell_simps)
    then show "z \<in> (\<lambda>(m, ct, x). (m, x)) ` set xs" using z mem by force
  qed
  moreover have "sorted_wrt (\<lambda>x y. bytes_cmp (fst x) (fst y) = Less) xs"
    using sorted unfolding xs sorted_wrt_map by (simp add: case_prod_beta)
  ultimately show ?thesis using that [OF xs] by (simp add: entries_def)
qed

text \<open>Iteration from a point of the members: the members from there on, then other keys.\<close>

lemma member_items:
  assumes ok: "instance_ok E view st" and iter: "iter_ok (en_rocks E) view" and mt: "member_type dt cf"
    and fam: "family_ok cf (contents_of view st) t" and C: "cells cf (contents_of view st) key v F"
  obtains xs rest where "iterator_cf E (the (rd_db st)) (cf_name cf) (IterFrom (prefix_bytes key v @ start) Forward)
      = map Inr (map (\<lambda>(m, ct, x). (member_bytes key v m, element_bytes ct x)) xs @ rest)"
    and "entries (F |` {m. bytes_cmp start (m @ replicate 16 0) \<noteq> Greater}) xs"
    and "\<forall>y \<in> set rest. \<not> starts_with (fst y) (prefix_bytes key v)"
proof -
  let ?p = "prefix_bytes key v" and ?V = "contents_of view st (cf_name cf)"
  let ?from = "IterFrom (prefix_bytes key v @ start) Forward" and ?P = "\<lambda>y. starts_with (fst y) (prefix_bytes key v)"
  have bw: "bytewise (cf_name cf)" by (rule member_type_bytewise [OF mt])
  from iterator_items [OF ok iter ordered_keys_bytewise [OF bw]] obtain items where
    items: "iterator_cf E (the (rd_db st)) (cf_name cf) ?from = map Inr items"
      "sorted_wrt (walk_before (cf_name cf) ?from) items"
      "set items = {(k, w). ?V k = Some w \<and> reached (cf_name cf) ?from k}" .
  have before: "walk_before (cf_name cf) ?from x y \<longleftrightarrow> bytes_cmp (fst x) (fst y) = Less" for x y
    using bw by simp
  have reach: "reached (cf_name cf) ?from k \<longleftrightarrow> bytes_cmp (?p @ start) k \<noteq> Greater" for k
    using bw by (cases "bytes_cmp (?p @ start) k") auto
  have take: "takeWhile ?P items = filter ?P items"
  proof (rule takeWhile_filter [OF items(2)])
    fix x y assume "x \<in> set items" "walk_before (cf_name cf) ?from x y" "?P y"
    moreover from this(1) have "bytes_cmp ?p (fst x) \<noteq> Greater"
      unfolding items(3) reach by (auto dest: bytes_cmp_prefix_le)
    ultimately show "?P x" using starts_with_between [of ?p "fst x" "fst y"] before [of x y] by auto
  qed
  have "filter ?P items = filter ?P (takeWhile ?P items) @ filter ?P (dropWhile ?P items)"
    by (simp only: filter_append [symmetric] takeWhile_dropWhile_id)
  then have rest: "filter ?P (dropWhile ?P items) = []" by (simp add: take)
  have member: "bytes_cmp (?p @ start) (member_bytes key v m) = bytes_cmp start (m @ replicate 16 0)" for m
    by (simp add: member_bytes_def bytes_cmp_same_prefix)
  have "sorted_wrt (\<lambda>x y. bytes_cmp (fst x) (fst y) = Less) items"
    using items(2) by (rule sorted_wrt_mono_rel [rotated]) (use before in blast)
  then have "sorted_wrt (\<lambda>x y. bytes_cmp (fst x) (fst y) = Less) (filter ?P items)"
    by (rule sorted_wrt_filter)
  moreover have "set (filter ?P items) = {(k, w). \<exists>m. k = member_bytes key v m \<and> ?V k = Some w
      \<and> bytes_cmp start (m @ replicate 16 0) \<noteq> Greater}"
  proof (intro equalityI subsetI)
    fix x assume "x \<in> set (filter ?P items)"
    then obtain k w where x: "x = (k, w)" "?V k = Some w" "starts_with k ?p" "bytes_cmp (?p @ start) k \<noteq> Greater"
      unfolding set_filter items(3) reach by auto
    moreover obtain key' v' m where "k = member_bytes key' v' m" using fam x(2) by (auto simp: family_ok_def)
    ultimately show "x \<in> {(k, w). \<exists>m. k = member_bytes key v m \<and> ?V k = Some w
        \<and> bytes_cmp start (m @ replicate 16 0) \<noteq> Greater}" using member by auto
  next
    fix x assume "x \<in> {(k, w). \<exists>m. k = member_bytes key v m \<and> ?V k = Some w
      \<and> bytes_cmp start (m @ replicate 16 0) \<noteq> Greater}"
    then show "x \<in> set (filter ?P items)" unfolding set_filter items(3) reach using member by auto
  qed
  ultimately obtain xs where xs: "filter ?P items = map (\<lambda>(m, ct, x). (member_bytes key v m, element_bytes ct x)) xs"
      "entries (F |` {m. bytes_cmp start (m @ replicate 16 0) \<noteq> Greater}) xs"
    by (rule entries_of_members [OF C])
  have eq: "items = map (\<lambda>(m, ct, x). (member_bytes key v m, element_bytes ct x)) xs @ dropWhile ?P items"
    unfolding xs(1) [symmetric] take [symmetric] by (rule takeWhile_dropWhile_id [symmetric])
  have "iterator_cf E (the (rd_db st)) (cf_name cf) ?from
      = map Inr (map (\<lambda>(m, ct, x). (member_bytes key v m, element_bytes ct x)) xs @ dropWhile ?P items)"
    unfolding items(1) by (rule arg_cong [OF eq])
  moreover have "\<forall>y \<in> set (dropWhile ?P items). \<not> ?P y" using rest by (simp only: filter_empty_conv)
  ultimately show ?thesis using xs(2) by (intro that)
qed

lemma walk_members:
  assumes ok: "instance_ok E view st" and iter: "iter_ok (en_rocks E) view" and mt: "member_type dt cf"
    and fam: "family_ok cf (contents_of view st) t" and C: "cells cf (contents_of view st) key v F"
  shows "\<exists>xs. entries F xs \<and> (\<forall>f :: bytes \<Rightarrow> bytes \<Rightarrow> 'a result.
    walk_prefix (prefix_bytes key v) f
      (iterator_cf E (the (rd_db st)) (cf_name cf) (IterFrom (prefix_bytes key v) Forward))
    = result_map (\<lambda>(m, ct, x). f (member_bytes key v m) (element_bytes ct x)) xs)"
proof -
  let ?g = "\<lambda>(m, ct, x). (member_bytes key v m, element_bytes ct x)"
  have all: "bytes_cmp [] k \<noteq> Greater" for k by (cases k) simp_all
  from member_items [OF assms, where start = "[]"] obtain xs rest where
    it: "iterator_cf E (the (rd_db st)) (cf_name cf) (IterFrom (prefix_bytes key v @ []) Forward) = map Inr (map ?g xs @ rest)"
      "entries (F |` {m. bytes_cmp [] (m @ replicate 16 0) \<noteq> Greater}) xs"
      and rest: "\<forall>y \<in> set rest. \<not> starts_with (fst y) (prefix_bytes key v)" .
  have xs: "iterator_cf E (the (rd_db st)) (cf_name cf) (IterFrom (prefix_bytes key v) Forward) = map Inr (map ?g xs @ rest)"
      "entries F xs" using it by (simp_all add: all restrict_map_def)
  have "takeWhile (\<lambda>(k, w). starts_with k (prefix_bytes key v)) rest = []"
    using rest by (cases rest) (auto simp: case_prod_beta)
  then have take: "takeWhile (\<lambda>(k, w). starts_with k (prefix_bytes key v)) (map ?g xs @ rest) = map ?g xs"
    by (subst takeWhile_append2) auto
  have walk: "walk_prefix (prefix_bytes key v) f (map Inr (map ?g xs @ rest))
      = result_map (\<lambda>(m, ct, x). f (member_bytes key v m) (element_bytes ct x)) xs" for f :: "bytes \<Rightarrow> bytes \<Rightarrow> 'a result"
    unfolding walk_prefix_takeWhile take result_map_map by (rule arg_cong [where f = "\<lambda>g. result_map g xs"]) auto
  show ?thesis unfolding xs(1) by (intro exI [of _ xs] conjI allI; rule xs(2) walk)
qed

section \<open>Writes\<close>

fun member_puts ::
  "(nat \<Rightarrow> u64) \<Rightarrow> nat \<Rightarrow> column_family \<Rightarrow> bytes \<Rightarrow> u64 \<Rightarrow> (bytes \<times> bytes) list \<Rightarrow> batch_op list" where
  "member_puts clk i cf key v [] = []"
| "member_puts clk i cf key v ((m, x) # rest) =
     BPut cf (member_bytes key v m) (element_bytes (clk i) x) # member_puts clk (Suc i) cf key v rest"

lemma encode_members_eq [simp]: "encode_members clk i cf key v fvs = Inr (member_puts clk i cf key v fvs)"
  by (induction clk i cf key v fvs rule: encode_members.induct) simp_all

abbreviation member_deletes :: "column_family \<Rightarrow> bytes \<Rightarrow> u64 \<Rightarrow> bytes list \<Rightarrow> batch_op list" where
  "member_deletes cf key v ms \<equiv> map (\<lambda>m. BDelete cf (member_bytes key v m)) ms"

abbreviation after_ops :: "batch_op list \<Rightarrow> contents \<Rightarrow> contents" where
  "after_ops ops V \<equiv> apply_ops (map write_op_of ops) V"

lemma after_ops_append: "after_ops (ops @ ops') V = after_ops ops' (after_ops ops V)"
  by (simp add: apply_ops_def)

lemma own_puts: "member_type dt cf \<Longrightarrow> list_all (own_op key) (member_puts clk i cf key v fvs)"
  by (induction clk i cf key v fvs rule: member_puts.induct) (simp_all add: own_op_def own_cell_member)

lemma own_deletes: "member_type dt cf \<Longrightarrow> list_all (own_op key) (member_deletes cf key v ms)"
  by (simp add: list_all_iff own_op_def own_cell_member)

lemma cells_put: "cells cf V key v F \<Longrightarrow>
    cells cf (apply_op (WPut (cf_name cf) (member_bytes key v m) (element_bytes ct x)) V) key v (F(m \<mapsto> x))"
  by (auto simp: cells_def)

lemma cells_delete: "cells cf V key v F \<Longrightarrow>
    cells cf (apply_op (WDelete (cf_name cf) (member_bytes key v m)) V) key v (F(m := None))"
  by (simp add: cells_def)

lemma member_type_meta: "member_type dt cf \<Longrightarrow> cf_name cf \<noteq> cf_name MetaCF"
  by (auto simp: member_type_def simp del: cf_name.simps)

text \<open>The meta value and the members after the writes of a batch.\<close>

lemma after_meta:
  assumes "member_type dt cf"
  shows "meta_at (apply_op (WPut (cf_name MetaCF) (base_key_bytes key) b) V) key = Some b"
    "meta_at (apply_op (WDelete (cf_name MetaCF) (base_key_bytes key)) V) key = None"
    "cells cf (apply_op (WPut (cf_name MetaCF) (base_key_bytes key) b) V) key v F = cells cf V key v F"
    "cells cf (apply_op (WDelete (cf_name MetaCF) (base_key_bytes key)) V) key v F = cells cf V key v F"
    "family_ok cf (apply_op (WPut (cf_name MetaCF) (base_key_bytes key) b) V) t = family_ok cf V t"
    "family_ok cf (apply_op (WDelete (cf_name MetaCF) (base_key_bytes key)) V) t = family_ok cf V t"
  using member_type_meta [OF assms] by (simp_all add: cells_def family_ok_def del: cf_name.simps)

lemma family_ok_put: "family_ok cf V t \<Longrightarrow> v < t \<Longrightarrow>
    family_ok cf (apply_op (WPut (cf_name cf) (member_bytes key v m) b) V) t"
  by (auto simp: family_ok_def)

lemma family_ok_delete: "family_ok cf V t \<Longrightarrow> family_ok cf (apply_op (WDelete (cf_name cf) k) V) t"
  by (auto simp: family_ok_def)

lemma family_ok_mono: "family_ok cf V t \<Longrightarrow> t \<le> t' \<Longrightarrow> family_ok cf V t'"
  unfolding family_ok_def by (meson order_less_le_trans)

lemma family_ok_fresh: "family_ok cf V t \<Longrightarrow> t \<le> v \<Longrightarrow> cells cf V key v Map.empty"
  by (fastforce simp: family_ok_def cells_def)

lemma after_puts:
  assumes mt: "member_type dt cf"
  shows "meta_at (after_ops (member_puts clk i cf key v fvs) V) key' = meta_at V key'"
    "cells cf V key v F \<Longrightarrow> cells cf (after_ops (member_puts clk i cf key v fvs) V) key v (F ++ map_of (rev fvs))"
    "family_ok cf V t \<Longrightarrow> v < t \<Longrightarrow> family_ok cf (after_ops (member_puts clk i cf key v fvs) V) t"
proof -
  have 1: "meta_at (apply_op (WPut (cf_name cf) k b) V) key' = meta_at V key'" for k b V
    using member_type_meta [OF mt] by (simp del: cf_name.simps)
  show "meta_at (after_ops (member_puts clk i cf key v fvs) V) key' = meta_at V key'"
  proof (induction fvs arbitrary: V i)
    case (Cons a fvs)
    then show ?case by (cases a) (simp add: 1 del: cf_name.simps apply_op.simps)
  qed simp
  show "cells cf V key v F \<Longrightarrow> cells cf (after_ops (member_puts clk i cf key v fvs) V) key v (F ++ map_of (rev fvs))"
  proof (induction fvs arbitrary: V F i)
    case (Cons a fvs)
    obtain m x where a: "a = (m, x)" by (cases a)
    have eq: "F ++ map_of (rev ((m, x) # fvs)) = F(m \<mapsto> x) ++ map_of (rev fvs)"
      by (auto simp: fun_eq_iff map_add_def split: option.splits)
    have step: "after_ops (member_puts clk i cf key v ((m, x) # fvs)) V
        = after_ops (member_puts clk (Suc i) cf key v fvs)
            (apply_op (WPut (cf_name cf) (member_bytes key v m) (element_bytes (clk i) x)) V)"
      by (simp del: apply_op.simps)
    show ?case
      unfolding a eq step by (rule Cons.IH [OF cells_put [OF Cons.prems]])
  qed simp
  show "family_ok cf V t \<Longrightarrow> v < t \<Longrightarrow> family_ok cf (after_ops (member_puts clk i cf key v fvs) V) t"
  proof (induction fvs arbitrary: V i)
    case (Cons a fvs)
    obtain m x where a: "a = (m, x)" by (cases a)
    show ?case
      using Cons.IH [OF family_ok_put [OF Cons.prems], of "Suc i"] Cons.prems(2)
      by (simp add: a del: apply_op.simps)
  qed simp
qed

lemma after_deletes:
  assumes mt: "member_type dt cf"
  shows "meta_at (after_ops (member_deletes cf key v ms) V) key' = meta_at V key'"
    "cells cf V key v F \<Longrightarrow> cells cf (after_ops (member_deletes cf key v ms) V) key v (F |` (- set ms))"
    "family_ok cf V t \<Longrightarrow> family_ok cf (after_ops (member_deletes cf key v ms) V) t"
proof -
  have 1: "meta_at (apply_op (WDelete (cf_name cf) k) V) key' = meta_at V key'" for k V
    using member_type_meta [OF mt] by (simp del: cf_name.simps)
  show "meta_at (after_ops (member_deletes cf key v ms) V) key' = meta_at V key'"
    by (induction ms arbitrary: V) (use 1 in \<open>simp_all del: cf_name.simps apply_op.simps\<close>)
  show "cells cf V key v F \<Longrightarrow> cells cf (after_ops (member_deletes cf key v ms) V) key v (F |` (- set ms))"
  proof (induction ms arbitrary: V F)
    case (Cons m ms)
    have eq: "F(m := None) |` (- set ms) = F |` (- set (m # ms))"
      by (auto simp: fun_eq_iff restrict_map_def)
    have step: "after_ops (member_deletes cf key v (m # ms)) V
        = after_ops (member_deletes cf key v ms) (apply_op (WDelete (cf_name cf) (member_bytes key v m)) V)"
      by (simp del: apply_op.simps)
    show ?case
      unfolding step eq [symmetric] by (rule Cons.IH [OF cells_delete [OF Cons.prems]])
  qed (simp add: cells_def)
  show "family_ok cf V t \<Longrightarrow> family_ok cf (after_ops (member_deletes cf key v ms) V) t"
  proof (induction ms arbitrary: V)
    case (Cons m ms)
    show ?case
      using Cons.IH [OF family_ok_delete [OF Cons.prems]] by (simp del: apply_op.simps)
  qed simp
qed

text \<open>A key that holds \<open>s\<close> in contents whose versions are below \<open>t\<close>.\<close>

definition coll_state ::
  "data_type \<Rightarrow> column_family \<Rightarrow> bytes \<Rightarrow> ((bytes \<rightharpoonup> bytes) \<times> u64) option \<Rightarrow> u64 \<Rightarrow> contents \<Rightarrow> bool" where
  "coll_state dt cf key s t V \<longleftrightarrow> holds_coll dt cf V key s \<and> family_ok cf V t"

lemma coll_stateI:
  assumes "finite (dom F)" and "card (dom F) < 2 ^ 64" and "length res = 16"
    and "meta_at V key = Some (base_meta_bytes dt (word_of_nat (card (dom F))) v res ct et)"
    and "cells cf V key v F" and "family_ok cf V t"
  shows "coll_state dt cf key (Some (F, et)) t V"
  using assms by (auto simp: coll_state_def holds_coll_def)

text \<open>A batch that writes the meta value and members of one version, in either order.\<close>

lemma coll_state_puts:
  assumes mt: "member_type dt cf" and "cells cf V key v F" and "family_ok cf V t" and "t \<le> t'" and "v < t'"
    and "length res = 16" and "finite (dom F)" and "card (dom (F ++ map_of (rev fvs))) < 2 ^ 64"
    and ops: "ops \<in> {BPut MetaCF (base_key_bytes key) b # member_puts clk i cf key v fvs,
      member_puts clk i cf key v fvs @ [BPut MetaCF (base_key_bytes key) b]}"
    and b: "b = base_meta_bytes dt (word_of_nat (card (dom (F ++ map_of (rev fvs))))) v res ct et"
  shows "coll_state dt cf key (Some (F ++ map_of (rev fvs), et)) t' (after_ops ops V)"
    and "list_all (own_op key) ops"
proof -
  let ?puts = "member_puts clk i cf key v fvs" and ?meta = "WPut (cf_name MetaCF) (base_key_bytes key) b"
  have after: "after_ops ops V \<in> {after_ops ?puts (apply_op ?meta V), apply_op ?meta (after_ops ?puts V)}"
    using ops by (auto simp: after_ops_append simp del: apply_op.simps cf_name.simps)
  have fam: "family_ok cf V t'" by (rule family_ok_mono [OF assms(3,4)])
  have "meta_at (after_ops ops V) key = Some b"
    using after by (auto simp: after_puts(1) [OF mt] after_meta(1) [OF mt] simp del: apply_op.simps cf_name.simps)
  moreover have "cells cf (after_ops ops V) key v (F ++ map_of (rev fvs))"
    using after after_puts(2) [OF mt] assms(2) by (auto simp: after_meta(3) [OF mt] simp del: apply_op.simps cf_name.simps)
  moreover have "family_ok cf (after_ops ops V) t'"
    using after after_puts(3) [OF mt _ assms(5)] fam
    by (auto simp: after_meta(5) [OF mt] simp del: apply_op.simps cf_name.simps)
  moreover have "finite (dom (F ++ map_of (rev fvs)))"
    using assms(7) by (simp add: finite_dom_map_of)
  ultimately show "coll_state dt cf key (Some (F ++ map_of (rev fvs), et)) t' (after_ops ops V)"
    using assms(6,8) b by (intro coll_stateI) simp_all
  show "list_all (own_op key) ops"
    using ops own_puts [OF mt] by auto
qed

lemma next_version_later: "v < t \<Longrightarrow> t \<le> now \<Longrightarrow> next_version now v = now"
  unfolding next_version_def by (meson leD order_less_le_trans)

end
