(* ===== verification/Redis_Hashes.thy ===== *)
theory Redis_Hashes
  imports Member_Collections Keyspace_Scan "HOL-Library.AList"
begin

text \<open>
  The hash commands (\<^verbatim>\<open>src/storage/src/redis_hashes.rs\<close>), except \<open>hincrbyfloat\<close>, which reads and
  prints decimal \<open>f64\<close>. Reading 0 of the clock is the staleness check; 1 is the validity check of a
  parsed meta value or the creation time of a new one; 2 belongs to \<open>update_version\<close>, and the data
  values take the readings from 3 on. \<open>hset_with_outcome\<close>, \<open>hsetnx\<close> and \<open>hincrby\<close> differ in the value
  they put and in what they do with a field that exists; the rest of them is one definition.
\<close>

section \<open>Shared blocks\<close>

definition hash_cfs :: "('db, 'c) env \<Rightarrow> ('db, 'c) redis \<Rightarrow> ('db \<times> string \<times> string) result" where
  "hash_cfs E st =
     rbind (get_db_and_cfs E st [MetaCF, HashesDataCF]) (\<lambda>(db, cfs). Inr (db, cfs ! 0, cfs ! 1))"

definition new_hash_meta :: "u64 \<Rightarrow> u64 \<Rightarrow> u64 \<Rightarrow> internal_value" where
  "new_hash_meta now now' count =
     base_meta_update_version now' ((base_meta_value_new now (u64_le count))\<lparr>iv_data_type := THash\<rparr>)"

text \<open>The closures \<open>create_new_hash\<close>.\<close>

definition create_new_hash ::
  "('db, 'c) env \<Rightarrow> (nat \<Rightarrow> u64) \<Rightarrow> bytes \<Rightarrow> bytes \<Rightarrow> (bytes \<times> bytes) list \<Rightarrow> ('db, 'c) redis
     \<Rightarrow> unit result \<times> ('db, 'c) redis" where
  "create_new_hash E clk key base_meta_key fvs =
     (let hashes_meta = new_hash_meta (clk 1) (clk 2) (word_of_nat (length fvs)) in
      obind (olift (encode_members clk 3 HashesDataCF key (iv_version hashes_meta) fvs)) (\<lambda>puts.
      write_ops E (BPut MetaCF base_meta_key (base_meta_value_encode hashes_meta) # puts)))"

text \<open>The branch for a meta value that has become invalid since the staleness check.\<close>

definition reset_hash ::
  "('db, 'c) env \<Rightarrow> (nat \<Rightarrow> u64) \<Rightarrow> bytes \<Rightarrow> bytes \<Rightarrow> parsed_base_meta_value \<Rightarrow> (bytes \<times> bytes) list
     \<Rightarrow> ('db, 'c) redis \<Rightarrow> unit result \<times> ('db, 'c) redis" where
  "reset_hash E clk key base_meta_key meta fvs =
     obind (olift (base_meta_initial_meta_value (clk 2) meta)) (\<lambda>(version, meta).
     obind (olift (base_meta_set_count (word_of_nat (length fvs)) meta)) (\<lambda>meta.
     obind (olift (encode_members clk 3 HashesDataCF key version fvs)) (\<lambda>puts.
     write_ops E (BPut MetaCF base_meta_key (pv_value meta) # puts))))"

definition put_field ::
  "('db, 'c) env \<Rightarrow> (nat \<Rightarrow> u64) \<Rightarrow> bytes \<Rightarrow> bytes \<Rightarrow> bytes \<Rightarrow> 'r
     \<Rightarrow> (bytes \<Rightarrow> bytes \<Rightarrow> ('db, 'c) redis \<Rightarrow> 'r result \<times> ('db, 'c) redis)
     \<Rightarrow> ('db, 'c) redis \<Rightarrow> 'r result \<times> ('db, 'c) redis" where
  "put_field E clk key field value added existing st =
     obind (olift (hash_cfs E st)) (\<lambda>(db, meta_cf, data_cf).
     obind (olift (coll_meta_key key)) (\<lambda>base_meta_key.
     obind (olift (get_coll_meta E (clk 0) db meta_cf THash base_meta_key)) (\<lambda>m.
     case m of
       None \<Rightarrow> obind (create_new_hash E clk key base_meta_key [(field, value)]) (\<lambda>_. oreturn added)
     | Some parsed_meta \<Rightarrow>
       if \<not> base_meta_is_valid (clk 1) parsed_meta
       then obind (reset_hash E clk key base_meta_key parsed_meta [(field, value)]) (\<lambda>_. oreturn added)
       else
         obind (olift (member_key key (pv_version parsed_meta) field)) (\<lambda>encoded_data_key.
         obind (olift (db_get_cf E db data_cf encoded_data_key)) (\<lambda>data_value.
         case data_value of
           Some existing_data_bytes \<Rightarrow> existing encoded_data_key existing_data_bytes
         | None \<Rightarrow>
           if \<not> base_meta_check_modify_count 1 parsed_meta
           then olift (Inl (RedisErr ''hash size overflow''))
           else
             obind (olift (base_meta_modify_count 1 parsed_meta)) (\<lambda>parsed_meta.
             obind (write_ops E [BPut MetaCF base_meta_key (pv_value parsed_meta),
                                 BPut HashesDataCF encoded_data_key (element_bytes (clk 3) value)]) (\<lambda>_.
             oreturn added))))))) st"

section \<open>Writes\<close>

definition hset_with_outcome ::
  "('db, 'c) env \<Rightarrow> (nat \<Rightarrow> u64) \<Rightarrow> bytes \<Rightarrow> bytes \<Rightarrow> bytes \<Rightarrow> ('db, 'c) redis
     \<Rightarrow> (int \<times> bool) result \<times> ('db, 'c) redis" where
  "hset_with_outcome E clk key field value =
     put_field E clk key field value (1, True) (\<lambda>encoded_data_key existing_data_bytes.
       obind (olift (data_user_value existing_data_bytes)) (\<lambda>user_value.
       if user_value = value then oreturn (0, False)
       else obind (write_ops E [BPut HashesDataCF encoded_data_key (element_bytes (clk 3) value)]) (\<lambda>_.
            oreturn (0, True))))"

definition hset ::
  "('db, 'c) env \<Rightarrow> (nat \<Rightarrow> u64) \<Rightarrow> bytes \<Rightarrow> bytes \<Rightarrow> bytes \<Rightarrow> ('db, 'c) redis
     \<Rightarrow> int result \<times> ('db, 'c) redis" where
  "hset E clk key field value =
     obind (hset_with_outcome E clk key field value) (\<lambda>(added, _). oreturn added)"

definition hsetnx ::
  "('db, 'c) env \<Rightarrow> (nat \<Rightarrow> u64) \<Rightarrow> bytes \<Rightarrow> bytes \<Rightarrow> bytes \<Rightarrow> ('db, 'c) redis
     \<Rightarrow> int result \<times> ('db, 'c) redis" where
  "hsetnx E clk key field value = put_field E clk key field value 1 (\<lambda>_ _. oreturn 0)"

definition hincrby ::
  "('db, 'c) env \<Rightarrow> (nat \<Rightarrow> u64) \<Rightarrow> bytes \<Rightarrow> bytes \<Rightarrow> i64 \<Rightarrow> ('db, 'c) redis
     \<Rightarrow> i64 result \<times> ('db, 'c) redis" where
  "hincrby E clk key field increment =
     put_field E clk key field (int_to_text increment) increment (\<lambda>encoded_data_key old_val_bytes.
       obind (olift (data_user_value old_val_bytes)) (\<lambda>user_val.
       obind (olift (case parse_i64 (from_utf8_lossy user_val) of
                Some old_int \<Rightarrow> Inr old_int
              | None \<Rightarrow> Inl (RedisErr ''hash value is not an integer''))) (\<lambda>old_int.
       if old_int + increment < - (2 ^ 63) \<or> 2 ^ 63 \<le> old_int + increment
       then olift (Inl (OptionNone ''integer overflow''))
       else
         obind (write_ops E [BPut HashesDataCF encoded_data_key
                               (element_bytes (clk 3) (int_to_text (old_int + increment)))]) (\<lambda>_.
         oreturn (old_int + increment)))))"

text \<open>The hash map of the fields and values; the order \<open>order\<close> in which it hands out its entries is
  the hash map's.\<close>

definition field_map :: "(bytes \<times> bytes) list \<Rightarrow> (bytes \<times> bytes) list" where
  "field_map field_values = fold (\<lambda>(field, value) m. AList.update field value m) field_values []"

definition hmset ::
  "('db, 'c) env \<Rightarrow> (nat \<Rightarrow> u64) \<Rightarrow> ((bytes \<times> bytes) list \<Rightarrow> (bytes \<times> bytes) list) \<Rightarrow> bytes
     \<Rightarrow> (bytes \<times> bytes) list \<Rightarrow> ('db, 'c) redis \<Rightarrow> unit result \<times> ('db, 'c) redis" where
  "hmset E clk order key field_values st =
     obind (olift (hash_cfs E st)) (\<lambda>(db, meta_cf, data_cf).
     let fvs = order (field_map field_values) in
     obind (olift (coll_meta_key key)) (\<lambda>base_meta_key.
     obind (olift (get_coll_meta E (clk 0) db meta_cf THash base_meta_key)) (\<lambda>m.
     case m of
       None \<Rightarrow> create_new_hash E clk key base_meta_key fvs
     | Some parsed_meta \<Rightarrow>
       if \<not> base_meta_is_valid (clk 1) parsed_meta
       then reset_hash E clk key base_meta_key parsed_meta fvs
       else
         obind (olift (stored_members E db data_cf key (pv_version parsed_meta) (map fst fvs))) (\<lambda>stored.
         let new_fields_count = usize_as_i32 (length fvs - length stored) in
         obind (olift (encode_members clk 3 HashesDataCF key (pv_version parsed_meta) fvs)) (\<lambda>data_to_write.
         obind (olift
           (if 0 < new_fields_count then
              if \<not> base_meta_check_modify_count (i64_as_u64 new_fields_count) parsed_meta
              then Inl (RedisErr ''hash size overflow'')
              else base_meta_modify_count (i64_as_u64 new_fields_count) parsed_meta
            else Inr parsed_meta)) (\<lambda>parsed_meta.
         write_ops E (data_to_write
           @ (if 0 < new_fields_count then [BPut MetaCF base_meta_key (pv_value parsed_meta)] else [])))))))) st"

text \<open>The first occurrence of each field.\<close>

definition unique_fields :: "bytes list \<Rightarrow> bytes list" where
  "unique_fields names = rev (remdups (rev names))"

definition hdel ::
  "('db, 'c) env \<Rightarrow> (nat \<Rightarrow> u64) \<Rightarrow> bytes \<Rightarrow> bytes list \<Rightarrow> ('db, 'c) redis \<Rightarrow> int result \<times> ('db, 'c) redis" where
  "hdel E clk key names st =
     obind (olift (hash_cfs E st)) (\<lambda>(db, meta_cf, data_cf).
     obind (olift (coll_meta_key key)) (\<lambda>base_meta_key.
     obind (olift (get_coll_meta E (clk 0) db meta_cf THash base_meta_key)) (\<lambda>m.
     case m of
       None \<Rightarrow> oreturn 0
     | Some meta_val \<Rightarrow>
       obind (olift (stored_members E db data_cf key (pv_version meta_val) (unique_fields names))) (\<lambda>keys_to_delete.
       let del_cnt = usize_as_i32 (length keys_to_delete) in
       if 0 < del_cnt then
         let current = meta_count meta_val; to_del = i64_as_u64 del_cnt in
         if current < to_del then olift (Inl (RedisErr ''hash size underflow''))
         else
           obind (olift (base_meta_set_count (current - to_del) meta_val)) (\<lambda>meta_val.
           obind (write_ops E (map (BDelete HashesDataCF) keys_to_delete
                                @ [BPut MetaCF base_meta_key (pv_value meta_val)])) (\<lambda>_.
           oreturn del_cnt))
       else oreturn del_cnt)))) st"

section \<open>Reads\<close>

definition with_hash ::
  "('db, 'c) env \<Rightarrow> (nat \<Rightarrow> u64) \<Rightarrow> bytes \<Rightarrow> ('db, 'c) redis \<Rightarrow> 'r
     \<Rightarrow> ('db \<Rightarrow> string \<Rightarrow> u64 \<Rightarrow> 'r result) \<Rightarrow> 'r result" where
  "with_hash E clk key st absent present =
     rbind (hash_cfs E st) (\<lambda>(db, meta_cf, data_cf).
     rbind (coll_meta_key key) (\<lambda>base_meta_key.
     rbind (get_coll_meta E (clk 0) db meta_cf THash base_meta_key) (\<lambda>m.
     case m of None \<Rightarrow> Inr absent | Some meta_val \<Rightarrow> present db data_cf (pv_version meta_val))))"

definition read_field ::
  "('db, 'c) env \<Rightarrow> 'db \<Rightarrow> string \<Rightarrow> bytes \<Rightarrow> u64 \<Rightarrow> bytes \<Rightarrow> bytes option result" where
  "read_field E db data_cf key version field =
     rbind (member_key key version field) (\<lambda>encoded_data_key.
     rbind (db_get_cf E db data_cf encoded_data_key) (\<lambda>data_value.
     case data_value of
       Some data_val_bytes \<Rightarrow> rbind (data_user_value data_val_bytes) (\<lambda>u. Inr (Some (from_utf8_lossy u)))
     | None \<Rightarrow> Inr None))"

definition hget ::
  "('db, 'c) env \<Rightarrow> (nat \<Rightarrow> u64) \<Rightarrow> bytes \<Rightarrow> bytes \<Rightarrow> ('db, 'c) redis \<Rightarrow> bytes option result" where
  "hget E clk key field st =
     with_hash E clk key st None (\<lambda>db data_cf version. read_field E db data_cf key version field)"

definition hexists :: "('db, 'c) env \<Rightarrow> (nat \<Rightarrow> u64) \<Rightarrow> bytes \<Rightarrow> bytes \<Rightarrow> ('db, 'c) redis \<Rightarrow> bool result" where
  "hexists E clk key field st = rbind (hget E clk key field st) (\<lambda>ret. Inr (ret \<noteq> None))"

definition hstrlen :: "('db, 'c) env \<Rightarrow> (nat \<Rightarrow> u64) \<Rightarrow> bytes \<Rightarrow> bytes \<Rightarrow> ('db, 'c) redis \<Rightarrow> int result" where
  "hstrlen E clk key field st =
     rbind (hget E clk key field st) (\<lambda>ret.
     Inr (case ret of Some value \<Rightarrow> usize_as_i32 (length value) | None \<Rightarrow> 0))"

fun hmget_loop ::
  "('db, 'c) env \<Rightarrow> 'db \<Rightarrow> string \<Rightarrow> bytes \<Rightarrow> u64 \<Rightarrow> bytes list \<Rightarrow> bytes option list result" where
  "hmget_loop E db data_cf key version [] = Inr []"
| "hmget_loop E db data_cf key version (field # names) =
     rbind (read_field E db data_cf key version field) (\<lambda>r.
     rbind (hmget_loop E db data_cf key version names) (\<lambda>results. Inr (r # results)))"

definition hmget ::
  "('db, 'c) env \<Rightarrow> (nat \<Rightarrow> u64) \<Rightarrow> bytes \<Rightarrow> bytes list \<Rightarrow> ('db, 'c) redis \<Rightarrow> bytes option list result" where
  "hmget E clk key names st =
     with_hash E clk key st (replicate (length names) None)
       (\<lambda>db data_cf version. hmget_loop E db data_cf key version names)"

definition u64_as_i32 :: "u64 \<Rightarrow> int" where
  "u64_as_i32 w = sint (ucast w :: 32 word)"

definition hlen :: "('db, 'c) env \<Rightarrow> (nat \<Rightarrow> u64) \<Rightarrow> bytes \<Rightarrow> ('db, 'c) redis \<Rightarrow> int result" where
  "hlen E clk key st =
     rbind (get_db_and_cfs E st [MetaCF]) (\<lambda>(db, cfs).
     rbind (coll_meta_key key) (\<lambda>base_meta_key.
     rbind (get_coll_meta E (clk 0) db (cfs ! 0) THash base_meta_key) (\<lambda>m.
     case m of None \<Rightarrow> Inr 0 | Some meta_val \<Rightarrow> Inr (u64_as_i32 (meta_count meta_val)))))"

text \<open>The walk over the fields; \<open>f\<close> is the body of the loop.\<close>

definition walk_hash ::
  "('db, 'c) env \<Rightarrow> (nat \<Rightarrow> u64) \<Rightarrow> bytes \<Rightarrow> ('db, 'c) redis \<Rightarrow> (bytes \<Rightarrow> bytes \<Rightarrow> 'r result) \<Rightarrow> 'r list result" where
  "walk_hash E clk key st f =
     with_hash E clk key st [] (\<lambda>db data_cf version.
     rbind (member_seek_key key version []) (\<lambda>p.
     walk_prefix p f (iterator_cf E db data_cf (IterFrom p Forward))))"

definition hkeys :: "('db, 'c) env \<Rightarrow> (nat \<Rightarrow> u64) \<Rightarrow> bytes \<Rightarrow> ('db, 'c) redis \<Rightarrow> bytes list result" where
  "hkeys E clk key st =
     walk_hash E clk key st (\<lambda>k _.
     rbind (parsed_member_data_key_new k) (\<lambda>parsed_key. Inr (from_utf8_lossy (md_data parsed_key))))"

definition hvals :: "('db, 'c) env \<Rightarrow> (nat \<Rightarrow> u64) \<Rightarrow> bytes \<Rightarrow> ('db, 'c) redis \<Rightarrow> bytes list result" where
  "hvals E clk key st =
     walk_hash E clk key st (\<lambda>_ v. rbind (data_user_value v) (\<lambda>u. Inr (from_utf8_lossy u)))"

definition hgetall :: "('db, 'c) env \<Rightarrow> (nat \<Rightarrow> u64) \<Rightarrow> bytes \<Rightarrow> ('db, 'c) redis \<Rightarrow> (bytes \<times> bytes) list result" where
  "hgetall E clk key st =
     walk_hash E clk key st (\<lambda>k v.
     rbind (parsed_member_data_key_new k) (\<lambda>parsed_key.
     rbind (data_user_value v) (\<lambda>u.
     Inr (from_utf8_lossy (md_data parsed_key), from_utf8_lossy u))))"

section \<open>HSCAN\<close>

text \<open>The store of the points to resume at: a bounded cache from an index key to the field.\<close>

record 'q scan_store =
  sc_get :: "'q \<Rightarrow> bytes \<Rightarrow> bytes option"
  sc_insert :: "'q \<Rightarrow> bytes \<Rightarrow> bytes \<Rightarrow> 'q"

definition scan_index_key :: "data_type \<Rightarrow> bytes \<Rightarrow> bytes \<Rightarrow> u64 \<Rightarrow> bytes" where
  "scan_index_key dtype key pattern cursor =
     data_type_u8 dtype # u64_le (word_of_nat (length key)) @ key
       @ u64_le (word_of_nat (length pattern)) @ pattern @ u64_le cursor"

definition get_scan_start_point ::
  "'q scan_store \<Rightarrow> data_type \<Rightarrow> bytes \<Rightarrow> bytes \<Rightarrow> u64 \<Rightarrow> 'q \<Rightarrow> bytes option" where
  "get_scan_start_point S dtype key pattern cursor q = sc_get S q (scan_index_key dtype key pattern cursor)"

definition store_scan_next_point ::
  "'q scan_store \<Rightarrow> data_type \<Rightarrow> bytes \<Rightarrow> bytes \<Rightarrow> u64 \<Rightarrow> bytes \<Rightarrow> 'q \<Rightarrow> 'q" where
  "store_scan_next_point S dtype key pattern cursor next_point q =
     sc_insert S q (scan_index_key dtype key pattern cursor) next_point"

definition tail_wildcard_prefix :: "bytes \<Rightarrow> bytes option" where
  "tail_wildcard_prefix pattern =
     (if length pattern < 2 \<or> last pattern \<noteq> 42 then None
      else if list_ex (\<lambda>b. b \<in> {42, 63, 91, 93, 92}) (butlast pattern) then None
      else Some (butlast pattern))"

text \<open>The loop: the fields that match and the items that are left.\<close>

fun hscan_loop ::
  "bytes \<Rightarrow> bytes option \<Rightarrow> i64 \<Rightarrow> (bytes \<times> bytes) result list
     \<Rightarrow> ((bytes \<times> bytes) list \<times> (bytes \<times> bytes) result list) result" where
  "hscan_loop p pattern rest [] = Inr ([], [])"
| "hscan_loop p pattern rest (item # items) =
     (if \<not> 0 < rest then Inr ([], item # items) else
      rbind item (\<lambda>(k, v).
      if \<not> starts_with k p then Inr ([], items) else
      rbind (parsed_member_data_key_new k) (\<lambda>parsed.
      rbind (if (case pattern of Some pat \<Rightarrow> pattern_matches pat (md_data parsed) | None \<Rightarrow> True)
             then rbind (parsed_base_data_value_new v) (\<lambda>value.
                  rbind (pv_user_value value) (\<lambda>u. Inr [(md_data parsed, u)]))
             else Inr []) (\<lambda>found.
      rbind (hscan_loop p pattern (rest - 1) items) (\<lambda>(field_values, left).
      Inr (found @ field_values, left))))))"

definition hscan ::
  "('db, 'c) env \<Rightarrow> 'q scan_store \<Rightarrow> (nat \<Rightarrow> u64) \<Rightarrow> bytes \<Rightarrow> u64 \<Rightarrow> bytes option \<Rightarrow> nat option
     \<Rightarrow> ('db, 'c) redis \<Rightarrow> 'q \<Rightarrow> (u64 \<times> (bytes \<times> bytes) list) result \<times> 'q" where
  "hscan E S clk key cursor pattern count st q =
     (let step_length = (case count of Some n \<Rightarrow> n | None \<Rightarrow> 10); rest = wrap_i64 (int step_length) in
      obind (olift (hash_cfs E st)) (\<lambda>(db, meta_cf, data_cf).
      obind (olift (coll_meta_key key)) (\<lambda>base_meta_key.
      obind (olift (get_coll_meta E (clk 0) db meta_cf THash base_meta_key)) (\<lambda>m.
      case m of
        None \<Rightarrow> oreturn (0, [])
      | Some meta_val \<Rightarrow> (\<lambda>q.
        let version = pv_version meta_val;
            pat = (case pattern of Some pat \<Rightarrow> pat | None \<Rightarrow> []);
            sub_field = (case pattern of Some pat \<Rightarrow> tail_wildcard_prefix pat | None \<Rightarrow> None);
            start_point =
              (if 0 < cursor
               then (case get_scan_start_point S THash key pat cursor q of Some sp \<Rightarrow> sp | None \<Rightarrow> [])
               else (case sub_field of Some sub \<Rightarrow> sub | None \<Rightarrow> [])) in
        obind (olift (member_seek_key key version (case sub_field of Some sub \<Rightarrow> sub | None \<Rightarrow> []))) (\<lambda>p.
        obind (olift (if start_point \<noteq> [] then member_seek_key key version start_point else Inr p)) (\<lambda>start_key.
        obind (olift (hscan_loop p pattern rest
                 (iterator_cf E db data_cf (IterFrom start_key Forward)))) (\<lambda>(field_values, left).
        case left of
          [] \<Rightarrow> oreturn (0, field_values)
        | item # _ \<Rightarrow>
          obind (olift item) (\<lambda>(k, _).
          if starts_with k p then
            let new_cursor = cursor + word_of_nat step_length in
            obind (olift (parsed_member_data_key_new k)) (\<lambda>parsed_key q.
            (Inr (new_cursor, field_values),
             store_scan_next_point S THash key pat new_cursor (md_data parsed_key) q))
          else oreturn (0, field_values))))) q)))) q)"

end
