(* ===== verification/Collection_States.thy ===== *)
theory Collection_States
  imports Member_Collections Redis_Strings
begin

text \<open>
  The laws that the commands on hashes and sets share: the meta value of a collection that is seen or not,
  the state after a batch of puts or deletes, and what a command leaves. New versions come from the clock,
  so the hypothesis \<open>later\<close> says that the readings of a command come after the versions in use.
\<close>

definition later :: "u64 \<Rightarrow> (nat \<Rightarrow> u64) \<Rightarrow> u64 \<Rightarrow> bool" where
  "later t clk t' \<longleftrightarrow> 0 < t \<and> (\<forall>i. t \<le> clk i \<and> clk i < t')"

lemma laterD:
  assumes "later t clk t'"
  shows "t \<le> t'" and "0 < t" and "t \<le> clk i" and "clk i < t'" and "next_version (clk i) 0 = clk i"
proof -
  have "0 < t" "t \<le> clk i" "clk i < t'" using assms by (simp_all add: later_def)
  then show "t \<le> t'" "0 < t" "t \<le> clk i" "clk i < t'"
    by (meson order_less_imp_le order_le_less_trans)+
  show "next_version (clk i) 0 = clk i"
    by (rule next_version_later) fact+
qed

lemma get_db_and_cfs_all:
  assumes "instance_ok E view st"
  shows "get_db_and_cfs E st cfs = Inr (the (rd_db st), map cf_name cfs)"
proof -
  have "get_cfs E st cfs = Inr (map cf_name cfs)"
    by (induction cfs) (simp_all add: redis_get_cf_handle_ok [OF assms])
  moreover have "rd_db st \<noteq> None" using assms by (simp add: instance_ok_def)
  ultimately show ?thesis by (auto simp: get_db_and_cfs_def)
qed

lemma write_ends:
  assumes "instance_ok E view st" and "list_all (own_op key) ops" and "P (after_ops ops (contents_of view st))"
  shows "ends E view key st (obind (write_ops E ops) (\<lambda>_. oreturn r) st) r P"
    and "ends E view key st (write_ops E ops st) () P"
  using write_ops_ok [OF assms(1,2)] assms(3) by (auto simp: ends_def obind_def oreturn_apply)

lemma ends_then_return: "ends E view key st (f st) () P \<Longrightarrow> ends E view key st (obind f (\<lambda>_. oreturn r) st) r P"
  by (auto simp: ends_def obind_def oreturn_apply)

lemma card_map_of_distinct: "distinct (map fst fvs) \<Longrightarrow> card (dom (map_of fvs)) = length fvs"
  by (metis card_image distinct_card dom_map_of_conv_image_fst length_map list.set_map)

lemma map_of_rev_distinct:
  assumes "distinct (map fst fvs)"
  shows "map_of (rev fvs) = map_of fvs"
proof
  fix k
  have rev: "distinct (map fst (rev fvs))" using assms by (simp add: rev_map [symmetric])
  show "map_of (rev fvs) k = map_of fvs k"
  proof (cases "map_of fvs k")
    case None
    then show ?thesis
      using map_of_eq_None_iff [of "rev fvs" k] map_of_eq_None_iff [of fvs k] by simp
  next
    case (Some y)
    then have "(k, y) \<in> set (rev fvs)" by (simp add: map_of_SomeD)
    then show ?thesis using map_of_is_SomeI [OF rev] Some by simp
  qed
qed

lemma card_dom_upd: "finite (dom F) \<Longrightarrow> F m = None \<Longrightarrow> card (dom (F(m \<mapsto> x))) = card (dom F) + 1"
  by (simp add: domIff)

lemma card_dom_same: "F m = Some y \<Longrightarrow> dom (F(m \<mapsto> x)) = dom F"
  by (auto simp: domIff)

lemma length_filter_None:
  assumes "distinct ms"
  shows "length (filter (\<lambda>m. F m \<noteq> None) ms) + card (set ms - dom F) = length ms"
proof -
  have "set (filter (\<lambda>m. F m \<noteq> None) ms) = set ms - (set ms - dom F)" by auto
  moreover have "card (set ms - (set ms - dom F)) = card (set ms) - card (set ms - dom F)"
    by (rule card_Diff_subset) auto
  moreover have "card (set ms - dom F) \<le> card (set ms)" by (rule card_mono) auto
  ultimately show ?thesis
    using distinct_card [OF assms] distinct_card [of "filter (\<lambda>m. F m \<noteq> None) ms"] assms by simp
qed

lemma word_of_nat_Suc_u64: "n + 1 < 2 ^ 64 \<Longrightarrow> saturating_add_u64 (word_of_nat n) 1 = word_of_nat (n + 1)
    \<and> checked_add_u64 (word_of_nat n) 1 \<noteq> None"
  by (simp add: saturating_add_u64_def checked_add_u64_def unat_of_nat_u64)

lemma usize_as_i32_small: "n < 2 ^ 31 \<Longrightarrow> usize_as_i32 n = int n"
  by (simp add: usize_as_i32_def signed_of_nat signed_take_bit_int_eq_self)

lemma i64_as_u64_int: "i64_as_u64 (int n) = word_of_nat n"
  by (simp add: i64_as_u64_def)

lemma cells_version: "cells cf V key v F \<Longrightarrow> F \<noteq> Map.empty \<Longrightarrow> family_ok cf V t \<Longrightarrow> v < t"
proof -
  assume C: "cells cf V key v F" and F: "F \<noteq> Map.empty" and fam: "family_ok cf V t"
  obtain m x where "F m = Some x" using F by (auto simp: fun_eq_iff)
  then have "V (cf_name cf) (member_bytes key v m) \<noteq> None" 
    using C unfolding cells_def by (metis cell_simps(3) option.distinct(1))
  then show "v < t" using fam by (auto simp: family_ok_def)
qed

lemma base_meta_is_valid_mk: "base_meta_is_valid now (mk_base_meta dt c v res ct et) \<longleftrightarrow> \<not> expired now et \<and> c \<noteq> 0"
  by (simp add: base_meta_is_valid_def pv_is_stale_def expired_def)

lemma seen_twice_Some:
  assumes "seen_coll now' (seen_coll now s) = Some (F, et)"
  shows "s = Some (F, et) \<and> F \<noteq> Map.empty \<and> \<not> expired now et \<and> \<not> expired now' et"
  using assms by (cases s) (auto split: if_splits)

lemma stored_members_eq:
  assumes "instance_ok E view st" and "cells cf (contents_of view st) key v F"
  shows "stored_members E (the (rd_db st)) (cf_name cf) key v ms
    = Inr (map (member_bytes key v) (filter (\<lambda>m. F m \<noteq> None) ms))"
proof (induction ms)
  case (Cons m ms)
  have "contents_of view st (cf_name cf) (member_bytes key v m) = None \<longleftrightarrow> F m = None"
    using assms(2) unfolding cells_def by (metis cell_simps(1,3))
  then show ?case
    using Cons.IH db_get_ok(2) [OF assms(1), of "cf_name cf" "member_bytes key v m"] by simp
qed simp

lemma coll_state_deletes:
  assumes mt: "member_type dt cf" and C: "cells cf V key v F" and fam: "family_ok cf V t" "t \<le> t'"
    and res: "length res = 16" and fin: "finite (dom F)" "card (dom F) < 2 ^ 64"
    and ops: "ops = member_deletes cf key v ms @ [BPut MetaCF (base_key_bytes key)
      (base_meta_bytes dt (word_of_nat (card (dom (F |` (- set ms))))) v res ct et)]"
  shows "coll_state dt cf key (Some (F |` (- set ms), et)) t' (after_ops ops V)"
    and "list_all (own_op key) ops"
proof -
  let ?V = "after_ops (member_deletes cf key v ms) V"
  have after: "after_ops ops V = apply_op (WPut (cf_name MetaCF) (base_key_bytes key)
      (base_meta_bytes dt (word_of_nat (card (dom (F |` (- set ms))))) v res ct et)) ?V"
    by (simp add: ops after_ops_append del: apply_op.simps cf_name.simps)
  have "finite (dom (F |` (- set ms)))" using fin(1) by simp
  moreover have "card (dom (F |` (- set ms))) \<le> card (dom F)"
    using fin(1) by (simp add: card_mono)
  ultimately show "coll_state dt cf key (Some (F |` (- set ms), et)) t' (after_ops ops V)"
    unfolding after using after_deletes(2,3) [OF mt] C family_ok_mono [OF fam] fin(2) res
    by (intro coll_stateI [where v = v and res = res and ct = ct])
      (simp_all only: after_meta [OF mt])
  show "list_all (own_op key) ops"
    using own_deletes [OF mt] by (simp add: ops)
qed

lemma coll_state_puts_only:
  assumes mt: "member_type dt cf" and C: "cells cf V key v F" and fam: "family_ok cf V t" "t \<le> t'" and v: "v < t'"
    and res: "length res = 16" and fin: "finite (dom F)" "card (dom F) < 2 ^ 64"
    and mb: "meta_at V key = Some (base_meta_bytes dt (word_of_nat (card (dom F))) v res ct et)"
    and sub: "dom (map_of ms) \<subseteq> dom F"
  shows "coll_state dt cf key (Some (F ++ map_of (rev ms), et)) t' (after_ops (member_puts clk n cf key v ms) V)"
    and "list_all (own_op key) (member_puts clk n cf key v ms)"
proof -
  have dom: "dom (F ++ map_of (rev ms)) = dom F"
    using sub by (auto simp: dom_map_of_conv_image_fst)
  show "coll_state dt cf key (Some (F ++ map_of (rev ms), et)) t' (after_ops (member_puts clk n cf key v ms) V)"
    using after_puts [OF mt, where clk = clk and i = n and fvs = ms and key = key and v = v and V = V] C family_ok_mono [OF fam] fin res mb v dom
    by (intro coll_stateI [where v = v and res = res and ct = ct]) auto
  show "list_all (own_op key) (member_puts clk n cf key v ms)" by (rule own_puts [OF mt])
qed

section \<open>The meta value\<close>

lemma coll_meta_seen:
  assumes ok: "instance_ok E view st" and S: "coll_state dt cf key s t (contents_of view st)"
    and mt: "member_type dt cf" and seen: "seen_coll now s = Some (F, et)"
  obtains v res ct where "s = Some (F, et)" and "length res = 16" and "v < t"
    and "cells cf (contents_of view st) key v F" and "finite (dom F)" and "card (dom F) < 2 ^ 64"
    and "meta_at (contents_of view st) key = Some (base_meta_bytes dt (word_of_nat (card (dom F))) v res ct et)"
    and "get_coll_meta E now (the (rd_db st)) (cf_name MetaCF) dt (base_key_bytes key)
      = Inr (Some (mk_base_meta dt (word_of_nat (card (dom F))) v res ct et))"
proof -
  have s: "s = Some (F, et)" "F \<noteq> Map.empty" "\<not> expired now et"
    using seen by (cases s, auto split: if_splits)+
  then obtain v res ct where m: "length res = 16" "cells cf (contents_of view st) key v F"
      "finite (dom F)" "card (dom F) < 2 ^ 64"
      "meta_at (contents_of view st) key = Some (base_meta_bytes dt (word_of_nat (card (dom F))) v res ct et)"
      "family_ok cf (contents_of view st) t"
    using S by (auto simp: coll_state_def holds_coll_def)
  have "dt \<in> {THash, TSet, TZSet, TVectorSet}" using mt by (auto simp: member_type_def)
  then have "get_coll_meta E now (the (rd_db st)) (cf_name MetaCF) dt (base_key_bytes key)
      = Inr (Some (mk_base_meta dt (word_of_nat (card (dom F))) v res ct et))"
    using m check_type_state_base_meta [OF m(1), of dt] s
      db_get_ok(2) [OF ok, of "cf_name MetaCF" "base_key_bytes key"]
    by (simp add: get_coll_meta_def del: cf_name.simps)
  then show ?thesis using m s cells_version [OF m(2) s(2) m(6)] that by blast
qed

lemma coll_meta_unseen:
  assumes "instance_ok E view st" and "coll_state dt cf key s t (contents_of view st)" and "seen_coll now s = None"
    and "member_type dt cf"
  shows "get_coll_meta E now (the (rd_db st)) (cf_name MetaCF) dt (base_key_bytes key) = Inr None"
  using get_coll_meta_holds [OF assms(1) _ assms(4), of key s now] assms(2,3) by (auto simp: coll_state_def)

section \<open>Replies and states\<close>

text \<open>A command returned \<open>r\<close>, touched only its key and left \<open>s\<close>.\<close>

definition coll_out ::
  "data_type \<Rightarrow> column_family \<Rightarrow> ('db, 'c) env \<Rightarrow> ('db \<Rightarrow> contents) \<Rightarrow> bytes \<Rightarrow> ('db, 'c) redis \<Rightarrow> u64 \<Rightarrow> 'r result \<times> ('db, 'c) redis
     \<Rightarrow> 'r result \<times> ((bytes \<rightharpoonup> bytes) \<times> u64) option \<Rightarrow> bool" where
  "coll_out dt cf E view key st t out expected \<longleftrightarrow>
     (\<exists>st'. out = (fst expected, st') \<and> instance_ok E view st'
        \<and> frame key (contents_of view st) (contents_of view st')
        \<and> coll_state dt cf key (snd expected) t (contents_of view st'))"

lemma coll_out_ends: "ends E view key st out r (coll_state dt cf key s t) \<Longrightarrow> coll_out dt cf E view key st t out (Inr r, s)"
  by (auto simp: coll_out_def ends_def)

lemma coll_out_stays:
  "instance_ok E view st \<Longrightarrow> coll_state dt cf key s t (contents_of view st) \<Longrightarrow> t \<le> t' \<Longrightarrow>
    coll_out dt cf E view key st t' (r, st) (r, s)"
  using family_ok_mono by (auto simp: coll_out_def coll_state_def)

text \<open>A write sees the collection at the readings 0 and 1.\<close>

definition written :: "(nat \<Rightarrow> u64) \<Rightarrow> ((bytes \<rightharpoonup> bytes) \<times> u64) option \<Rightarrow> ((bytes \<rightharpoonup> bytes) \<times> u64) option" where
  "written clk s = seen_coll (clk 1) (seen_coll (clk 0) s)"

definition with_fields :: "((bytes \<rightharpoonup> bytes) \<times> u64) option \<Rightarrow> (bytes \<rightharpoonup> bytes) \<Rightarrow> ((bytes \<rightharpoonup> bytes) \<times> u64) option" where
  "with_fields s M = (case s of None \<Rightarrow> Some (M, 0) | Some (F, et) \<Rightarrow> Some (F ++ M, et))"

definition has_room :: "nat \<Rightarrow> ((bytes \<rightharpoonup> bytes) \<times> u64) option \<Rightarrow> bool" where
  "has_room n s \<longleftrightarrow> card (dom (members_of s)) + n < 2 ^ 31"

end
