(* ===== verification/Hashes_Refinement.thy ===== *)
theory Hashes_Refinement
  imports Redis_Hashes Collection_States
begin

text \<open>
  The hash commands against maps from fields to values with an expiry. A command that writes takes two
  readings of the clock for its checks; a hash that expires between them is replaced as if it had been
  missing. New versions come from the clock, so the hypothesis \<open>later\<close> says that the readings of a
  command come after the versions in use.
\<close>

section \<open>Shared blocks\<close>

abbreviation hash_state :: "bytes \<Rightarrow> ((bytes \<rightharpoonup> bytes) \<times> u64) option \<Rightarrow> u64 \<Rightarrow> contents \<Rightarrow> bool" where
  "hash_state \<equiv> coll_state THash HashesDataCF"

abbreviation hash_out ::
  "('db, 'c) env \<Rightarrow> ('db \<Rightarrow> contents) \<Rightarrow> bytes \<Rightarrow> ('db, 'c) redis \<Rightarrow> u64 \<Rightarrow> 'r result \<times> ('db, 'c) redis
     \<Rightarrow> 'r result \<times> ((bytes \<rightharpoonup> bytes) \<times> u64) option \<Rightarrow> bool" where
  "hash_out \<equiv> coll_out THash HashesDataCF"

lemma member_type_hash [simp]: "member_type THash HashesDataCF"
  by (simp add: member_type_def)

lemma hash_cfs_ok: "instance_ok E view st \<Longrightarrow> hash_cfs E st = Inr (the (rd_db st), cf_name MetaCF, cf_name HashesDataCF)"
  by (simp add: hash_cfs_def get_db_and_cfs_all del: cf_name.simps)

text \<open>A new hash, and one in place of an invalid one.\<close>

lemma new_hash_meta_bytes:
  "base_meta_value_encode (new_hash_meta now now' n)
    = base_meta_bytes THash n (next_version now' 0) (replicate 16 0) now 0"
  "iv_version (new_hash_meta now now' n) = next_version now' 0"
  by (simp_all add: new_hash_meta_def base_meta_update_version_def base_meta_value_encode_def
      base_meta_value_new_def internal_value_new_def base_meta_bytes_def)

lemma create_new_hash_ends:
  assumes ok: "instance_ok E view st" and fam: "family_ok HashesDataCF (contents_of view st) t"
    and clk: "later t clk t'" and fvs: "distinct (map fst fvs)" "length fvs < 2 ^ 64"
  shows "ends E view key st (create_new_hash E clk key (base_key_bytes key) fvs st) ()
    (hash_state key (Some (map_of fvs, 0)) t')"
proof -
  note l = laterD [OF clk]
  have card: "card (dom (Map.empty ++ map_of (rev fvs))) = length fvs"
    using fvs(1) by (simp add: map_of_rev_distinct card_map_of_distinct)
  let ?ops = "BPut MetaCF (base_key_bytes key)
      (base_meta_bytes THash (word_of_nat (length fvs)) (clk 2) (replicate 16 0) (clk 1) 0)
      # member_puts clk 3 HashesDataCF key (clk 2) fvs"
  have "coll_state THash HashesDataCF key (Some (Map.empty ++ map_of (rev fvs), 0)) t' (after_ops ?ops (contents_of view st))"
    and "list_all (own_op key) ?ops"
    using coll_state_puts [OF member_type_hash family_ok_fresh [OF fam l(3) [of 2]] fam l(1) l(4) [of 2],
        of "replicate 16 0" fvs ?ops key _ clk 3 "clk 1" 0] fvs card by simp_all
  then show ?thesis
    using write_ends(2) [OF ok] fvs(1) l(5) [of 2]
    by (simp add: create_new_hash_def new_hash_meta_bytes map_of_rev_distinct Let_def)
qed

lemma reset_hash_ends:
  assumes ok: "instance_ok E view st" and fam: "family_ok HashesDataCF (contents_of view st) t"
    and clk: "later t clk t'" and fvs: "distinct (map fst fvs)" "length fvs < 2 ^ 64"
    and res: "length res = 16" and v: "v < t"
  shows "ends E view key st (reset_hash E clk key (base_key_bytes key) (mk_base_meta THash c v res ct et) fvs st) ()
    (hash_state key (Some (map_of fvs, 0)) t')"
proof -
  note l = laterD [OF clk]
  have card: "card (dom (Map.empty ++ map_of (rev fvs))) = length fvs"
    using fvs(1) by (simp add: map_of_rev_distinct card_map_of_distinct)
  let ?ops = "BPut MetaCF (base_key_bytes key)
      (base_meta_bytes THash (word_of_nat (length fvs)) (clk 2) res 0 0)
      # member_puts clk 3 HashesDataCF key (clk 2) fvs"
  have "coll_state THash HashesDataCF key (Some (Map.empty ++ map_of (rev fvs), 0)) t' (after_ops ?ops (contents_of view st))"
    and "list_all (own_op key) ?ops"
    using coll_state_puts [OF member_type_hash family_ok_fresh [OF fam l(3) [of 2]] fam l(1) l(4) [of 2],
        of res fvs ?ops key _ clk 3 0 0] fvs card res by simp_all
  then show ?thesis
    using write_ends(2) [OF ok] fvs(1) next_version_later [OF v l(3), of 2] res
    by (simp add: reset_hash_def map_of_rev_distinct)
qed

section \<open>Writing a field\<close>

lemma put_field_missing:
  assumes ok: "instance_ok E view st" and S: "hash_state key s t (contents_of view st)" and clk: "later t clk t'"
    and seen: "seen_coll (clk 1) (seen_coll (clk 0) s) = None"
  shows "ends E view key st (put_field E clk key field value added existing st) added
    (hash_state key (Some ([field \<mapsto> value], 0)) t')"
proof -
  have H: "holds_coll THash HashesDataCF (contents_of view st) key s"
    and fam: "family_ok HashesDataCF (contents_of view st) t" using S by (simp_all add: coll_state_def)
  obtain v res ct where m: "length res = 16"
      "case s of None \<Rightarrow> True | Some (F, et) \<Rightarrow> cells HashesDataCF (contents_of view st) key v F"
      "get_coll_meta E (clk 0) (the (rd_db st)) (cf_name MetaCF) THash (base_key_bytes key)
        = Inr (case seen_coll (clk 0) s of None \<Rightarrow> None
               | Some (F, et) \<Rightarrow> Some (mk_base_meta THash (word_of_nat (card (dom F))) v res ct et))"
    using get_coll_meta_holds [OF ok H member_type_hash, of "clk 0"] by blast
  have one: "map_of [(field, value)] = [field \<mapsto> value]" by simp
  show ?thesis
  proof (cases "seen_coll (clk 0) s")
    case None
    then show ?thesis
      using m(3) ends_then_return [where f = "create_new_hash E clk key (base_key_bytes key) [(field, value)]" and r = added,
          OF create_new_hash_ends [OF ok fam clk]]
      by (simp add: put_field_def hash_cfs_ok [OF ok] one del: cf_name.simps)
  next
    case (Some x)
    obtain F et where s: "s = Some (F, et)" "F \<noteq> Map.empty" "\<not> expired (clk 0) et"
      using Some by (cases s) (auto split: if_splits)
    have "v < t" using cells_version [OF _ s(2) fam] m(2) s(1) by simp
    moreover have "expired (clk 1) et" using seen s by (simp split: if_splits)
    ultimately show ?thesis
      using m(1,3) s ends_then_return [where f = "reset_hash E clk key (base_key_bytes key)
            (mk_base_meta THash (word_of_nat (card (dom F))) v res ct et) [(field, value)]" and r = added,
          OF reset_hash_ends [OF ok fam clk]]
      by (simp add: put_field_def hash_cfs_ok [OF ok] one base_meta_is_valid_mk del: cf_name.simps)
  qed
qed

text \<open>A hash that is seen, up to the read of the field.\<close>

lemma put_field_seen:
  assumes ok: "instance_ok E view st" and S: "hash_state key s t (contents_of view st)" and clk: "later t clk t'"
    and seen: "seen_coll (clk 1) (seen_coll (clk 0) s) = Some (F, et)"
  shows "\<exists>v res ct. length res = 16 \<and> v < t \<and> cells HashesDataCF (contents_of view st) key v F
    \<and> finite (dom F) \<and> card (dom F) < 2 ^ 64
    \<and> meta_at (contents_of view st) key = Some (base_meta_bytes THash (word_of_nat (card (dom F))) v res ct et)
    \<and> put_field E clk key field value added existing st =
      (case contents_of view st (cf_name HashesDataCF) (member_bytes key v field) of
         Some b \<Rightarrow> existing (member_bytes key v field) b st
       | None \<Rightarrow>
         if \<not> base_meta_check_modify_count 1 (mk_base_meta THash (word_of_nat (card (dom F))) v res ct et)
         then (Inl (RedisErr ''hash size overflow''), st)
         else obind (write_ops E
             [BPut MetaCF (base_key_bytes key)
                (base_meta_bytes THash (saturating_add_u64 (word_of_nat (card (dom F))) 1) v res ct et),
              BPut HashesDataCF (member_bytes key v field) (element_bytes (clk 3) value)]) (\<lambda>_. oreturn added) st)"
proof -
  have H: "holds_coll THash HashesDataCF (contents_of view st) key s"
    and fam: "family_ok HashesDataCF (contents_of view st) t" using S by (simp_all add: coll_state_def)
  note s = seen_twice_Some [OF seen]
  obtain v res ct where m: "length res = 16" "cells HashesDataCF (contents_of view st) key v F"
      "finite (dom F)" "card (dom F) < 2 ^ 64"
      "meta_at (contents_of view st) key = Some (base_meta_bytes THash (word_of_nat (card (dom F))) v res ct et)"
    using H s by (auto simp: holds_coll_def)
  have "check_type_state (clk 0) (base_meta_bytes THash (word_of_nat (card (dom F))) v res ct et) THash = Inr Match"
    using check_type_state_base_meta [OF m(1), of THash] s m(3,4) by simp
  then have meta: "get_coll_meta E (clk 0) (the (rd_db st)) (cf_name MetaCF) THash (base_key_bytes key)
      = Inr (Some (mk_base_meta THash (word_of_nat (card (dom F))) v res ct et))"
    using m(1,5) db_get_ok(2) [OF ok, of "cf_name MetaCF" "base_key_bytes key"]
    by (simp add: get_coll_meta_def del: cf_name.simps)
  have valid: "base_meta_is_valid (clk 1) (mk_base_meta THash (word_of_nat (card (dom F))) v res ct et)"
    using s m(3,4) by (simp add: base_meta_is_valid_mk)
  have "v < t" using cells_version [OF m(2) _ fam] s by simp
  moreover have "put_field E clk key field value added existing st =
      (case contents_of view st (cf_name HashesDataCF) (member_bytes key v field) of
         Some b \<Rightarrow> existing (member_bytes key v field) b st
       | None \<Rightarrow>
         if \<not> base_meta_check_modify_count 1 (mk_base_meta THash (word_of_nat (card (dom F))) v res ct et)
         then (Inl (RedisErr ''hash size overflow''), st)
         else obind (write_ops E
             [BPut MetaCF (base_key_bytes key)
                (base_meta_bytes THash (saturating_add_u64 (word_of_nat (card (dom F))) 1) v res ct et),
              BPut HashesDataCF (member_bytes key v field) (element_bytes (clk 3) value)]) (\<lambda>_. oreturn added) st)"
    using m(1) valid db_get_ok(2) [OF ok]
    by (cases "contents_of view st (cf_name HashesDataCF) (member_bytes key v field)")
      (simp_all add: put_field_def hash_cfs_ok [OF ok] meta olift_apply del: cf_name.simps)
  ultimately show ?thesis using m by blast
qed

lemma put_field_new:
  assumes ok: "instance_ok E view st" and S: "hash_state key s t (contents_of view st)" and clk: "later t clk t'"
    and seen: "seen_coll (clk 1) (seen_coll (clk 0) s) = Some (F, et)"
    and new: "F field = None" and room: "card (dom F) + 1 < 2 ^ 64"
  shows "ends E view key st (put_field E clk key field value added existing st) added
    (hash_state key (Some (F(field \<mapsto> value), et)) t')"
proof -
  have fam: "family_ok HashesDataCF (contents_of view st) t" using S by (simp add: coll_state_def)
  obtain v res ct where p: "length res = 16" "v < t" "cells HashesDataCF (contents_of view st) key v F"
    "finite (dom F)"
    "put_field E clk key field value added existing st =
      (case contents_of view st (cf_name HashesDataCF) (member_bytes key v field) of
         Some b \<Rightarrow> existing (member_bytes key v field) b st
       | None \<Rightarrow>
         if \<not> base_meta_check_modify_count 1 (mk_base_meta THash (word_of_nat (card (dom F))) v res ct et)
         then (Inl (RedisErr ''hash size overflow''), st)
         else obind (write_ops E
             [BPut MetaCF (base_key_bytes key)
                (base_meta_bytes THash (saturating_add_u64 (word_of_nat (card (dom F))) 1) v res ct et),
              BPut HashesDataCF (member_bytes key v field) (element_bytes (clk 3) value)]) (\<lambda>_. oreturn added) st)"
    using put_field_seen [OF ok S clk seen, of field "value" added existing] by blast
  have none: "contents_of view st (cf_name HashesDataCF) (member_bytes key v field) = None"
    using p(3) new by (metis cell_simps(1) cells_def)
  let ?ops = "BPut MetaCF (base_key_bytes key)
       (base_meta_bytes THash (word_of_nat (card (dom (F(field \<mapsto> value))))) v res ct et)
     # member_puts clk 3 HashesDataCF key v [(field, value)]"
  have "F ++ map_of (rev [(field, value)]) = F(field \<mapsto> value)" by simp
  then have "hash_state key (Some (F(field \<mapsto> value), et)) t' (after_ops ?ops (contents_of view st))"
    and own: "list_all (own_op key) ?ops"
    using coll_state_puts [where fvs = "[(field, value)]" and ops = ?ops and clk = clk and i = 3 and ct = ct and et = et,
        OF member_type_hash p(3) fam laterD(1) [OF clk] _ p(1,4) _ _ refl]
      card_dom_upd [OF p(4) new, of "value"] room order_less_le_trans [OF p(2) laterD(1) [OF clk]] by simp_all
  then have "ends E view key st (obind (write_ops E ?ops) (\<lambda>_. oreturn added) st) added
      (hash_state key (Some (F(field \<mapsto> value), et)) t')"
    by (intro write_ends(1) [OF ok])
  then show ?thesis
    using word_of_nat_Suc_u64 [OF room] card_dom_upd [OF p(4) new, of "value"]
    unfolding p(5) none by (simp add: base_meta_check_modify_count_def)
qed

lemma put_field_existing:
  assumes ok: "instance_ok E view st" and S: "hash_state key s t (contents_of view st)" and clk: "later t clk t'"
    and seen: "seen_coll (clk 1) (seen_coll (clk 0) s) = Some (F, et)" and old: "F field = Some x"
  shows "\<exists>k ct. put_field E clk key field value added existing st = existing k (element_bytes ct x) st
    \<and> (\<forall>now y (r :: 'r). ends E view key st
          (obind (write_ops E [BPut HashesDataCF k (element_bytes now y)]) (\<lambda>_. oreturn r) st) r
          (hash_state key (Some (F(field \<mapsto> y), et)) t'))"
proof -
  have fam: "family_ok HashesDataCF (contents_of view st) t" using S by (simp add: coll_state_def)
  obtain v res ct where p: "length res = 16" "v < t" "cells HashesDataCF (contents_of view st) key v F"
    "finite (dom F)" "card (dom F) < 2 ^ 64"
    "meta_at (contents_of view st) key = Some (base_meta_bytes THash (word_of_nat (card (dom F))) v res ct et)"
    "put_field E clk key field value added existing st =
      (case contents_of view st (cf_name HashesDataCF) (member_bytes key v field) of
         Some b \<Rightarrow> existing (member_bytes key v field) b st
       | None \<Rightarrow>
         if \<not> base_meta_check_modify_count 1 (mk_base_meta THash (word_of_nat (card (dom F))) v res ct et)
         then (Inl (RedisErr ''hash size overflow''), st)
         else obind (write_ops E
             [BPut MetaCF (base_key_bytes key)
                (base_meta_bytes THash (saturating_add_u64 (word_of_nat (card (dom F))) 1) v res ct et),
              BPut HashesDataCF (member_bytes key v field) (element_bytes (clk 3) value)]) (\<lambda>_. oreturn added) st)"
    using put_field_seen [OF ok S clk seen, of field "value" added existing] by blast
  obtain ct' where "contents_of view st (cf_name HashesDataCF) (member_bytes key v field) = Some (element_bytes ct' x)"
    using p(3) old by (metis cell_simps(2) cells_def)
  then have "put_field E clk key field value added existing st = existing (member_bytes key v field) (element_bytes ct' x) st"
    unfolding p(7) by simp
  moreover have "ends E view key st
      (obind (write_ops E [BPut HashesDataCF (member_bytes key v field) (element_bytes now y)]) (\<lambda>_. oreturn r) st) r
      (hash_state key (Some (F(field \<mapsto> y), et)) t')" for now y and r :: 'r
  proof (rule write_ends(1) [OF ok])
    let ?ops = "member_puts (\<lambda>_. now) 0 HashesDataCF key v [(field, y)]"
    have ops: "[BPut HashesDataCF (member_bytes key v field) (element_bytes now y)] = ?ops" by simp
    show "list_all (own_op key) [BPut HashesDataCF (member_bytes key v field) (element_bytes now y)]"
      unfolding ops by (rule own_puts [OF member_type_hash])
    have upd: "F ++ map_of (rev [(field, y)]) = F(field \<mapsto> y)" by simp
    have "v < t'" by (rule order_less_le_trans [OF p(2) laterD(1) [OF clk]])
    then have "cells HashesDataCF (after_ops ?ops (contents_of view st)) key v (F(field \<mapsto> y))"
      "family_ok HashesDataCF (after_ops ?ops (contents_of view st)) t'"
      "meta_at (after_ops ?ops (contents_of view st)) key = meta_at (contents_of view st) key"
      using after_puts(2) [OF member_type_hash p(3), of "\<lambda>_. now" 0 "[(field, y)]", unfolded upd]
        after_puts(3) [OF member_type_hash family_ok_mono [OF fam laterD(1) [OF clk]], of v "\<lambda>_. now" 0 key "[(field, y)]"]
        after_puts(1) [OF member_type_hash] by blast+
    then show "hash_state key (Some (F(field \<mapsto> y), et)) t'
        (after_ops [BPut HashesDataCF (member_bytes key v field) (element_bytes now y)] (contents_of view st))"
      unfolding ops using p card_dom_same [of F field x y] old
      by (intro coll_stateI [where v = v and res = res and ct = ct]) simp_all
  qed
  ultimately show ?thesis by blast
qed

definition spec_put :: "(nat \<Rightarrow> u64) \<Rightarrow> bytes \<Rightarrow> bytes \<Rightarrow> ((bytes \<rightharpoonup> bytes) \<times> u64) option \<Rightarrow> ((bytes \<rightharpoonup> bytes) \<times> u64) option" where
  "spec_put clk field value s = with_fields (written clk s) [field \<mapsto> value]"

definition spec_hset ::
  "(nat \<Rightarrow> u64) \<Rightarrow> bytes \<Rightarrow> bytes \<Rightarrow> ((bytes \<rightharpoonup> bytes) \<times> u64) option
     \<Rightarrow> (int \<times> bool) result \<times> ((bytes \<rightharpoonup> bytes) \<times> u64) option" where
  "spec_hset clk field value s =
     (case members_of (written clk s) field of
        None \<Rightarrow> (Inr (1, True), spec_put clk field value s)
      | Some x \<Rightarrow> if x = value then (Inr (0, False), s) else (Inr (0, True), spec_put clk field value s))"

definition spec_hsetnx ::
  "(nat \<Rightarrow> u64) \<Rightarrow> bytes \<Rightarrow> bytes \<Rightarrow> ((bytes \<rightharpoonup> bytes) \<times> u64) option
     \<Rightarrow> int result \<times> ((bytes \<rightharpoonup> bytes) \<times> u64) option" where
  "spec_hsetnx clk field value s =
     (if members_of (written clk s) field = None then (Inr 1, spec_put clk field value s) else (Inr 0, s))"

definition spec_hincrby ::
  "(nat \<Rightarrow> u64) \<Rightarrow> bytes \<Rightarrow> i64 \<Rightarrow> ((bytes \<rightharpoonup> bytes) \<times> u64) option
     \<Rightarrow> i64 result \<times> ((bytes \<rightharpoonup> bytes) \<times> u64) option" where
  "spec_hincrby clk field i s =
     (case members_of (written clk s) field of
        None \<Rightarrow> (Inr i, spec_put clk field (int_to_text i) s)
      | Some x \<Rightarrow>
        (case parse_i64 (from_utf8_lossy x) of
           None \<Rightarrow> (Inl (RedisErr ''hash value is not an integer''), s)
         | Some n \<Rightarrow>
           if in_i64 (n + i) then (Inr (n + i), spec_put clk field (int_to_text (n + i)) s)
           else (Inl (OptionNone ''integer overflow''), s)))"

lemma put_field_out:
  assumes ok: "instance_ok E view st" and S: "hash_state key s t (contents_of view st)" and clk: "later t clk t'"
    and room: "has_room 1 s"
  shows "case members_of (written clk s) field of
      None \<Rightarrow> hash_out E view key st t' (put_field E clk key field val (added :: 'r) existing st)
        (Inr added, spec_put clk field val s)
    | Some x \<Rightarrow> \<exists>k ct. put_field E clk key field val added existing st = existing k (element_bytes ct x) st
        \<and> (\<forall>now y (r :: 'r). hash_out E view key st t'
             (obind (write_ops E [BPut HashesDataCF k (element_bytes now y)]) (\<lambda>_. oreturn r) st)
             (Inr r, spec_put clk field y s))"
proof (cases "written clk s")
  case None
  then show ?thesis
    using coll_out_ends [OF put_field_missing [OF ok S clk]]
    by (simp add: written_def spec_put_def with_fields_def)
next
  case (Some w)
  obtain F et where w: "written clk s = Some (F, et)" using Some by (cases w) simp
  have s: "s = Some (F, et)" using seen_twice_Some w unfolding written_def by blast
  have put: "spec_put clk field y s = Some (F(field \<mapsto> y), et)" for y
    by (simp add: spec_put_def w with_fields_def)
  show ?thesis
  proof (cases "F field")
    case None
    have "card (dom F) + 1 < 2 ^ 64" using room s by (simp add: has_room_def)
    then show ?thesis
      using coll_out_ends [OF put_field_new [OF ok S clk w [unfolded written_def] None]] None
      by (simp add: w put)
  next
    case (Some x)
    obtain k ct where run: "put_field E clk key field val added existing st = existing k (element_bytes ct x) st"
        "\<forall>now y (r :: 'r). ends E view key st
          (obind (write_ops E [BPut HashesDataCF k (element_bytes now y)]) (\<lambda>_. oreturn r) st) r
          (hash_state key (Some (F(field \<mapsto> y), et)) t')"
      using put_field_existing [OF ok S clk w [unfolded written_def] Some, of val added existing] by blast
    have "hash_out E view key st t'
        (obind (write_ops E [BPut HashesDataCF k (element_bytes now y)]) (\<lambda>_. oreturn r) st)
        (Inr r, spec_put clk field y s)" for now y and r :: 'r
      unfolding put using run(2) by (intro coll_out_ends) blast
    then show ?thesis
      unfolding w members_of_simps Some option.case using run(1) by blast
  qed
qed

lemma hset_out:
  assumes ok: "instance_ok E view st" and S: "hash_state key s t (contents_of view st)" and clk: "later t clk t'"
    and room: "has_room 1 s"
  shows "hash_out E view key st t' (hset_with_outcome E clk key field value st) (spec_hset clk field value s)"
proof -
  let ?ex = "\<lambda>encoded_data_key existing_data_bytes.
       obind (olift (data_user_value existing_data_bytes)) (\<lambda>user_value.
       if user_value = value then oreturn (0, False)
       else obind (write_ops E [BPut HashesDataCF encoded_data_key (element_bytes (clk 3) value)]) (\<lambda>_.
            oreturn (0 :: int, True)))"
  note p = put_field_out [OF ok S clk room, where existing = ?ex and field = field and val = "value" and added = "(1, True)"]
  show ?thesis
  proof (cases "members_of (written clk s) field")
    case None
    then show ?thesis using p by (simp add: hset_with_outcome_def spec_hset_def)
  next
    case (Some x)
    then obtain k ct where run: "hset_with_outcome E clk key field value st = ?ex k (element_bytes ct x) st"
      "\<And>now y (r :: int \<times> bool). hash_out E view key st t'
             (obind (write_ops E [BPut HashesDataCF k (element_bytes now y)]) (\<lambda>_. oreturn r) st)
             (Inr r, spec_put clk field y s)"
      using p unfolding hset_with_outcome_def by auto
    then show ?thesis
      using Some coll_out_stays [OF ok S laterD(1) [OF clk], of "Inr (0 :: int, False)"]
      by (simp add: spec_hset_def oreturn_apply)
  qed
qed

lemma hsetnx_out:
  assumes ok: "instance_ok E view st" and S: "hash_state key s t (contents_of view st)" and clk: "later t clk t'"
    and room: "has_room 1 s"
  shows "hash_out E view key st t' (hsetnx E clk key field value st) (spec_hsetnx clk field value s)"
  using put_field_out [OF ok S clk room, where existing = "\<lambda>_ _. oreturn 0" and field = field and val = "value" and added = 1]
    coll_out_stays [OF ok S laterD(1) [OF clk]]
  by (cases "members_of (written clk s) field") (auto simp: hsetnx_def spec_hsetnx_def oreturn_apply)

lemma hincrby_out:
  assumes ok: "instance_ok E view st" and S: "hash_state key s t (contents_of view st)" and clk: "later t clk t'"
    and room: "has_room 1 s"
  shows "hash_out E view key st t' (hincrby E clk key field i st) (spec_hincrby clk field i s)"
proof -
  let ?ex = "\<lambda>encoded_data_key old_val_bytes.
       obind (olift (data_user_value old_val_bytes)) (\<lambda>user_val.
       obind (olift (case parse_i64 (from_utf8_lossy user_val) of
                Some old_int \<Rightarrow> Inr old_int
              | None \<Rightarrow> Inl (RedisErr ''hash value is not an integer''))) (\<lambda>old_int.
       if old_int + i < - (2 ^ 63) \<or> 2 ^ 63 \<le> old_int + i
       then olift (Inl (OptionNone ''integer overflow''))
       else
         obind (write_ops E [BPut HashesDataCF encoded_data_key
                               (element_bytes (clk 3) (int_to_text (old_int + i)))]) (\<lambda>_.
         oreturn (old_int + i))))"
  note p = put_field_out [OF ok S clk room, where existing = ?ex and field = field and val = "int_to_text i" and added = i]
  have range: "(m < - (2 ^ 63) \<or> 2 ^ 63 \<le> m) \<longleftrightarrow> \<not> in_i64 m" for m
    by (auto simp: in_i64_def)
  note stay = coll_out_stays [OF ok S laterD(1) [OF clk]]
  show ?thesis
  proof (cases "members_of (written clk s) field")
    case None
    then show ?thesis using p by (simp add: hincrby_def spec_hincrby_def)
  next
    case (Some x)
    obtain k ct where run: "hincrby E clk key field i st = ?ex k (element_bytes ct x) st"
      "\<And>now y (r :: i64). hash_out E view key st t'
             (obind (write_ops E [BPut HashesDataCF k (element_bytes now y)]) (\<lambda>_. oreturn r) st)
             (Inr r, spec_put clk field y s)"
      using p Some unfolding hincrby_def by auto
    show ?thesis
      using run(2) stay [of "Inl (OptionNone ''integer overflow'') :: i64 result"]
        stay [of "Inl (RedisErr ''hash value is not an integer'') :: i64 result"] unfolding run(1) range
      by (cases "parse_i64 (from_utf8_lossy x)") (simp_all add: spec_hincrby_def Some olift_apply)
  qed
qed

section \<open>Deleting fields\<close>

definition spec_hdel ::
  "(nat \<Rightarrow> u64) \<Rightarrow> bytes list \<Rightarrow> ((bytes \<rightharpoonup> bytes) \<times> u64) option
     \<Rightarrow> int result \<times> ((bytes \<rightharpoonup> bytes) \<times> u64) option" where
  "spec_hdel clk names s =
     (case seen_coll (clk 0) s of
        None \<Rightarrow> (Inr 0, s)
      | Some (F, et) \<Rightarrow> (Inr (int (card (set names \<inter> dom F))), Some (F |` (- set names), et)))"

lemma unique_fields: "distinct (unique_fields names)" "set (unique_fields names) = set names"
  by (simp_all add: unique_fields_def)

lemma hdel_out:
  assumes ok: "instance_ok E view st" and S: "hash_state key s t (contents_of view st)" and t: "t \<le> t'"
    and room: "has_room 0 s"
  shows "hash_out E view key st t' (hdel E clk key names st) (spec_hdel clk names s)"
proof (cases "seen_coll (clk 0) s")
  case None
  then show ?thesis
    using coll_meta_unseen [OF ok S _ member_type_hash] coll_out_stays [OF ok S t, of "Inr (0 :: int)"]
    by (simp add: hdel_def hash_cfs_ok [OF ok] spec_hdel_def oreturn_apply del: cf_name.simps)
next
  case (Some w)
  obtain F et where seen: "seen_coll (clk 0) s = Some (F, et)" using Some by (cases w) simp
  from coll_meta_seen [OF ok S member_type_hash seen] obtain v res ct where m: "s = Some (F, et)" "length res = 16" "v < t"
    "cells HashesDataCF (contents_of view st) key v F" "finite (dom F)" "card (dom F) < 2 ^ 64"
    "meta_at (contents_of view st) key = Some (base_meta_bytes THash (word_of_nat (card (dom F))) v res ct et)"
    "get_coll_meta E (clk 0) (the (rd_db st)) (cf_name MetaCF) THash (base_key_bytes key)
      = Inr (Some (mk_base_meta THash (word_of_nat (card (dom F))) v res ct et))" .
  define ms where "ms = filter (\<lambda>m. F m \<noteq> None) (unique_fields names)"
  have ms: "distinct ms" "set ms = set names \<inter> dom F"
    using unique_fields [of names] by (auto simp: ms_def)
  have n: "length ms = card (set names \<inter> dom F)" "length ms \<le> card (dom F)"
    using distinct_card [OF ms(1)] ms(2) card_mono [OF m(5), of "set ms"] by simp_all
  have small: "card (dom F) < 2 ^ 31" using room m(1) by (simp add: has_room_def)
  have restrict: "F |` (- set ms) = F |` (- set names)"
    by (auto simp: ms(2) fun_eq_iff restrict_map_def)
  have card: "card (dom (F |` (- set ms))) = card (dom F) - length ms"
  proof -
    have "dom (F |` (- set ms)) = dom F - set ms" by auto
    then show ?thesis using card_Diff_subset [of "set ms" "dom F"] ms distinct_card [OF ms(1)] m(5) by auto
  qed
  have i32: "usize_as_i32 (length ms) = int (length ms)"
    using n(2) small by (intro usize_as_i32_small) simp
  have stored: "stored_members E (the (rd_db st)) (cf_name HashesDataCF) key v (unique_fields names)
      = Inr (map (member_bytes key v) ms)"
    unfolding ms_def by (rule stored_members_eq [OF ok m(4)])
  have sub: "word_of_nat (card (dom F)) - word_of_nat (length ms) = (word_of_nat (card (dom F) - length ms) :: u64)"
    using n(2) by (simp add: of_nat_diff)
  have le: "\<not> (word_of_nat (card (dom F)) :: u64) < word_of_nat (length ms)"
    using n(2) m(6) by (simp add: word_less_nat_alt unat_of_nat_u64)
  show ?thesis
  proof (cases "ms = []")
    case True
    then have "F |` (- set names) = F" using restrict by (auto simp: fun_eq_iff restrict_map_def)
    then have "spec_hdel clk names s = (Inr 0, s)"
      using True n(1) by (simp add: spec_hdel_def seen m(1))
    then show ?thesis
      using coll_out_stays [OF ok S t, of "Inr (0 :: int)"] m(8) stored True i32
      by (simp add: hdel_def hash_cfs_ok [OF ok] oreturn_apply Let_def del: cf_name.simps)
  next
    case False
    let ?ops = "member_deletes HashesDataCF key v ms @ [BPut MetaCF (base_key_bytes key)
      (base_meta_bytes THash (word_of_nat (card (dom (F |` (- set ms))))) v res ct et)]"
    have fam: "family_ok HashesDataCF (contents_of view st) t" using S by (simp add: coll_state_def)
    have "ends E view key st (obind (write_ops E ?ops) (\<lambda>_. oreturn (int (length ms))) st) (int (length ms))
        (hash_state key (Some (F |` (- set ms), et)) t')"
      by (rule write_ends(1) [OF ok]; rule coll_state_deletes [OF member_type_hash m(4) fam t m(2,5,6) refl])
    moreover have "hdel E clk key names st = obind (write_ops E ?ops) (\<lambda>_. oreturn (int (length ms))) st"
      using m(2,8) stored False i32 le
      by (simp add: hdel_def hash_cfs_ok [OF ok] i64_as_u64_int sub card [simplified] comp_def Let_def del: cf_name.simps)
    moreover have "spec_hdel clk names s = (Inr (int (length ms)), Some (F |` (- set ms), et))"
      by (simp add: spec_hdel_def seen n(1) restrict)
    ultimately show ?thesis using coll_out_ends by metis
  qed
qed

section \<open>Writing many fields\<close>

lemma field_map_fold: "distinct (map fst m) \<Longrightarrow>
    distinct (map fst (fold (\<lambda>(field, value) m. AList.update field value m) fvs m))
    \<and> map_of (fold (\<lambda>(field, value) m. AList.update field value m) fvs m) = map_of m ++ map_of (rev fvs)"
proof (induction fvs arbitrary: m)
  case (Cons p fvs)
  obtain f x where p: "p = (f, x)" by (cases p)
  have d: "distinct (map fst (AList.update f x m))" using Cons.prems by (rule distinct_update)
  have "(map_of m)(f \<mapsto> x) ++ map_of (rev fvs) = map_of m ++ map_of (rev (p # fvs))"
    by (auto simp: p fun_eq_iff map_add_def split: option.splits)
  then show ?case using Cons.IH [OF d] by (simp add: p update_conv' fun_upd_def)
qed simp

lemma field_map_ok: "distinct (map fst (field_map fvs))" "map_of (field_map fvs) = map_of (rev fvs)"
  using field_map_fold [of "[]" fvs] by (simp_all add: field_map_def)

text \<open>The hash map hands out each of its entries once, in some order.\<close>

definition shuffles :: "((bytes \<times> bytes) list \<Rightarrow> (bytes \<times> bytes) list) \<Rightarrow> bool" where
  "shuffles order \<longleftrightarrow> (\<forall>xs. set (order xs) = set xs \<and> length (order xs) = length xs)"

lemma shuffled_fields:
  assumes "shuffles order"
  shows "distinct (map fst (order (field_map fvs)))" and "map_of (order (field_map fvs)) = map_of (rev fvs)"
    and "length (order (field_map fvs)) \<le> length fvs"
proof -
  let ?a = "order (field_map fvs)" and ?b = "field_map fvs"
  have set: "set ?a = set ?b" and len: "length ?a = length ?b" using assms by (simp_all add: shuffles_def)
  have "card (set (map fst ?a)) = length (map fst ?a)"
    using distinct_card [OF field_map_ok(1) [of fvs]] set len by simp
  then show d: "distinct (map fst ?a)" by (rule card_distinct)
  show m: "map_of ?a = map_of (rev fvs)"
    unfolding field_map_ok(2) [symmetric] using d field_map_ok(1) [of fvs] set by (rule map_of_inject_set [THEN iffD2])
  have "length ?a = card (dom (map_of (rev fvs)))" using card_map_of_distinct [OF d] m by simp
  also have "\<dots> \<le> length fvs" by (simp add: dom_map_of_conv_image_fst) (metis card_length length_map list.set_map)
  finally show "length ?a \<le> length fvs" .
qed

definition spec_hmset ::
  "(nat \<Rightarrow> u64) \<Rightarrow> (bytes \<times> bytes) list \<Rightarrow> ((bytes \<rightharpoonup> bytes) \<times> u64) option
     \<Rightarrow> unit result \<times> ((bytes \<rightharpoonup> bytes) \<times> u64) option" where
  "spec_hmset clk fvs s = (Inr (), with_fields (written clk s) (map_of (rev fvs)))"

lemma hmset_missing:
  assumes ok: "instance_ok E view st" and S: "hash_state key s t (contents_of view st)" and clk: "later t clk t'"
    and seen: "seen_coll (clk 1) (seen_coll (clk 0) s) = None"
    and fvs: "distinct (map fst fvs)" "length fvs < 2 ^ 64" "order (field_map fields0) = fvs"
  shows "ends E view key st (hmset E clk order key fields0 st) () (hash_state key (Some (map_of fvs, 0)) t')"
proof (cases "seen_coll (clk 0) s")
  case None
  have fam: "family_ok HashesDataCF (contents_of view st) t" using S by (simp add: coll_state_def)
  from None show ?thesis
    using create_new_hash_ends [OF ok fam clk fvs(1,2)] coll_meta_unseen [OF ok S _ member_type_hash]
    by (simp add: hmset_def hash_cfs_ok [OF ok] fvs(3) Let_def del: cf_name.simps)
next
  case (Some w)
  have fam: "family_ok HashesDataCF (contents_of view st) t" using S by (simp add: coll_state_def)
  obtain F et where w: "seen_coll (clk 0) s = Some (F, et)" using Some by (cases w) simp
  have expired: "expired (clk 1) et" using seen w by (cases s) (auto split: if_splits)
  from coll_meta_seen [OF ok S member_type_hash w] obtain v res ct where m: "s = Some (F, et)" "length res = 16" "v < t"
    "cells HashesDataCF (contents_of view st) key v F" "finite (dom F)" "card (dom F) < 2 ^ 64"
    "meta_at (contents_of view st) key = Some (base_meta_bytes THash (word_of_nat (card (dom F))) v res ct et)"
    "get_coll_meta E (clk 0) (the (rd_db st)) (cf_name MetaCF) THash (base_key_bytes key)
      = Inr (Some (mk_base_meta THash (word_of_nat (card (dom F))) v res ct et))" .
  show ?thesis
    using reset_hash_ends [OF ok fam clk fvs(1,2) m(2,3)] m(8) expired
    by (simp add: hmset_def hash_cfs_ok [OF ok] fvs(3) Let_def base_meta_is_valid_mk del: cf_name.simps)
qed

end

