(* ===== verification/Hashes_Simulation.thy ===== *)
theory Hashes_Simulation
  imports Hashes_Refinement Strings_Simulation
begin

text \<open>
  The hash commands as a whole: the abstract machine of hashes and the theorem that any sequence of commands
  refines it, the walks HGETALL, HKEYS and HVALS, and HSCAN sessions.
\<close>

section \<open>HMSET\<close>

lemma saturating_add_nat: "n + m < 2 ^ 64 \<Longrightarrow> saturating_add_u64 (word_of_nat n) (word_of_nat m) = word_of_nat (n + m)
    \<and> checked_add_u64 (word_of_nat n) (word_of_nat m) \<noteq> None"
  by (simp add: saturating_add_u64_def checked_add_u64_def unat_of_nat_u64)

lemma hmset_seen:
  assumes ok: "instance_ok E view st" and S: "hash_state key s t (contents_of view st)" and clk: "later t clk t'"
    and seen: "seen_coll (clk 1) (seen_coll (clk 0) s) = Some (F, et)"
    and fvs: "distinct (map fst fvs)" "order (field_map fields0) = fvs" and room: "card (dom F) + length fvs < 2 ^ 31"
  shows "ends E view key st (hmset E clk order key fields0 st) () (hash_state key (Some (F ++ map_of fvs, et)) t')"
proof -
  have fam: "family_ok HashesDataCF (contents_of view st) t" using S by (simp add: coll_state_def)
  have s: "s = Some (F, et)" "F \<noteq> Map.empty" "\<not> expired (clk 0) et" "\<not> expired (clk 1) et"
    using seen_twice_Some [OF seen] by simp_all
  have seen0: "seen_coll (clk 0) s = Some (F, et)" using s by simp
  from coll_meta_seen [OF ok S member_type_hash seen0] obtain v res ct where m: "s = Some (F, et)" "length res = 16" "v < t"
    "cells HashesDataCF (contents_of view st) key v F" "finite (dom F)" "card (dom F) < 2 ^ 64"
    "meta_at (contents_of view st) key = Some (base_meta_bytes THash (word_of_nat (card (dom F))) v res ct et)"
    "get_coll_meta E (clk 0) (the (rd_db st)) (cf_name MetaCF) THash (base_key_bytes key)
      = Inr (Some (mk_base_meta THash (word_of_nat (card (dom F))) v res ct et))" .
  have v': "v < t'" using m(3) laterD(1) [OF clk] by (rule order_less_le_trans)
  define new where "new = card (set (map fst fvs) - dom F)"
  have stored: "stored_members E (the (rd_db st)) (cf_name HashesDataCF) key v (map fst fvs)
      = Inr (map (member_bytes key v) (filter (\<lambda>m. F m \<noteq> None) (map fst fvs)))"
    by (rule stored_members_eq [OF ok m(4)])
  have new: "length fvs - length (filter (\<lambda>m. F m \<noteq> None) (map fst fvs)) = new"
    using length_filter_None [OF fvs(1), of F] unfolding new_def by simp
  have "new \<le> length fvs" using new by simp
  then have small: "card (dom F) + new < 2 ^ 31" using room by simp
  have i32: "usize_as_i32 new = int new" using small by (intro usize_as_i32_small) simp
  have c0: "card (dom F) \<noteq> 0" using s(2) m(5) by simp
  have cw: "(word_of_nat (card (dom F)) :: u64) \<noteq> 0"
    using c0 m(6) by (metis unat_0 unat_of_nat_u64)
  have sat: "saturating_add_u64 (word_of_nat (card (dom F))) (word_of_nat new) = word_of_nat (card (dom F) + new)"
      "checked_add_u64 (word_of_nat (card (dom F))) (word_of_nat new) \<noteq> None"
    using saturating_add_nat [of "card (dom F)" new] small by simp_all
  have dom: "dom (F ++ map_of (rev fvs)) = dom F \<union> (set (map fst fvs) - dom F)"
    by (auto simp: dom_map_of_conv_image_fst)
  have card: "card (dom (F ++ map_of (rev fvs))) = card (dom F) + new"
    unfolding dom new_def using m(5) by (subst card_Un_disjoint) auto
  have rev: "map_of (rev fvs) = map_of fvs" by (rule map_of_rev_distinct [OF fvs(1)])
  let ?puts = "member_puts clk 3 HashesDataCF key v fvs"
  let ?ops = "?puts @ (if 0 < new then [BPut MetaCF (base_key_bytes key)
      (base_meta_bytes THash (word_of_nat (card (dom F) + new)) v res ct et)] else [])"
  have hm: "hmset E clk order key fields0 st = write_ops E ?ops st"
    using m(2,8) stored new i32 cw s(4) sat
    by (simp add: hmset_def hash_cfs_ok [OF ok] fvs(2) base_meta_is_valid_mk i64_as_u64_int
        base_meta_check_modify_count_def Let_def del: cf_name.simps)
  have "hash_state key (Some (F ++ map_of fvs, et)) t' (after_ops ?ops (contents_of view st)) \<and> list_all (own_op key) ?ops"
  proof (cases "0 < new")
    case True
    then show ?thesis
      using coll_state_puts [where fvs = fvs and ops = ?ops and clk = clk and i = 3 and ct = ct and et = et,
        OF member_type_hash m(4) fam laterD(1) [OF clk] v' m(2,5) _ _ refl] card small rev by simp
  next
    case False
    then have "set (map fst fvs) - dom F = {}" unfolding new_def by simp
    then have "dom (map_of fvs) \<subseteq> dom F" by (auto simp: dom_map_of_conv_image_fst)
    then show ?thesis
      using coll_state_puts_only [OF member_type_hash m(4) fam laterD(1) [OF clk] v' m(2,5,6,7), of fvs clk 3] False rev
      by simp
  qed
  then show ?thesis unfolding hm by (intro write_ends(2) [OF ok]) auto
qed

lemma hmset_out:
  assumes ok: "instance_ok E view st" and S: "hash_state key s t (contents_of view st)" and clk: "later t clk t'"
    and room: "has_room (length fvs) s" and order: "shuffles order"
  shows "hash_out E view key st t' (hmset E clk order key fvs st) (spec_hmset clk fvs s)"
proof -
  note f = shuffled_fields [OF order, of fvs]
  have "\<exists>s'. ends E view key st (hmset E clk order key fvs st) () (hash_state key s' t')
      \<and> s' = with_fields (written clk s) (map_of (rev fvs))"
  proof (cases "seen_coll (clk 1) (seen_coll (clk 0) s)")
    case None
    have len: "length (order (field_map fvs)) < 2 ^ 64"
      using f(3) room by (simp add: has_room_def)
    have "ends E view key st (hmset E clk order key fvs st) ()
        (hash_state key (Some (map_of (order (field_map fvs)), 0)) t')"
      by (rule hmset_missing [OF ok S clk None f(1) len]) (rule refl)
    then show ?thesis by (intro exI conjI) (assumption, simp only: written_def with_fields_def None f(2) option.case)
  next
    case (Some w)
    obtain F et where w: "seen_coll (clk 1) (seen_coll (clk 0) s) = Some (F, et)" using Some by (cases w) simp
    have len: "card (dom F) + length (order (field_map fvs)) < 2 ^ 31"
      using f(3) room seen_twice_Some [OF w] by (simp add: has_room_def)
    have "ends E view key st (hmset E clk order key fvs st) ()
        (hash_state key (Some (F ++ map_of (order (field_map fvs)), et)) t')"
      by (rule hmset_seen [OF ok S clk w f(1) _ len]) (rule refl)
    then show ?thesis by (intro exI conjI) (assumption, simp only: written_def with_fields_def w f(2) option.case prod.case)
  qed
  then show ?thesis by (auto simp: spec_hmset_def intro: coll_out_ends)
qed

section \<open>Reads\<close>

lemma with_hash_eq:
  assumes "instance_ok E view st" and "hash_state key s t (contents_of view st)"
  shows "\<exists>v. (case seen_coll (clk 0) s of None \<Rightarrow> True | Some (F, et) \<Rightarrow> cells HashesDataCF (contents_of view st) key v F)
    \<and> (\<forall>absent present. with_hash E clk key st absent present =
        (case seen_coll (clk 0) s of None \<Rightarrow> Inr absent
         | Some _ \<Rightarrow> present (the (rd_db st)) (cf_name HashesDataCF) v))"
proof (cases "seen_coll (clk 0) s")
  case None
  then show ?thesis
    using coll_meta_unseen [OF assms None member_type_hash]
    by (simp add: with_hash_def hash_cfs_ok [OF assms(1)] del: cf_name.simps)
next
  case (Some w)
  obtain F et where w: "seen_coll (clk 0) s = Some (F, et)" using Some by (cases w) simp
  from coll_meta_seen [OF assms member_type_hash w] obtain v res ct where m: "s = Some (F, et)" "length res = 16" "v < t"
    "cells HashesDataCF (contents_of view st) key v F" "finite (dom F)" "card (dom F) < 2 ^ 64"
    "meta_at (contents_of view st) key = Some (base_meta_bytes THash (word_of_nat (card (dom F))) v res ct et)"
    "get_coll_meta E (clk 0) (the (rd_db st)) (cf_name MetaCF) THash (base_key_bytes key)
      = Inr (Some (mk_base_meta THash (word_of_nat (card (dom F))) v res ct et))" .
  show ?thesis
    using m(2,4,8) by (intro exI [of _ v]) (simp add: w with_hash_def hash_cfs_ok [OF assms(1)] del: cf_name.simps)
qed

lemma read_field_eq:
  assumes "instance_ok E view st" and "cells HashesDataCF (contents_of view st) key v F"
  shows "read_field E (the (rd_db st)) (cf_name HashesDataCF) key v field = Inr (map_option from_utf8_lossy (F field))"
proof -
  have "cell (F field) (contents_of view st (cf_name HashesDataCF) (member_bytes key v field))"
    using assms(2) by (simp add: cells_def del: cf_name.simps)
  then show ?thesis
    using db_get_ok(2) [OF assms(1), of "cf_name HashesDataCF" "member_bytes key v field"]
    by (cases "F field") (auto simp: read_field_def cell_simps simp del: cf_name.simps)
qed

definition visible :: "(nat \<Rightarrow> u64) \<Rightarrow> ((bytes \<rightharpoonup> bytes) \<times> u64) option \<Rightarrow> bytes \<rightharpoonup> bytes" where
  "visible clk s = members_of (seen_coll (clk 0) s)"

lemma hget_eq:
  assumes "instance_ok E view st" and "hash_state key s t (contents_of view st)"
  shows "hget E clk key field st = Inr (map_option from_utf8_lossy (visible clk s field))"
  using with_hash_eq [OF assms, of clk] read_field_eq [OF assms(1)]
  by (cases "seen_coll (clk 0) s") (auto simp: hget_def visible_def simp del: cf_name.simps)

lemma hmget_loop_eq:
  assumes "instance_ok E view st" and "cells HashesDataCF (contents_of view st) key v F"
  shows "hmget_loop E (the (rd_db st)) (cf_name HashesDataCF) key v names
    = Inr (map (\<lambda>f. map_option from_utf8_lossy (F f)) names)"
  by (induction names) (simp_all add: read_field_eq [OF assms] del: cf_name.simps)

lemma hmget_eq:
  assumes "instance_ok E view st" and "hash_state key s t (contents_of view st)"
  shows "hmget E clk key names st = Inr (map (\<lambda>f. map_option from_utf8_lossy (visible clk s f)) names)"
  using with_hash_eq [OF assms, of clk] hmget_loop_eq [OF assms(1)]
  by (cases "seen_coll (clk 0) s")
    (auto simp: hmget_def visible_def map_replicate_const simp del: cf_name.simps)

lemma hlen_eq:
  assumes "instance_ok E view st" and "hash_state key s t (contents_of view st)" and "has_room 0 s"
  shows "hlen E clk key st = Inr (int (card (dom (visible clk s))))"
proof (cases "seen_coll (clk 0) s")
  case None
  then show ?thesis
    using coll_meta_unseen [OF assms(1,2) None member_type_hash]
    by (simp add: hlen_def get_db_and_cfs_all [OF assms(1)] visible_def del: cf_name.simps)
next
  case (Some w)
  obtain F et where w: "seen_coll (clk 0) s = Some (F, et)" using Some by (cases w) simp
  from coll_meta_seen [OF assms(1,2) member_type_hash w] obtain v res ct where m: "s = Some (F, et)" "length res = 16" "v < t"
    "cells HashesDataCF (contents_of view st) key v F" "finite (dom F)" "card (dom F) < 2 ^ 64"
    "meta_at (contents_of view st) key = Some (base_meta_bytes THash (word_of_nat (card (dom F))) v res ct et)"
    "get_coll_meta E (clk 0) (the (rd_db st)) (cf_name MetaCF) THash (base_key_bytes key)
      = Inr (Some (mk_base_meta THash (word_of_nat (card (dom F))) v res ct et))" .
  have "card (dom F) < 2 ^ 31" using assms(3) m(1) by (simp add: has_room_def)
  then have "u64_as_i32 (word_of_nat (card (dom F))) = int (card (dom F))"
    using usize_as_i32_small [of "card (dom F)"]
    by (simp add: u64_as_i32_def usize_as_i32_def unsigned_of_nat take_bit_nat_eq_self)
  moreover have "visible clk s = F" by (simp add: visible_def w)
  ultimately show ?thesis
    using m(2,8) by (simp add: hlen_def get_db_and_cfs_all [OF assms(1)] del: cf_name.simps)
qed

section \<open>The machine of hashes\<close>

type_synonym hashes = "bytes \<Rightarrow> ((bytes \<rightharpoonup> bytes) \<times> u64) option"

datatype hash_cmd =
    HSet bytes bytes bytes | HSetNx bytes bytes bytes | HIncrBy bytes bytes i64
  | HMSet bytes "(bytes \<times> bytes) list" | HDel bytes "bytes list"
  | HGet bytes bytes | HExists bytes bytes | HStrLen bytes bytes | HMGet bytes "bytes list" | HLen bytes

datatype hash_reply =
    HInt int | HAdded int bool | HUnit | HBool bool | HBulk "bytes option" | HBulks "bytes option list" | HErr error

definition hash_answer :: "('a \<Rightarrow> hash_reply) \<Rightarrow> 'a result \<Rightarrow> hash_reply" where
  "hash_answer f r = (case r of Inl e \<Rightarrow> HErr e | Inr x \<Rightarrow> f x)"

fun run_hash_cmd ::
  "('db, 'c) env \<Rightarrow> ((bytes \<times> bytes) list \<Rightarrow> (bytes \<times> bytes) list) \<Rightarrow> (nat \<Rightarrow> u64) \<Rightarrow> hash_cmd \<Rightarrow> ('db, 'c) redis
     \<Rightarrow> hash_reply \<times> ('db, 'c) redis" where
  "run_hash_cmd E order clk (HSet k f x) st =
     map_prod (hash_answer (\<lambda>(n, changed). HAdded n changed)) id (hset_with_outcome E clk k f x st)"
| "run_hash_cmd E order clk (HSetNx k f x) st = map_prod (hash_answer HInt) id (hsetnx E clk k f x st)"
| "run_hash_cmd E order clk (HIncrBy k f i) st = map_prod (hash_answer HInt) id (hincrby E clk k f i st)"
| "run_hash_cmd E order clk (HMSet k fvs) st = map_prod (hash_answer (\<lambda>_. HUnit)) id (hmset E clk order k fvs st)"
| "run_hash_cmd E order clk (HDel k names) st = map_prod (hash_answer HInt) id (hdel E clk k names st)"
| "run_hash_cmd E order clk (HGet k f) st = (hash_answer HBulk (hget E clk k f st), st)"
| "run_hash_cmd E order clk (HExists k f) st = (hash_answer HBool (hexists E clk k f st), st)"
| "run_hash_cmd E order clk (HStrLen k f) st = (hash_answer HInt (hstrlen E clk k f st), st)"
| "run_hash_cmd E order clk (HMGet k names) st = (hash_answer HBulks (hmget E clk k names st), st)"
| "run_hash_cmd E order clk (HLen k) st = (hash_answer HInt (hlen E clk k st), st)"

fun hash_key :: "hash_cmd \<Rightarrow> bytes" where
  "hash_key (HSet k f x) = k"
| "hash_key (HSetNx k f x) = k"
| "hash_key (HIncrBy k f i) = k"
| "hash_key (HMSet k fvs) = k"
| "hash_key (HDel k names) = k"
| "hash_key (HGet k f) = k"
| "hash_key (HExists k f) = k"
| "hash_key (HStrLen k f) = k"
| "hash_key (HMGet k names) = k"
| "hash_key (HLen k) = k"

text \<open>The reply to a command and the hash it leaves at its key. Texts are read as UTF-8, with the
  replacement character for what is not.\<close>

fun spec_hash_cmd ::
  "(nat \<Rightarrow> u64) \<Rightarrow> hash_cmd \<Rightarrow> ((bytes \<rightharpoonup> bytes) \<times> u64) option \<Rightarrow> hash_reply \<times> ((bytes \<rightharpoonup> bytes) \<times> u64) option" where
  "spec_hash_cmd clk (HSet k f x) s =
     map_prod (hash_answer (\<lambda>(n, changed). HAdded n changed)) id (spec_hset clk f x s)"
| "spec_hash_cmd clk (HSetNx k f x) s = map_prod (hash_answer HInt) id (spec_hsetnx clk f x s)"
| "spec_hash_cmd clk (HIncrBy k f i) s = map_prod (hash_answer HInt) id (spec_hincrby clk f i s)"
| "spec_hash_cmd clk (HMSet k fvs) s = map_prod (hash_answer (\<lambda>_. HUnit)) id (spec_hmset clk fvs s)"
| "spec_hash_cmd clk (HDel k names) s = map_prod (hash_answer HInt) id (spec_hdel clk names s)"
| "spec_hash_cmd clk (HGet k f) s = (HBulk (map_option from_utf8_lossy (visible clk s f)), s)"
| "spec_hash_cmd clk (HExists k f) s = (HBool (f \<in> dom (visible clk s)), s)"
| "spec_hash_cmd clk (HStrLen k f) s =
     (HInt (case visible clk s f of None \<Rightarrow> 0 | Some x \<Rightarrow> usize_as_i32 (length (from_utf8_lossy x))), s)"
| "spec_hash_cmd clk (HMGet k names) s =
     (HBulks (map (\<lambda>f. map_option from_utf8_lossy (visible clk s f)) names), s)"
| "spec_hash_cmd clk (HLen k) s = (HInt (int (card (dom (visible clk s)))), s)"

definition spec_on_hashes :: "(nat \<Rightarrow> u64) \<Rightarrow> hash_cmd \<Rightarrow> hashes \<Rightarrow> hash_reply \<times> hashes" where
  "spec_on_hashes clk c A = (let (r, s) = spec_hash_cmd clk c (A (hash_key c)) in (r, A(hash_key c := s)))"

text \<open>How many fields a command may add to a hash.\<close>

fun grows :: "hash_cmd \<Rightarrow> nat" where
  "grows (HSet k f x) = 1"
| "grows (HSetNx k f x) = 1"
| "grows (HIncrBy k f i) = 1"
| "grows (HMSet k fvs) = length fvs"
| "grows c = 0"

definition stores_hashes :: "contents \<Rightarrow> u64 \<Rightarrow> hashes \<Rightarrow> bool" where
  "stores_hashes V t A \<longleftrightarrow> (\<forall>key. hash_state key (A key) t V)"

definition sized :: "nat \<Rightarrow> hashes \<Rightarrow> bool" where
  "sized n A \<longleftrightarrow> (\<forall>key. card (dom (members_of (A key))) \<le> n)"

lemma run_hash_cmd_out:
  assumes ok: "instance_ok E view st" and S: "hash_state (hash_key c) s t (contents_of view st)"
    and clk: "later t clk t'" and room: "has_room (grows c) s" and order: "shuffles order"
  shows "\<exists>st'. run_hash_cmd E order clk c st = (fst (spec_hash_cmd clk c s), st') \<and> instance_ok E view st'
    \<and> frame (hash_key c) (contents_of view st) (contents_of view st')
    \<and> hash_state (hash_key c) (snd (spec_hash_cmd clk c s)) t' (contents_of view st')"
proof -
  have out: "\<exists>st'. map_prod g id out = (fst (map_prod g id expected), st') \<and> instance_ok E view st'
      \<and> frame key (contents_of view st) (contents_of view st')
      \<and> hash_state key (snd (map_prod g id expected)) t' (contents_of view st')"
    if "hash_out E view key st t' out expected"
    for g :: "'r result \<Rightarrow> hash_reply" and key out expected
    using that by (cases expected) (auto simp: coll_out_def)
  have read: "instance_ok E view st \<and> frame (hash_key c) (contents_of view st) (contents_of view st)
      \<and> hash_state (hash_key c) s t' (contents_of view st)"
    using coll_out_stays [OF ok S laterD(1) [OF clk], of "Inr ()"] by (simp add: coll_out_def)
  show ?thesis
  proof (cases c)
    case (HSet k f x)
    then show ?thesis using out [OF hset_out [OF ok _ clk]] S room by simp
  next
    case (HSetNx k f x)
    then show ?thesis using out [OF hsetnx_out [OF ok _ clk]] S room by simp
  next
    case (HIncrBy k f i)
    then show ?thesis using out [OF hincrby_out [OF ok _ clk]] S room by simp
  next
    case (HMSet k fvs)
    then show ?thesis using out [OF hmset_out [OF ok _ clk _ order]] S room by simp
  next
    case (HDel k names)
    then show ?thesis using out [OF hdel_out [OF ok _ laterD(1) [OF clk]]] S room by simp
  next
    case (HGet k f)
    then show ?thesis using read hget_eq [OF ok S] by (simp add: hash_answer_def)
  next
    case (HExists k f)
    then show ?thesis using read hget_eq [OF ok S] by (simp add: hash_answer_def hexists_def domIff)
  next
    case (HStrLen k f)
    then show ?thesis using read hget_eq [OF ok S]
      by (cases "visible clk s f") (simp_all add: hash_answer_def hstrlen_def)
  next
    case (HMGet k names)
    then show ?thesis using read hmget_eq [OF ok S] by (simp add: hash_answer_def)
  next
    case (HLen k)
    then show ?thesis using read hlen_eq [OF ok S] room by (simp add: hash_answer_def)
  qed
qed

text \<open>Every hash grows by at most the fields a command names.\<close>

lemma dom_with_fields: "dom (members_of (with_fields (written clk s) M)) \<subseteq> dom (members_of s) \<union> dom M"
  by (cases s) (auto simp: with_fields_def written_def split: if_splits)

lemma members_hash_cmd: "\<exists>N. finite N \<and> card N \<le> grows c
    \<and> dom (members_of (snd (spec_hash_cmd clk c s))) \<subseteq> dom (members_of s) \<union> N"
proof -
  have put: "dom (members_of (spec_put clk f x s)) \<subseteq> dom (members_of s) \<union> {f}" for f x
    unfolding spec_put_def using dom_with_fields [of clk s "[f \<mapsto> x]"] by simp
  have one: ?thesis if "grows c = 1" "snd (spec_hash_cmd clk c s) \<in> {s, spec_put clk f x s}" for f x
    using that put [of f x] by (intro exI [of _ "{f}"]) (elim insertE emptyE; simp; blast)
  show ?thesis
  proof (cases c)
    case (HSet k f x)
    then show ?thesis
      by (intro one [of f x]) (auto simp: spec_hset_def split: option.splits)
  next
    case (HSetNx k f x)
    then show ?thesis
      by (intro one [of f x]) (auto simp: spec_hsetnx_def split: option.splits)
  next
    case (HIncrBy k f i)
    show ?thesis
    proof (cases "members_of (written clk s) f")
      case None
      then show ?thesis using HIncrBy
        by (intro one [of f "int_to_text i"]) (auto simp: spec_hincrby_def)
    next
      case (Some x)
      then show ?thesis using HIncrBy
        by (intro one [of f "int_to_text (the (parse_i64 (from_utf8_lossy x)) + i)"])
          (auto simp: spec_hincrby_def split: option.splits)
    qed
  next
    case (HMSet k fvs)
    have "card (dom (map_of (rev fvs))) \<le> length fvs"
      by (metis card_length dom_map_of_conv_image_fst length_map length_rev list.set_map)
    then show ?thesis using HMSet dom_with_fields [of clk s "map_of (rev fvs)"]
      by (intro exI [of _ "dom (map_of (rev fvs))"]) (simp add: spec_hmset_def finite_dom_map_of)
  next
    case (HDel k names)
    then show ?thesis
      by (intro exI [of _ "{}"]) (cases s; auto simp: spec_hdel_def restrict_map_def split: if_splits)
  qed (auto intro!: exI [of _ "{}"])
qed

lemma sized_step:
  assumes "sized n A" and "finite (dom (members_of (A (hash_key c))))"
  shows "sized (n + grows c) (snd (spec_on_hashes clk c A))"
proof -
  obtain N where N: "finite N" "card N \<le> grows c"
      "dom (members_of (snd (spec_hash_cmd clk c (A (hash_key c))))) \<subseteq> dom (members_of (A (hash_key c))) \<union> N"
    using members_hash_cmd by blast
  have "card (dom (members_of (snd (spec_hash_cmd clk c (A (hash_key c))))))
      \<le> card (dom (members_of (A (hash_key c))) \<union> N)"
    using N assms(2) by (intro card_mono) auto
  also have "\<dots> \<le> card (dom (members_of (A (hash_key c)))) + card N" by (rule card_Un_le)
  also have "\<dots> \<le> n + grows c" using assms(1) N(2) by (simp add: sized_def add_mono)
  finally show ?thesis
    using assms(1) by (auto simp: sized_def spec_on_hashes_def trans_le_add1 split: prod.splits)
qed

lemma hash_step:
  assumes ok: "instance_ok E view st" and A: "stores_hashes (contents_of view st) t A"
    and clk: "later t clk t'" and n: "sized n A" "n + grows c < 2 ^ 31" and order: "shuffles order"
  shows "\<exists>st'. run_hash_cmd E order clk c st = (fst (spec_on_hashes clk c A), st') \<and> instance_ok E view st'
    \<and> stores_hashes (contents_of view st') t' (snd (spec_on_hashes clk c A))
    \<and> sized (n + grows c) (snd (spec_on_hashes clk c A))"
proof -
  let ?k = "hash_key c"
  have S: "hash_state ?k (A ?k) t (contents_of view st)" using A by (simp add: stores_hashes_def)
  have "card (dom (members_of (A ?k))) \<le> n" using n(1) by (simp add: sized_def)
  then have "has_room (grows c) (A ?k)" using n(2) by (simp add: has_room_def)
  from run_hash_cmd_out [OF ok S clk this order] obtain st' where
    st': "run_hash_cmd E order clk c st = (fst (spec_hash_cmd clk c (A ?k)), st')" "instance_ok E view st'"
      "frame ?k (contents_of view st) (contents_of view st')"
      "hash_state ?k (snd (spec_hash_cmd clk c (A ?k))) t' (contents_of view st')" by blast
  have fin: "finite (dom (members_of (A ?k)))"
    using S by (cases "A ?k") (auto simp: coll_state_def holds_coll_def)
  have "hash_state key ((snd (spec_on_hashes clk c A)) key) t' (contents_of view st')" for key
  proof (cases "key = ?k")
    case True
    then show ?thesis using st'(4) by (auto simp: spec_on_hashes_def split: prod.splits)
  next
    case False
    have "holds_coll THash HashesDataCF (contents_of view st) key (A key)"
      using A by (simp add: stores_hashes_def coll_state_def)
    from holds_coll_frame [OF st'(3) False member_type_hash this] False st'(4) show ?thesis
      by (simp add: spec_on_hashes_def coll_state_def split: prod.splits)
  qed
  then show ?thesis
    using st'(1,2) sized_step [OF n(1) fin]
    by (auto simp: stores_hashes_def spec_on_hashes_def split: prod.splits)
qed

text \<open>A command with its readings of the clock, the order of its hash map, and a time after the readings.\<close>

type_synonym hash_event = "(nat \<Rightarrow> u64) \<times> ((bytes \<times> bytes) list \<Rightarrow> (bytes \<times> bytes) list) \<times> u64 \<times> hash_cmd"

fun run_hash_cmds ::
  "('db, 'c) env \<Rightarrow> hash_event list \<Rightarrow> ('db, 'c) redis \<Rightarrow> hash_reply list \<times> ('db, 'c) redis" where
  "run_hash_cmds E [] st = ([], st)"
| "run_hash_cmds E ((clk, order, _, c) # es) st =
     (let (r, st) = run_hash_cmd E order clk c st; (rs, st) = run_hash_cmds E es st in (r # rs, st))"

fun spec_hash_cmds :: "hash_event list \<Rightarrow> hashes \<Rightarrow> hash_reply list \<times> hashes" where
  "spec_hash_cmds [] A = ([], A)"
| "spec_hash_cmds ((clk, order, _, c) # es) A =
     (let (r, A) = spec_on_hashes clk c A; (rs, A) = spec_hash_cmds es A in (r # rs, A))"

fun timed :: "u64 \<Rightarrow> hash_event list \<Rightarrow> bool" where
  "timed t [] \<longleftrightarrow> True"
| "timed t ((clk, order, t', c) # es) \<longleftrightarrow> later t clk t' \<and> shuffles order \<and> timed t' es"

fun total_growth :: "hash_event list \<Rightarrow> nat" where
  "total_growth [] = 0"
| "total_growth ((_, _, _, c) # es) = grows c + total_growth es"

text \<open>C3: the hash commands refine the machine of maps from fields to values with an expiry. From an
  instance whose contents are the machine's hashes, any sequence of writes, deletions and reads on any
  keys returns the machine's replies, errors included, and ends in an instance that holds the machine's
  hashes: the fields of a hash never include those of an expired or emptied earlier hash at the same key.
  The hypotheses are that the clock moves on between commands and that no hash reaches $2^{31}$
  fields.\<close>

theorem hash_commands_refine_maps:
  "instance_ok E view st \<Longrightarrow> stores_hashes (contents_of view st) t A \<Longrightarrow> timed t es \<Longrightarrow> sized n A \<Longrightarrow>
    n + total_growth es < 2 ^ 31 \<Longrightarrow>
    \<exists>st' t'. run_hash_cmds E es st = (fst (spec_hash_cmds es A), st') \<and> instance_ok E view st'
      \<and> stores_hashes (contents_of view st') t' (snd (spec_hash_cmds es A))"
proof (induction es arbitrary: st t A n)
  case (Cons e es)
  obtain clk order t' c where e: "e = (clk, order, t', c)" by (cases e)
  have p: "later t clk t'" "shuffles order" "timed t' es" "n + grows c < 2 ^ 31"
      "(n + grows c) + total_growth es < 2 ^ 31" using Cons.prems(3,5) by (simp_all add: e)
  from hash_step [OF Cons.prems(1,2) p(1) Cons.prems(4) p(4,2)] obtain st1 where
    st1: "run_hash_cmd E order clk c st = (fst (spec_on_hashes clk c A), st1)" "instance_ok E view st1"
      "stores_hashes (contents_of view st1) t' (snd (spec_on_hashes clk c A))"
      "sized (n + grows c) (snd (spec_on_hashes clk c A))" by blast
  from Cons.IH [OF st1(2,3) p(3) st1(4) p(5)] st1(1) show ?case
    by (auto simp: e split: prod.splits)
qed auto

lemma stores_hashes_empty: "stores_hashes (\<lambda>_ _. None) t (\<lambda>_. None)"
  by (simp add: stores_hashes_def coll_state_def holds_coll_def family_ok_def)

lemma later_const: "0 < t \<Longrightarrow> t \<le> u \<Longrightarrow> u < t' \<Longrightarrow> later t (\<lambda>_. u) t'"
  by (simp add: later_def)

theorem hash_commands_refine_maps_witness:
  "\<exists>st'. run_hash_cmds map_env
      [(\<lambda>_. 1, id, 2, HSet [107] [97] [49]), (\<lambda>_. 2, id, 3, HMSet [107] [([97], [50]), ([98], [51])]),
       (\<lambda>_. 3, id, 4, HDel [107] [[98], [98], [99]]), (\<lambda>_. 4, id, 5, HIncrBy [107] [97] 5),
       (\<lambda>_. 5, id, 6, HLen [107]), (\<lambda>_. 6, id, 7, HMGet [107] [[97], [98]])]
      (map_redis (\<lambda>_ _. None))
    = ([HAdded 1 True, HUnit, HInt 1, HInt 7, HInt 1, HBulks [Some [55], None]], st')"
proof -
  let ?es = "[(\<lambda>_. 1, id, 2, HSet [107] [97] [49]), (\<lambda>_. 2, id, 3, HMSet [107] [([97], [50]), ([98], [51])]),
       (\<lambda>_. 3, id, 4, HDel [107] [[98], [98], [99]]), (\<lambda>_. 4, id, 5, HIncrBy [107] [97] 5),
       (\<lambda>_. 5, id, 6, HLen [107]), (\<lambda>_. 6, id, 7, HMGet [107] [[97], [98]])] :: hash_event list"
  have "stores_hashes (contents_of (\<lambda>V. V) (map_redis (\<lambda>_ _. None))) 1 (\<lambda>_. None)"
    by (simp add: stores_hashes_empty)
  moreover have "timed 1 ?es" by (simp add: later_def shuffles_def)
  moreover have "sized 0 (\<lambda>_. None)" by (simp add: sized_def)
  moreover have "0 + total_growth ?es < 2 ^ 31" by simp
  moreover have "fst (spec_hash_cmds ?es (\<lambda>_. None))
      = [HAdded 1 True, HUnit, HInt 1, HInt 7, HInt 1, HBulks [Some [55], None]]"
  proof -
    have 1: "spec_hash_cmd (\<lambda>_. 1) (HSet [107] [97] [49]) None = (HAdded 1 True, Some ([[97] \<mapsto> [49]], 0))"
      by (simp add: spec_hset_def spec_put_def written_def with_fields_def hash_answer_def)
    have 2: "spec_hash_cmd (\<lambda>_. 2) (HMSet [107] [([97], [50]), ([98], [51])]) (Some ([[97] \<mapsto> [49]], 0))
        = (HUnit, Some ([[97] \<mapsto> [50], [98] \<mapsto> [51]], 0))"
      by (simp add: spec_hmset_def written_def with_fields_def hash_answer_def expired_def)
    have 3: "spec_hash_cmd (\<lambda>_. 3) (HDel [107] [[98], [98], [99]]) (Some ([[97] \<mapsto> [50], [98] \<mapsto> [51]], 0))
        = (HInt 1, Some ([[97] \<mapsto> [50]], 0))"
      by (auto simp: spec_hdel_def hash_answer_def expired_def fun_eq_iff)
    have 4: "spec_hash_cmd (\<lambda>_. 4) (HIncrBy [107] [97] 5) (Some ([[97] \<mapsto> [50]], 0))
        = (HInt 7, Some ([[97] \<mapsto> [55]], 0))"
    proof -
      have text7: "int_to_text 7 = [55]" and text2: "int_to_text 2 = [50]"
        by (simp_all add: int_to_text_def nat_to_text.simps digit_def)
      have p: "parse_i64 (from_utf8_lossy [50]) = Some 2" "int_to_text 7 = [55]"
        using parse_int_to_text [of 2] from_utf8_lossy_ascii [of "[50]"] text7 text2
        by (simp_all del: from_utf8_lossy.simps)
      show ?thesis
        using p by (simp add: spec_hincrby_def spec_put_def written_def with_fields_def hash_answer_def expired_def in_i64_def
            del: from_utf8_lossy.simps)
    qed
    have 5: "spec_hash_cmd (\<lambda>_. 5) (HLen [107]) (Some ([[97] \<mapsto> [55]], 0)) = (HInt 1, Some ([[97] \<mapsto> [55]], 0))"
      by (simp add: visible_def expired_def)
    have 6: "spec_hash_cmd (\<lambda>_. 6) (HMGet [107] [[97], [98]]) (Some ([[97] \<mapsto> [55]], 0))
        = (HBulks [Some [55], None], Some ([[97] \<mapsto> [55]], 0))"
      using from_utf8_lossy_ascii [of "[55]"] by (simp add: visible_def expired_def del: from_utf8_lossy.simps)
    show ?thesis
      by (simp add: spec_on_hashes_def 1 2 3 4 5 6 Let_def del: spec_hash_cmd.simps)
  qed
  ultimately show ?thesis
    using hash_commands_refine_maps [OF instance_ok_map, of "\<lambda>_ _. None" 1 "\<lambda>_. None" ?es 0] by auto
qed

section \<open>Walks over a hash\<close>

lemma walk_hash_eq:
  assumes ok: "instance_ok E view st" and iter: "iter_ok (en_rocks E) view"
    and S: "hash_state key s t (contents_of view st)"
  shows "\<exists>xs. entries (visible clk s) xs \<and> (\<forall>f :: bytes \<Rightarrow> bytes \<Rightarrow> 'r result. \<exists>v.
    walk_hash E clk key st f = result_map (\<lambda>(m, ct, x). f (member_bytes key v m) (element_bytes ct x)) xs)"
proof -
  obtain v where v: "case seen_coll (clk 0) s of None \<Rightarrow> True | Some (F, et) \<Rightarrow> cells HashesDataCF (contents_of view st) key v F"
    "\<forall>(absent :: 'r list) present. with_hash E clk key st absent present =
        (case seen_coll (clk 0) s of None \<Rightarrow> Inr absent
         | Some _ \<Rightarrow> present (the (rd_db st)) (cf_name HashesDataCF) v)"
    using with_hash_eq [OF ok S, of clk] by (elim exE conjE) (rule that)
  have fam: "family_ok HashesDataCF (contents_of view st) t" using S by (simp add: coll_state_def)
  have walk: "walk_hash E clk key st f = (case seen_coll (clk 0) s of None \<Rightarrow> Inr []
      | Some _ \<Rightarrow> walk_prefix (prefix_bytes key v) f
          (iterator_cf E (the (rd_db st)) (cf_name HashesDataCF) (IterFrom (prefix_bytes key v) Forward)))"
    for f :: "bytes \<Rightarrow> bytes \<Rightarrow> 'r result"
    unfolding walk_hash_def v(2) [rule_format] by (simp only: member_seek_key_eq rbind_simps append_Nil2)
  show ?thesis
  proof (cases "seen_coll (clk 0) s")
    case None
    have "entries (visible clk s) []" by (simp add: visible_def None entries_def)
    moreover have "walk_hash E clk key st f = result_map (\<lambda>(m, ct, x). f (member_bytes key v m) (element_bytes ct x)) []"
      for f :: "bytes \<Rightarrow> bytes \<Rightarrow> 'r result" unfolding walk None by simp
    ultimately show ?thesis by (intro exI [of _ "[]"] conjI allI exI [of _ v])
  next
    case (Some w)
    obtain F et where w: "seen_coll (clk 0) s = Some (F, et)" using Some by (cases w) simp
    have C: "cells HashesDataCF (contents_of view st) key v F" using v(1) w by simp
    from walk_members [OF ok iter member_type_hash fam C] obtain xs where
      xs: "entries F xs" "\<forall>f :: bytes \<Rightarrow> bytes \<Rightarrow> 'r result. walk_prefix (prefix_bytes key v) f
        (iterator_cf E (the (rd_db st)) (cf_name HashesDataCF) (IterFrom (prefix_bytes key v) Forward))
        = result_map (\<lambda>(m, ct, x). f (member_bytes key v m) (element_bytes ct x)) xs"
      by (elim exE conjE) (rule that)
    have "entries (visible clk s) xs" using xs(1) by (simp add: visible_def w)
    moreover have "walk_hash E clk key st f = result_map (\<lambda>(m, ct, x). f (member_bytes key v m) (element_bytes ct x)) xs"
      for f :: "bytes \<Rightarrow> bytes \<Rightarrow> 'r result" unfolding walk w option.case xs(2) [rule_format] by (rule refl)
    ultimately show ?thesis by (intro exI [of _ xs] conjI allI exI [of _ v])
  qed
qed

lemma entries_unique:
  assumes "entries F xs" and "entries F ys"
  shows "map (\<lambda>(m, ct, x). (m, x)) xs = map (\<lambda>(m, ct, x). (m, x)) ys"
proof -
  have "sorted_wrt (\<lambda>x y. bytes_cmp (fst x) (fst y) = Less) (map (\<lambda>(m, ct, x). (m, x)) zs)"
    if "sorted_wrt (\<lambda>x y. bytes_cmp (fst x) (fst y) = Less) zs" for zs :: "(bytes \<times> u64 \<times> bytes) list"
    using that by (simp add: sorted_wrt_map case_prod_unfold)
  then show ?thesis
    using assms by (intro sorted_wrt_unique [where R = "\<lambda>x y. bytes_cmp (fst x) (fst y) = Less"])
      (simp_all add: entries_def bytes_cmp_less_asym)
qed

lemma walk_hash_map:
  fixes f :: "bytes \<Rightarrow> bytes \<Rightarrow> 'r result"
  assumes "instance_ok E view st" and "iter_ok (en_rocks E) view" and "hash_state key s t (contents_of view st)"
    and f: "\<And>v m ct x. f (member_bytes key v m) (element_bytes ct x) = Inr (g (m, x))"
  shows "\<exists>xs. entries (visible clk s) xs \<and> walk_hash E clk key st f = Inr (map g (map (\<lambda>(m, ct, x). (m, x)) xs))"
proof -
  obtain xs where xs: "entries (visible clk s) xs"
      "\<forall>f :: bytes \<Rightarrow> bytes \<Rightarrow> 'r result. \<exists>v.
        walk_hash E clk key st f = result_map (\<lambda>(m, ct, x). f (member_bytes key v m) (element_bytes ct x)) xs"
    using walk_hash_eq [OF assms(1-3), of clk] by (elim exE conjE) (rule that)
  from spec [OF xs(2), of f] obtain v where
    "walk_hash E clk key st f = result_map (\<lambda>(m, ct, x). f (member_bytes key v m) (element_bytes ct x)) xs"
    by (elim exE) (rule that)
  also have "\<dots> = Inr (map (\<lambda>(m, ct, x). g (m, x)) xs)"
    by (rule result_map_Inr) (simp add: f split: prod.splits)
  also have "map (\<lambda>(m, ct, x). g (m, x)) xs = map g (map (\<lambda>(m, ct, x). (m, x)) xs)"
    by (simp add: case_prod_unfold)
  finally show ?thesis using xs(1) by blast
qed

text \<open>C31: HGETALL, HKEYS and HVALS list the hash exactly. They return, in the order of the bytes of the
  fields, every field that is stored and not expired once, with its value; texts are read as UTF-8. Fields
  of other keys, of earlier versions of the hash and of hashes whose key extends this one do not appear.\<close>

theorem hash_walks_exact:
  assumes "instance_ok E view st" and "iter_ok (en_rocks E) view" and "hash_state key s t (contents_of view st)"
  shows "\<exists>xs. sorted_wrt (\<lambda>x y. bytes_cmp (fst x) (fst y) = Less) xs
    \<and> set xs = {(f, x). visible clk s f = Some x}
    \<and> hgetall E clk key st = Inr (map (map_prod from_utf8_lossy from_utf8_lossy) xs)
    \<and> hkeys E clk key st = Inr (map (from_utf8_lossy \<circ> fst) xs)
    \<and> hvals E clk key st = Inr (map (from_utf8_lossy \<circ> snd) xs)"
proof -
  note walk = walk_hash_map [OF assms, where clk = clk]
  have "\<exists>xs. entries (visible clk s) xs
      \<and> hgetall E clk key st = Inr (map (map_prod from_utf8_lossy from_utf8_lossy) (map (\<lambda>(m, ct, x). (m, x)) xs))"
    unfolding hgetall_def by (rule walk) (simp add: member_data_key_new_def)
  then obtain xs where xs: "entries (visible clk s) xs"
      "hgetall E clk key st = Inr (map (map_prod from_utf8_lossy from_utf8_lossy) (map (\<lambda>(m, ct, x). (m, x)) xs))"
    by (elim exE conjE) (rule that)
  have "\<exists>xs. entries (visible clk s) xs
      \<and> hkeys E clk key st = Inr (map (from_utf8_lossy \<circ> fst) (map (\<lambda>(m, ct, x). (m, x)) xs))"
    unfolding hkeys_def by (rule walk) (simp add: member_data_key_new_def)
  then obtain ys where ys: "entries (visible clk s) ys"
      "hkeys E clk key st = Inr (map (from_utf8_lossy \<circ> fst) (map (\<lambda>(m, ct, x). (m, x)) ys))"
    by (elim exE conjE) (rule that)
  have "\<exists>xs. entries (visible clk s) xs
      \<and> hvals E clk key st = Inr (map (from_utf8_lossy \<circ> snd) (map (\<lambda>(m, ct, x). (m, x)) xs))"
    unfolding hvals_def by (rule walk) (simp add: member_data_key_new_def)
  then obtain zs where zs: "entries (visible clk s) zs"
      "hvals E clk key st = Inr (map (from_utf8_lossy \<circ> snd) (map (\<lambda>(m, ct, x). (m, x)) zs))"
    by (elim exE conjE) (rule that)
  note same = entries_unique [OF ys(1) xs(1)] entries_unique [OF zs(1) xs(1)]
  let ?xs = "map (\<lambda>(m, ct, x). (m, x)) xs"
  have "sorted_wrt (\<lambda>x y. bytes_cmp (fst x) (fst y) = Less) ?xs \<and> set ?xs = {(f, x). visible clk s f = Some x}"
    using xs(1) by (simp add: entries_def sorted_wrt_map case_prod_unfold)
  then show ?thesis
    using xs(2) ys(2) zs(2) unfolding same by (intro exI [of _ ?xs] conjI) simp_all
qed

theorem hash_walks_exact_witness:
  "hgetall alist_env (\<lambda>_. 3) [107] (snd (hmset alist_env (\<lambda>_. 2) id [107] [([98], [50]), ([97], [49])] (alist_redis [])))
    = Inr [([97], [49]), ([98], [50])]"
proof -
  let ?st = "snd (hmset alist_env (\<lambda>_. 2) id [107] [([98], [50]), ([97], [49])] (alist_redis []))"
  let ?s = "Some ([[98] \<mapsto> [50], [97] \<mapsto> [49]], 0) :: ((bytes \<rightharpoonup> bytes) \<times> u64) option"
  have "hash_state [107] None 2 (contents_of alist_view (alist_redis []))"
    by (simp add: coll_state_def holds_coll_def family_ok_def alist_view_def)
  from hmset_out [OF instance_ok_alist this later_const [of 2 2 3], of "[([98], [50]), ([97], [49])]" id]
  have st: "instance_ok alist_env alist_view ?st" "hash_state [107] ?s 3 (contents_of alist_view ?st)"
    by (auto simp: has_room_def shuffles_def coll_out_def spec_hmset_def written_def with_fields_def)
  have visible: "visible (\<lambda>_. 3) ?s = [[98] \<mapsto> [50], [97] \<mapsto> [49]]"
    by (simp add: visible_def expired_def)
  from hash_walks_exact [OF st(1) iter_ok_alist_env st(2), of "\<lambda>_. 3"] obtain xs where
    xs: "sorted_wrt (\<lambda>x y. bytes_cmp (fst x) (fst y) = Less) xs"
      "set xs = {(f, x). [[98] \<mapsto> [50], [97] \<mapsto> [49]] f = Some x}"
      "hgetall alist_env (\<lambda>_. 3) [107] ?st = Inr (map (map_prod from_utf8_lossy from_utf8_lossy) xs)"
    unfolding visible by (elim exE conjE) (rule that)
  have set: "set xs = {([97], [49]), ([98], [50])}" unfolding xs(2) by (auto split: if_splits)
  have "xs = [([97], [49]), ([98], [50])]"
    by (rule sorted_wrt_unique [OF _ xs(1)]) (auto simp: set bytes_cmp_less_asym cmp_of_def)
  then show ?thesis
    using xs(3) from_utf8_lossy_ascii [of "[97]"] from_utf8_lossy_ascii [of "[98]"] from_utf8_lossy_ascii [of "[49]"]
      from_utf8_lossy_ascii [of "[50]"] by (simp del: from_utf8_lossy.simps)
qed

section \<open>HSCAN sessions\<close>

text \<open>A client that starts at cursor 0, asks for one field at a time and stops at a reply with cursor 0.\<close>

fun hscan_calls ::
  "('db, 'c) env \<Rightarrow> 'q scan_store \<Rightarrow> (nat \<Rightarrow> u64) \<Rightarrow> bytes \<Rightarrow> ('db, 'c) redis \<Rightarrow> nat \<Rightarrow> u64 \<Rightarrow> 'q
     \<Rightarrow> (u64 \<times> (bytes \<times> bytes) list) result list" where
  "hscan_calls E S clk key st 0 cursor q = []"
| "hscan_calls E S clk key st (Suc n) cursor q =
     (let (r, q) = hscan E S clk key cursor None (Some 1) st q in
      r # (case r of Inl _ \<Rightarrow> [] | Inr (cursor, _) \<Rightarrow> if cursor = 0 then [] else hscan_calls E S clk key st n cursor q))"

definition scan_store_ok :: "'q scan_store \<Rightarrow> bool" where
  "scan_store_ok S \<longleftrightarrow> (\<forall>q k x. sc_get S (sc_insert S q k x) k = Some x)"

lemma entries_a_a0:
  assumes "entries [[97] \<mapsto> x, [97, 0] \<mapsto> y] xs"
  obtains ct ct' where "xs = [([97], ct, x), ([97, 0], ct', y)]"
proof -
  let ?ys = "[([97], 0, x), ([97, 0], 0, y)] :: (bytes \<times> u64 \<times> bytes) list"
  have "entries [[97] \<mapsto> x, [97, 0] \<mapsto> y] ?ys"
    by (auto simp: entries_def cmp_of_def split: if_splits)
  from entries_unique [OF assms this] have "map (\<lambda>(m, ct, x). (m, x)) xs = [([97], x), ([97, 0], y)]" by simp
  then show ?thesis using that by (auto simp: map_eq_Cons_conv)
qed

lemma hscan_a_a0:
  assumes ok: "instance_ok E view st" and iter: "iter_ok (en_rocks E) view"
    and S: "hash_state key (Some ([[97] \<mapsto> x, [97, 0] \<mapsto> y], 0)) t (contents_of view st)"
    and point: "cursor = 0 \<or> sc_get St q (scan_index_key THash key [] cursor) = Some [97, 0]"
  shows "hscan E St clk key cursor None (Some 1) st q
    = (Inr (cursor + 1, [([97], x)]), sc_insert St q (scan_index_key THash key [] (cursor + 1)) [97, 0])"
proof -
  let ?F = "[[97] \<mapsto> x, [97, 0] \<mapsto> y] :: bytes \<rightharpoonup> bytes"
  define start :: bytes where "start = (if cursor = 0 then [] else [97, 0])"
  have seen: "seen_coll (clk 0) (Some (?F, 0)) = Some (?F, 0)" by (simp add: expired_def)
  from coll_meta_seen [OF ok S member_type_hash seen] obtain v res ct where
    m: "Some (?F, 0) = Some (?F, 0 :: u64)" "length res = 16" "v < t"
    "cells HashesDataCF (contents_of view st) key v ?F" "finite (dom ?F)" "card (dom ?F) < 2 ^ 64"
    "meta_at (contents_of view st) key = Some (base_meta_bytes THash (word_of_nat (card (dom ?F))) v res ct 0)"
    "get_coll_meta E (clk 0) (the (rd_db st)) (cf_name MetaCF) THash (base_key_bytes key)
      = Inr (Some (mk_base_meta THash (word_of_nat (card (dom ?F))) v res ct 0))" .
  have fam: "family_ok HashesDataCF (contents_of view st) t" using S by (simp add: coll_state_def)
  from member_items [OF ok iter member_type_hash fam m(4), where start = start] obtain xs rest where
    it: "iterator_cf E (the (rd_db st)) (cf_name HashesDataCF) (IterFrom (prefix_bytes key v @ start) Forward)
      = map Inr (map (\<lambda>(m, ct, x). (member_bytes key v m, element_bytes ct x)) xs @ rest)"
      "entries (?F |` {m. bytes_cmp start (m @ replicate 16 0) \<noteq> Greater}) xs" .
  have all: "?F |` {m. bytes_cmp start (m @ replicate 16 0) \<noteq> Greater} = ?F"
    by (auto simp: fun_eq_iff restrict_map_def start_def cmp_of_def numeral_eq_Suc)
  from it(2) obtain ca cb where xs: "xs = [([97], ca, x), ([97, 0], cb, y)]"
    unfolding all by (rule entries_a_a0)
  have wrap: "wrap_i64 1 = 1" by (simp add: wrap_i64_id)
  have loop: "hscan_loop (prefix_bytes key v) None 1 (iterator_cf E (the (rd_db st)) (cf_name HashesDataCF)
      (IterFrom (prefix_bytes key v @ start) Forward))
    = Inr ([([97], x)], Inr (member_bytes key v [97, 0], element_bytes cb y) # map Inr rest)"
  proof -
    have "\<exists>val. parsed_base_data_value_new (element_bytes ca x) = Inr val \<and> pv_user_value val = Inr x"
      by (simp add: element_bytes_eq parsed_base_data_value_encode pv_user_value_def slice_def)
    then obtain val where "parsed_base_data_value_new (element_bytes ca x) = Inr val" "pv_user_value val = Inr x"
      by blast
    then show ?thesis unfolding it(1) xs by (simp add: member_data_key_new_def)
  qed
  show ?thesis
  proof (cases "cursor = 0")
    case True
    then show ?thesis
      using m(2,8) loop
      by (simp add: hscan_def hash_cfs_ok [OF ok] wrap start_def store_scan_next_point_def member_data_key_new_def Let_def
          del: cf_name.simps)
  next
    case False
    then have "0 < cursor" by (simp add: word_gt_0)
    then show ?thesis
      using m(2,8) loop point False
      by (simp add: hscan_def hash_cfs_ok [OF ok] wrap start_def get_scan_start_point_def store_scan_next_point_def
          member_data_key_new_def Let_def del: cf_name.simps)
  qed
qed

text \<open>C32: an HSCAN session can fail to end. On a hash with the fields \<open>a\<close> and \<open>a\<close> followed by a
  zero byte, a client that scans one field at a time gets the field \<open>a\<close> in every reply, with a cursor
  that is not 0, and never gets the other field, for as many calls as there are cursors.\<close>

theorem hscan_session_stalls:
  assumes "instance_ok E view st" and "iter_ok (en_rocks E) view" and "scan_store_ok St"
    and "hash_state key (Some ([[97] \<mapsto> x, [97, 0] \<mapsto> y], 0)) t (contents_of view st)" and "n < 2 ^ 64"
  shows "hscan_calls E St clk key st n 0 q = map (\<lambda>i. Inr (word_of_nat (Suc i), [([97], x)])) [0..<n]"
proof -
  note step = hscan_a_a0 [OF assms(1,2,4), where St = St and clk = clk]
  have nonzero: "(word_of_nat (Suc i) :: u64) \<noteq> 0" if "Suc i < 2 ^ 64" for i
    using that by (metis nat.distinct(1) unat_0 unat_of_nat_u64)
  have "hscan_calls E St clk key st k (word_of_nat i) q = map (\<lambda>j. Inr (word_of_nat (Suc j), [([97], x)])) [i..<i + k]"
    if "i + k < 2 ^ 64" "word_of_nat i = (0 :: u64) \<or> sc_get St q (scan_index_key THash key [] (word_of_nat i)) = Some [97, 0]"
    for i k q
    using that
  proof (induction k arbitrary: i q)
    case (Suc k)
    let ?q = "sc_insert St q (scan_index_key THash key [] (word_of_nat (Suc i))) [97, 0]"
    have "sc_get St ?q (scan_index_key THash key [] (word_of_nat (Suc i))) = Some [97, 0]"
      using assms(3) by (simp add: scan_store_ok_def)
    then have IH: "hscan_calls E St clk key st k (word_of_nat (Suc i)) ?q
        = map (\<lambda>j. Inr (word_of_nat (Suc j), [([97], x)])) [Suc i..<Suc i + k]"
      using Suc.IH [of "Suc i" ?q] Suc.prems(1) by simp
    have "hscan E St clk key (word_of_nat i) None (Some 1) st q = (Inr (word_of_nat (Suc i), [([97], x)]), ?q)"
      using step [OF Suc.prems(2)] by (simp add: add.commute)
    then have "hscan_calls E St clk key st (Suc k) (word_of_nat i) q
        = Inr (word_of_nat (Suc i), [([97], x)]) # hscan_calls E St clk key st k (word_of_nat (Suc i)) ?q"
      using nonzero [of i] Suc.prems(1) by (simp del: of_nat_Suc)
    also have "\<dots> = map (\<lambda>j. Inr (word_of_nat (Suc j), [([97], x)])) [i..<i + Suc k]"
      unfolding IH by (simp add: upt_conv_Cons del: upt_Suc of_nat_Suc)
    finally show ?case .
  qed simp
  from this [of 0 n q] show ?thesis using assms(5) by simp
qed

definition map_store :: "(bytes \<rightharpoonup> bytes) scan_store" where
  "map_store = \<lparr>sc_get = (\<lambda>q k. q k), sc_insert = (\<lambda>q k x. q(k \<mapsto> x))\<rparr>"

theorem hscan_session_stalls_witness:
  "hscan_calls alist_env map_store (\<lambda>_. 3) [107]
      (snd (hmset alist_env (\<lambda>_. 2) id [107] [([97], [49]), ([97, 0], [50])] (alist_redis []))) 5 0 Map.empty
    = map (\<lambda>i. Inr (word_of_nat (Suc i), [([97], [49])])) [0..<5]"
proof -
  let ?st = "snd (hmset alist_env (\<lambda>_. 2) id [107] [([97], [49]), ([97, 0], [50])] (alist_redis []))"
  have "hash_state [107] None 2 (contents_of alist_view (alist_redis []))"
    by (simp add: coll_state_def holds_coll_def family_ok_def alist_view_def)
  from hmset_out [OF instance_ok_alist this later_const [of 2 2 3], of "[([97], [49]), ([97, 0], [50])]" id]
  have st: "instance_ok alist_env alist_view ?st"
      "hash_state [107] (Some ([[97] \<mapsto> [49], [97, 0] \<mapsto> [50]], 0)) 3 (contents_of alist_view ?st)"
    by (auto simp: has_room_def shuffles_def coll_out_def spec_hmset_def written_def with_fields_def)
  have "scan_store_ok map_store" by (simp add: scan_store_ok_def map_store_def)
  from hscan_session_stalls [OF st(1) iter_ok_alist_env this st(2), of 5 "\<lambda>_. 3" Map.empty] show ?thesis by simp
qed

end
