(* ===== verification/Spec2Isabelle.thy ===== *)
theory Spec2Isabelle
  imports Lists_Simulation Strings_Simulation Keyspace_Walks Hashes_Simulation
begin

text \<open>
  A verification development of Kiwi, a database that speaks the Redis protocol and stores its data in
  RocksDB, alone or replicated by Raft. It covers the storage crate \<^verbatim>\<open>src/src/storage/src\<close>: how keys and
  values become bytes, how RocksDB orders them, how writes become batches and log entries, and the commands
  on strings, lists, hashes and the keyspace.

  \<^bold>\<open>The parts and how they interact.\<close> A command runs on one \<^emph>\<open>instance\<close> (\<^verbatim>\<open>redis.rs\<close>), which owns a RocksDB
  database with a meta family and one data family per type. The command encodes the user key
  (\<^verbatim>\<open>storage_define.rs\<close>, \<^verbatim>\<open>format_base_key.rs\<close>), reads the meta value, checks its type and whether it is stale,
  reads or walks the data family under (key, version, member or index), and commits a batch
  (\<^verbatim>\<open>batch.rs\<close>). Alone, the batch is written to RocksDB; in a cluster it becomes a binlog entry for its slot
  that goes through the Raft log and is applied on every node (\<^verbatim>\<open>storage.rs\<close>, \<^verbatim>\<open>on_binlog_write\<close>). Deleting or
  overwriting a collection changes only its meta value: the version in the meta value, taken from the clock,
  hides the members of earlier versions.

  \<^bold>\<open>Conventions.\<close> Bytes are \<open>8 word\<close> lists, \<open>u64\<close> is \<open>64 word\<close> with its wrap-around, \<open>i64\<close> is \<open>int\<close> with
  \<open>wrap_i64\<close> where the code can wrap, \<open>usize\<close> is \<open>nat\<close>. A fallible function returns \<open>Inl\<close> an error or \<open>Inr\<close> a
  value, and a panic is an error value of its own. An operation on an instance takes the instance and returns a result
  and the instance. The clock is an argument: \<open>clk i\<close> is the value of the \<open>i\<close>-th reading of an operation, so
  nothing is assumed about readings within one command. Code outside the repository is an argument: RocksDB is
  the record \<open>rocks_db\<close> of its calls with the laws \<open>rocks_ok\<close> (reads see what batches wrote) and \<open>iter_ok\<close> (an
  iterator returns the reached keys once, in the order of the comparator); the cluster's slot hash, the
  Raft append, the statistics cache, the store of scan points and the order of a hash map are arguments too. \<open>map_env\<close>
  and \<open>alist_env\<close> are concrete databases on which the laws are proved and the witnesses run.

  \<^bold>\<open>Theories and sources.\<close>
  \<^item> \<open>Kiwi_Prelude\<close>: results, errors, byte and integer conversions, shared lemmas.
  \<^item> \<open>Storage_Define\<close> (\<^verbatim>\<open>storage_define.rs\<close>), \<open>Coding\<close> (\<^verbatim>\<open>coding.rs\<close>): the escape coding of user keys and fixed-width
    integers, with their round trips and the absence of delimiters inside keys.
  \<^item> \<open>Format_Values\<close>, \<open>Format_Keys\<close> (\<^verbatim>\<open>format_*.rs\<close>): encoders, parsers and setters of values and keys; round trips
    through one interface of codecs, injectivity, and two defects of the parsers.
  \<^item> \<open>Custom_Comparator\<close> (\<^verbatim>\<open>custom_comparator.rs\<close>): the comparators are lexicographic orders on the decoded keys
    and total preorders, as RocksDB requires of them.
  \<^item> \<open>Write_Batch\<close> (\<^verbatim>\<open>batch.rs\<close>, \<^verbatim>\<open>slot_indexer.rs\<close>, \<^verbatim>\<open>raft_type.rs\<close>), \<open>Redis_Core\<close> (\<^verbatim>\<open>redis.rs\<close>, \<^verbatim>\<open>storage.rs\<close>,
    \<^verbatim>\<open>statistics.rs\<close>): the instance, batches in both modes and the apply path; a replicated commit has the effect of
    a standalone one, and a binlog is applied, whole and only to the instance of its slot, or refused without effect.
  \<^item> \<open>Log_Index\<close> (\<^verbatim>\<open>logindex/\<close>): the collector of sequence numbers and the tracker of flushed log indexes.
  \<^item> \<open>Key_Frame\<close>: what a batch of one key leaves alone; the frame on which all refinements rest.
  \<^item> \<open>Redis_Lists\<close>, \<open>Lists_Refinement\<close>, \<open>Lists_Commands\<close>, \<open>Lists_Simulation\<close> (\<^verbatim>\<open>redis_lists.rs\<close>): every list
    command; sequences of commands refine abstract lists, and three deviations from the documented commands.
  \<^item> \<open>Number_Text\<close>, \<open>Redis_Strings\<close>, \<open>Redis_Keys\<close>, \<open>Strings_Refinement\<close>, \<open>Strings_Several\<close>,
    \<open>Strings_Simulation\<close> (\<^verbatim>\<open>redis_strings.rs\<close>): strings, counters, bits, several keys, expiry and deletion;
    sequences refine strings with an expiry, and a batch that crosses slots is refused behind the Raft log.
  \<^item> \<open>Glob_Match\<close> (\<^verbatim>\<open>redis_sets.rs\<close>): the pattern matcher halts and decides the language of the pattern.
  \<^item> \<open>Rocks_Iterator\<close>, \<open>Keyspace_Scan\<close>, \<open>Keyspace_Walks\<close> (\<^verbatim>\<open>storage_scan.rs\<close>, \<^verbatim>\<open>redis_strings.rs\<close>): KEYS,
    RANDOMKEY, FLUSHDB and SCAN; KEYS lists the live keys of a keyspace that the pattern selects, and a scan session
    over a keyspace at rest ends and returns each key once.
  \<^item> \<open>Member_Collections\<close>, \<open>Collection_States\<close>: the blocks that hashes and sets share, the contents that
    represent a map from members to values, and the walk over the members in their order.
  \<^item> \<open>Redis_Hashes\<close>, \<open>Hashes_Refinement\<close>, \<open>Hashes_Simulation\<close> (\<^verbatim>\<open>redis_hashes.rs\<close>): the hash commands refine maps
    with an expiry, the walks are exact, and an HSCAN session can fail to end.

  \<^bold>\<open>Bounds.\<close> The loops of the code are structural recursions over their data or over the items of an iterator. The
  glob matcher, whose termination depends on a measure of its indexes, is defined with its termination proof. The scan session of
  a client is a recursion on the number of calls; the liveness theorem bounds it by the number of stored keys and instances.
  Hypotheses on sizes say that a value fits the length fields of its format, and that a
  hash stays below \<open>2 ^ 31\<close> fields, where its replies would leave \<open>i32\<close>. The refinements of hashes assume that the clock moves on between commands, since new
  versions are readings of the clock.

  \<^bold>\<open>Not modelled.\<close> Floating-point commands (\<open>incr_decr_float\<close>, \<open>hincrbyfloat\<close>, sorted sets, vector sets) read and print
  decimal \<open>f64\<close> or compute with \<open>f32\<close>, for which the imported library has no model. Opening the database, checkpoints and
  manifests are file-system work; the network, the runtimes, the executor and the server are sockets, threads and timing. The Raft store
  and network adapters follow the interface of OpenRaft, which is outside the repository; what a log entry does to the
  data is modelled. Record locks serialise commands on one key: commands are modelled as atomic, in the order the
  locks give them. \<^verbatim>\<open>redis_multi.rs\<close> and \<^verbatim>\<open>redis_hyperloglog.rs\<close> are not part of the crate.
\<close>

end
